(* ===== verification/Qunix_Prelude.thy ===== *)
theory Qunix_Prelude
  imports Main "HOL-Library.Word" "HOL-Library.Monad_Syntax"
begin

text \<open>
  Vocabulary shared by every component: machine integers, checked and saturating
  arithmetic, byte slices with Rust's bounds checks, little-endian encodings and the
  index searches (\<open>Iterator::position\<close>) of the Rust standard library.

  Conventions of the development:
  \<^item> a Rust \<open>Option\<close> is an \<open>option\<close>, a Rust \<open>Result<T, E>\<close> is \<open>'e + 't\<close>;
  \<^item> a computation that may panic (an \<open>assert!\<close>, an \<open>expect\<close>, an index out of
    bounds) has type \<open>'a run\<close>, an \<open>option\<close> in which \<open>None\<close> is the panic;
  \<^item> \<open>usize\<close> is 64 bits wide (the only target is x86-64) and is a \<open>nat\<close>,
    with the bound written where an operation depends on it.
\<close>

unbundle bit_operations_syntax

section \<open>Types and panics\<close>

type_synonym u8 = "8 word"
type_synonym u16 = "16 word"
type_synonym u32 = "32 word"
type_synonym u64 = "64 word"
type_synonym usize = nat
type_synonym bytes = "u8 list"

type_synonym 'a run = "'a option"

text \<open>\<open>percpu::MAX_CPUS\<close>: how many processors the online mask can name, in the scheduler and in the
  TLB shootdown alike.\<close>

definition MAX_CPUS :: usize where
  "MAX_CPUS = 64"

definition check :: "bool \<Rightarrow> unit run" where
  "check b = (if b then Some () else None)"

named_theorems wf_intros \<open>preservation of the well-formedness invariants\<close>
named_theorems arith_simps \<open>rewrite rules of the machine arithmetic\<close>

lemma check_simps [simp]: "check True = Some ()" "check False = None"
  by (simp_all add: check_def)

lemma check_eq_Some [simp]: "check b = Some u \<longleftrightarrow> b"
  by (simp add: check_def)

lemma check_bind: "check b \<bind> f = (if b then f () else None)"
  by (simp add: check_def)

section \<open>Checked and saturating arithmetic\<close>

definition checked_add :: "'a::len word \<Rightarrow> 'a word \<Rightarrow> 'a word option" where
  "checked_add a b = (if unat a + unat b < 2 ^ LENGTH('a) then Some (a + b) else None)"

definition checked_mul :: "'a::len word \<Rightarrow> 'a word \<Rightarrow> 'a word option" where
  "checked_mul a b = (if unat a * unat b < 2 ^ LENGTH('a) then Some (a * b) else None)"

definition saturating_sub :: "'a::len word \<Rightarrow> 'a word \<Rightarrow> 'a word" where
  "saturating_sub a b = (if b \<le> a then a - b else 0)"

definition usize_checked_add :: "usize \<Rightarrow> usize \<Rightarrow> usize option" where
  "usize_checked_add a b = (if a + b < 2 ^ 64 then Some (a + b) else None)"

definition usize_checked_mul :: "usize \<Rightarrow> usize \<Rightarrow> usize option" where
  "usize_checked_mul a b = (if a * b < 2 ^ 64 then Some (a * b) else None)"

text \<open>\<open>checked_next_multiple_of\<close> on an unsigned 64-bit value: the least multiple of a
  non-zero \<open>m\<close> that is at least \<open>a\<close>, if it is representable.\<close>

definition next_multiple :: "nat \<Rightarrow> nat \<Rightarrow> nat" where
  "next_multiple a m = (if a mod m = 0 then a else a + (m - a mod m))"

definition u64_checked_next_multiple_of :: "nat \<Rightarrow> nat \<Rightarrow> nat option" where
  "u64_checked_next_multiple_of a m =
     (if next_multiple a m < 2 ^ 64 then Some (next_multiple a m) else None)"

lemma unat_bound: "unat (w :: 'a::len word) < 2 ^ LENGTH('a)"
  by (rule unsigned_less)

lemma word_of_nat_unat [simp]: "word_of_nat (unat w) = (w :: 'a::len word)"
  by simp

lemma bit_word_of_nat: "bit (word_of_nat n :: 'a::len word) m \<longleftrightarrow> m < LENGTH('a) \<and> bit n m"
  by transfer (simp add: bit_take_bit_iff bit_of_nat_iff)

lemma checked_add_Some:
  "checked_add a b = Some c \<longleftrightarrow> unat a + unat b < 2 ^ LENGTH('a) \<and> c = a + (b :: 'a::len word)"
  by (auto simp: checked_add_def)

lemma checked_add_unat:
  "checked_add a b = Some (c :: 'a::len word) \<Longrightarrow> unat c = unat a + unat b"
  by (auto simp: checked_add_Some unat_word_ariths)

lemma checked_add_None:
  "checked_add a (b :: 'a::len word) = None \<longleftrightarrow> 2 ^ LENGTH('a) \<le> unat a + unat b"
  by (auto simp: checked_add_def)

lemma unat_saturating_sub: "unat (saturating_sub a b) = unat a - unat b"
  by (auto simp: saturating_sub_def unat_sub word_le_nat_alt)

lemma next_multiple_ge: "a \<le> next_multiple a m"
  unfolding next_multiple_def by (rule iffD2 [OF if_split]) (simp only: le_add1 order_refl simp_thms)

lemma next_multiple_dvd: "0 < m \<Longrightarrow> m dvd next_multiple a m"
proof -
  assume m: "0 < m"
  have "a + (m - a mod m) = a div m * m + m" if "a mod m \<noteq> 0"
  proof -
    have "a = a div m * m + a mod m" by simp
    moreover have "a mod m < m" using m by simp
    ultimately show ?thesis by linarith
  qed
  then show ?thesis
    by (auto simp: next_multiple_def)
qed

lemma next_multiple_less: "0 < m \<Longrightarrow> next_multiple a m < a + m"
  by (simp add: next_multiple_def)

lemma next_multiple_least:
  assumes "0 < m" "m dvd b" "a \<le> b"
  shows "next_multiple a m \<le> b"
proof (rule ccontr)
  assume "\<not> next_multiple a m \<le> b"
  then have lt: "b < next_multiple a m" by simp
  have "m dvd next_multiple a m - b"
    using assms(2) next_multiple_dvd [OF assms(1)] by (simp add: dvd_diff_nat)
  then have "m \<le> next_multiple a m - b"
    using lt by (simp add: dvd_imp_le)
  then show False
    using next_multiple_less [OF assms(1), of a] assms(3) lt by linarith
qed

section \<open>Slices\<close>

definition slice_of :: "usize \<Rightarrow> usize \<Rightarrow> 'a list \<Rightarrow> 'a list run" where
  "slice_of a b xs = (if a \<le> b \<and> b \<le> length xs then Some (take (b - a) (drop a xs)) else None)"

definition index :: "'a list \<Rightarrow> usize \<Rightarrow> 'a run" where
  "index xs i = (if i < length xs then Some (xs ! i) else None)"

lemma slice_Some:
  "slice_of a b xs = Some ys \<longleftrightarrow> a \<le> b \<and> b \<le> length xs \<and> ys = take (b - a) (drop a xs)"
  by (auto simp: slice_of_def)

lemma slice_length: "slice_of a b xs = Some ys \<Longrightarrow> length ys = b - a"
  by (auto simp: slice_Some)

lemma slice_slice:
  assumes "slice_of a b xs = Some ys" "i \<le> j" "j \<le> b - a"
  shows "slice_of i j ys = slice_of (a + i) (a + j) xs"
  using assms by (auto simp: slice_of_def drop_take min_absorb1 add.commute split: if_splits)

lemma index_Some: "index xs i = Some x \<longleftrightarrow> i < length xs \<and> x = xs ! i"
  by (auto simp: index_def)

text \<open>A table of fixed-width records, one after the other.\<close>

lemma concat_slice:
  assumes "\<forall>x. length (f x) = k" "i < length xs"
  shows "slice_of (k * i) (k * i + k) (concat (map f xs) @ ys) = Some (f (xs ! i))"
  using assms(2)
proof (induction xs arbitrary: i)
  case Nil
  then show ?case by simp
next
  case (Cons x xs)
  have k: "length (f x) = k" using assms(1) by simp
  show ?case
  proof (cases i)
    case 0
    then show ?thesis using k by (simp add: slice_of_def)
  next
    case (Suc j)
    then have "slice_of (k * j) (k * j + k) (concat (map f xs) @ ys) = Some (f (xs ! j))"
      using Cons by simp
    then show ?thesis
      using k Suc by (auto simp: slice_of_def split: if_splits)
  qed
qed

section \<open>Little-endian encodings\<close>

fun le_nat :: "bytes \<Rightarrow> nat" where
  "le_nat [] = 0"
| "le_nat (b # bs) = unat b + 256 * le_nat bs"

fun to_le :: "nat \<Rightarrow> nat \<Rightarrow> bytes" where
  "to_le 0 v = []"
| "to_le (Suc n) v = word_of_nat (v mod 256) # to_le n (v div 256)"

definition from_le_bytes :: "bytes \<Rightarrow> 'a::len word" where
  "from_le_bytes bs = word_of_nat (le_nat bs)"

definition u16_to_le_bytes :: "u16 \<Rightarrow> bytes" where
  "u16_to_le_bytes w = to_le 2 (unat w)"

definition u32_to_le_bytes :: "u32 \<Rightarrow> bytes" where
  "u32_to_le_bytes w = to_le 4 (unat w)"

definition u64_to_le_bytes :: "u64 \<Rightarrow> bytes" where
  "u64_to_le_bytes w = to_le 8 (unat w)"

lemmas to_le_bytes_defs = u16_to_le_bytes_def u32_to_le_bytes_def u64_to_le_bytes_def

lemma unat_u8_less: "unat (b :: u8) < 256"
  using unat_bound [of b] by simp

lemma le_nat_bound: "le_nat bs < 256 ^ length bs"
proof (induction bs)
  case Nil
  then show ?case by simp
next
  case (Cons b bs)
  have "unat b + 256 * le_nat bs < 256 * (le_nat bs + 1)"
    using unat_u8_less [of b] by simp
  also have "\<dots> \<le> 256 * 256 ^ length bs"
    using Cons by (intro mult_le_mono2) simp
  finally show ?case by simp
qed

lemma to_le_length [simp]: "length (to_le n v) = n"
  by (induction n arbitrary: v) auto

lemma le_nat_to_le: "le_nat (to_le n v) = v mod 256 ^ n"
proof (induction n arbitrary: v)
  case 0
  then show ?case by simp
next
  case (Suc n)
  have "unat (word_of_nat (v mod 256) :: u8) = v mod 256"
    by (simp add: unat_of_nat)
  then have "le_nat (to_le (Suc n) v) = v mod 256 + 256 * (v div 256 mod 256 ^ n)"
    by (simp only: to_le.simps le_nat.simps Suc)
  also have "\<dots> = v mod (256 * 256 ^ n)"
    using mod_mult2_eq [of v 256 "256 ^ n"] by simp
  finally show ?case by simp
qed

lemma to_le_le_nat: "to_le (length bs) (le_nat bs) = bs"
proof (induction bs)
  case Nil
  then show ?case by simp
next
  case (Cons b bs)
  have "(unat b + 256 * le_nat bs) mod 256 = unat b" "(unat b + 256 * le_nat bs) div 256 = le_nat bs"
    using unat_u8_less [of b] by simp_all
  then show ?case
    by (simp only: list.size to_le.simps le_nat.simps One_nat_def add_0_right add_Suc_right Cons)
       (simp add: word_of_nat_unat)
qed

lemma le_bytes_length [simp]:
  "length (u16_to_le_bytes a) = 2" "length (u32_to_le_bytes b) = 4" "length (u64_to_le_bytes c) = 8"
  by (simp_all add: to_le_bytes_defs)

lemma from_le_to_le_16: "from_le_bytes (u16_to_le_bytes w) = w"
proof -
  have "unat w mod 256 ^ 2 = unat w"
    using unat_bound [of w] by simp
  then show ?thesis
    by (simp only: from_le_bytes_def u16_to_le_bytes_def le_nat_to_le word_of_nat_unat)
qed

lemma from_le_to_le_32: "from_le_bytes (u32_to_le_bytes w) = w"
proof -
  have "unat w mod 256 ^ 4 = unat w"
    using unat_bound [of w] by simp
  then show ?thesis
    by (simp only: from_le_bytes_def u32_to_le_bytes_def le_nat_to_le word_of_nat_unat)
qed

lemma from_le_to_le_64: "from_le_bytes (u64_to_le_bytes w) = w"
proof -
  have "unat w mod 256 ^ 8 = unat w"
    using unat_bound [of w] by simp
  then show ?thesis
    by (simp only: from_le_bytes_def u64_to_le_bytes_def le_nat_to_le word_of_nat_unat)
qed

lemmas from_le_to_le [simp] = from_le_to_le_16 from_le_to_le_32 from_le_to_le_64

lemma unat_from_le_bytes:
  assumes "8 * length bs \<le> LENGTH('a::len)"
  shows "unat (from_le_bytes bs :: 'a word) = le_nat bs"
proof -
  have "le_nat bs < 2 ^ (8 * length bs)"
    using le_nat_bound [of bs] by (simp add: power_mult)
  also have "\<dots> \<le> 2 ^ LENGTH('a)"
    using assms by (simp add: power_increasing)
  finally show ?thesis
    by (simp add: from_le_bytes_def unat_of_nat)
qed

section \<open>Index searches\<close>

text \<open>\<open>iter().position(p)\<close>: the least index whose element satisfies \<open>p\<close>.\<close>

fun position :: "('a \<Rightarrow> bool) \<Rightarrow> 'a list \<Rightarrow> nat option" where
  "position p [] = None"
| "position p (x # xs) = (if p x then Some 0 else map_option Suc (position p xs))"

lemma position_Some:
  "position p xs = Some i \<longleftrightarrow> i < length xs \<and> p (xs ! i) \<and> (\<forall>j < i. \<not> p (xs ! j))"
proof (induction xs arbitrary: i)
  case Nil
  then show ?case by simp
next
  case (Cons x xs)
  show ?case
  proof (cases i)
    case 0
    then show ?thesis by auto
  next
    case (Suc k)
    then show ?thesis
      using Cons by (auto simp: nth_Cons' All_less_Suc2)
  qed
qed

lemma position_None: "position p xs = None \<longleftrightarrow> (\<forall>x \<in> set xs. \<not> p x)"
  by (induction xs) auto

lemma position_None_nth: "position p xs = None \<longleftrightarrow> (\<forall>i < length xs. \<not> p (xs ! i))"
  by (auto simp: position_None all_set_conv_all_nth)

lemma position_SomeI: "i < length xs \<Longrightarrow> p (xs ! i) \<Longrightarrow> \<exists>j. position p xs = Some j"
  by (cases "position p xs") (auto simp: position_None_nth)

lemma position_SomeD:
  "position p xs = Some i \<Longrightarrow> i < length xs" "position p xs = Some i \<Longrightarrow> p (xs ! i)"
  by (auto simp: position_Some)

text \<open>A predicate met by one index only is found there.\<close>

lemma position_unique:
  assumes "i < length xs" "p (xs ! i)" "\<And>j. j < length xs \<Longrightarrow> p (xs ! j) \<Longrightarrow> j = i"
  shows "position p xs = Some i"
  unfolding position_Some using assms by (metis less_irrefl less_trans)

end
