(* ===== verification/Bcache_Table.thy ===== *)
theory Bcache_Table
  imports Qunix_Prelude
begin

text \<open>
  Buffer-cache bookkeeping, crate \<open>qunix-bcache\<close> (\<open>lib.rs\<close>): which slot holds which block and
  whether the slot may be reused. A table is a fixed array of slots; the queries answer for any
  index, the mutators panic (\<open>None\<close>) on a bad index or a broken precondition, as the source's
  indexing and \<open>assert!\<close> do. The interface \<open>keyed_table\<close> states what the kernel's cache relies on.
\<close>

section \<open>Slots and tables\<close>

record block_key =
  dev :: u32
  block :: u64

datatype slot_state = Free | Clean | Dirty | InFlight

record slot =
  key :: block_key
  state :: slot_state
  pins :: u32
  dirtied_during_io :: bool

definition slot_empty :: slot where
  "slot_empty = \<lparr>key = \<lparr>dev = 0, block = 0\<rparr>, state = Free, pins = 0, dirtied_during_io = False\<rparr>"

datatype insert_error = AlreadyResident usize | Full

record io_token =
  tok_slot :: usize
  prior :: slot_state

datatype evict_error = EDirty | IoOutstanding | Pinned

definition reusable :: "slot \<Rightarrow> bool" where
  "reusable s \<longleftrightarrow> (state s = Free \<or> state s = Clean) \<and> pins s = 0"

record cache =
  slots :: "slot list"

definition cache_new :: "nat \<Rightarrow> cache" where
  "cache_new N = \<lparr>slots = replicate N slot_empty\<rparr>"

definition lookup :: "cache \<Rightarrow> block_key \<Rightarrow> usize option" where
  "lookup c k = position (\<lambda>s. state s \<noteq> Free \<and> key s = k) (slots c)"

definition insert_block :: "cache \<Rightarrow> block_key \<Rightarrow> (insert_error + io_token) \<times> cache" where
  "insert_block c k =
     (case lookup c k of
        Some s \<Rightarrow> (Inl (AlreadyResident s), c)
      | None \<Rightarrow>
          (case position (\<lambda>s. state s = Free) (slots c) of
             None \<Rightarrow> (Inl Full, c)
           | Some i \<Rightarrow>
               (Inr \<lparr>tok_slot = i, prior = Free\<rparr>,
                c\<lparr>slots := (slots c)[i := \<lparr>key = k, state = InFlight, pins = 0, dirtied_during_io = False\<rparr>]\<rparr>)))"

definition slot_get :: "cache \<Rightarrow> usize \<Rightarrow> slot option" where
  "slot_get c i = (if i < length (slots c) then Some (slots c ! i) else None)"

definition key_of :: "cache \<Rightarrow> usize \<Rightarrow> block_key option" where
  "key_of c i = (case slot_get c i of None \<Rightarrow> None | Some s \<Rightarrow> if state s \<noteq> Free then Some (key s) else None)"

definition state_of :: "cache \<Rightarrow> usize \<Rightarrow> slot_state option" where
  "state_of c i = map_option state (slot_get c i)"

definition pins_of :: "cache \<Rightarrow> usize \<Rightarrow> u32 option" where
  "pins_of c i = map_option pins (slot_get c i)"

text \<open>\<open>&mut self.slots[i]\<close>: panics out of range.\<close>

definition with_slot :: "cache \<Rightarrow> usize \<Rightarrow> (slot \<Rightarrow> slot run) \<Rightarrow> cache run" where
  "with_slot c i f = do {
     s \<leftarrow> slot_get c i;
     s' \<leftarrow> f s;
     Some (c\<lparr>slots := (slots c)[i := s']\<rparr>) }"

definition mark_dirty :: "cache \<Rightarrow> usize \<Rightarrow> cache run" where
  "mark_dirty c i = with_slot c i (\<lambda>s. do {
     check (state s \<noteq> Free);
     Some (if state s = InFlight then s\<lparr>dirtied_during_io := True\<rparr> else s\<lparr>state := Dirty\<rparr>) })"

definition mark_clean :: "cache \<Rightarrow> usize \<Rightarrow> cache run" where
  "mark_clean c i = with_slot c i (\<lambda>s. do {
     check (state s = Clean \<or> state s = Dirty);
     Some (s\<lparr>state := Clean\<rparr>) })"

definition begin_io :: "cache \<Rightarrow> usize \<Rightarrow> (io_token \<times> cache) run" where
  "begin_io c i = do {
     s \<leftarrow> slot_get c i;
     c' \<leftarrow> with_slot c i (\<lambda>s. do {
       check (state s = Clean \<or> state s = Dirty);
       Some (s\<lparr>state := InFlight\<rparr>) });
     Some (\<lparr>tok_slot = i, prior = state s\<rparr>, c') }"

definition end_io :: "cache \<Rightarrow> io_token \<Rightarrow> slot_state \<Rightarrow> cache run" where
  "end_io c tok st = do {
     check (st \<noteq> Free);
     with_slot c (tok_slot tok) (\<lambda>s. do {
       check (state s = InFlight);
       Some (s\<lparr>dirtied_during_io := False, state := (if dirtied_during_io s then Dirty else st)\<rparr>) }) }"

definition force_end_io :: "cache \<Rightarrow> usize \<Rightarrow> slot_state \<Rightarrow> cache run" where
  "force_end_io c i st = end_io c \<lparr>tok_slot = i, prior = Clean\<rparr> st"

definition pin :: "cache \<Rightarrow> usize \<Rightarrow> cache run" where
  "pin c i = with_slot c i (\<lambda>s. do {
     check (state s \<noteq> Free);
     Some (s\<lparr>pins := pins s + 1\<rparr>) })"

definition unpin :: "cache \<Rightarrow> usize \<Rightarrow> cache run" where
  "unpin c i = with_slot c i (\<lambda>s. do {
     check (0 < pins s);
     Some (s\<lparr>pins := pins s - 1\<rparr>) })"

definition victim :: "cache \<Rightarrow> usize option" where
  "victim c =
     (case position (\<lambda>s. state s = Free) (slots c) of
        Some i \<Rightarrow> Some i
      | None \<Rightarrow> position reusable (slots c))"

definition evict :: "cache \<Rightarrow> usize \<Rightarrow> ((evict_error + unit) \<times> cache) run" where
  "evict c i = do {
     s \<leftarrow> slot_get c i;
     if pins s \<noteq> 0 then Some (Inl Pinned, c)
     else (case state s of
        Dirty \<Rightarrow> Some (Inl EDirty, c)
      | InFlight \<Rightarrow> Some (Inl IoOutstanding, c)
      | _ \<Rightarrow> Some (Inr (), c\<lparr>slots := (slots c)[i := slot_empty]\<rparr>)) }"

definition dirty_slots :: "cache \<Rightarrow> usize list" where
  "dirty_slots c = map fst (filter (\<lambda>(i, s). state s = Dirty) (enumerate 0 (slots c)))"

section \<open>The table as an interface\<close>

text \<open>A keyed table: what a client may rely on is that a lookup answers exactly the slot that
  holds the key, that an insert claims an unused slot for an absent key and changes no other
  slot, and that a release forgets exactly one slot's key.\<close>

locale keyed_table =
  fixes inv :: "'c \<Rightarrow> bool"
    and holds :: "'c \<Rightarrow> nat \<Rightarrow> 'k option"
    and find_key :: "'c \<Rightarrow> 'k \<Rightarrow> nat option"
    and claim_slot :: "'c \<Rightarrow> 'k \<Rightarrow> (nat \<times> 'c) option"
    and release :: "'c \<Rightarrow> nat \<Rightarrow> 'c option"
  assumes find_holds: "inv c \<Longrightarrow> find_key c k = Some i \<longleftrightarrow> holds c i = Some k"
    and claim_inv: "inv c \<Longrightarrow> claim_slot c k = Some (i, c') \<Longrightarrow> inv c'"
    and claim_absent: "inv c \<Longrightarrow> claim_slot c k = Some (i, c') \<Longrightarrow> find_key c k = None \<and> holds c i = None"
    and claim_holds: "inv c \<Longrightarrow> claim_slot c k = Some (i, c') \<Longrightarrow> holds c' = (holds c)(i \<mapsto> k)"
    and release_inv: "inv c \<Longrightarrow> release c i = Some c' \<Longrightarrow> inv c'"
    and release_holds: "inv c \<Longrightarrow> release c i = Some c' \<Longrightarrow> holds c' = (holds c)(i := None)"
begin

lemma one_slot_per_key: "inv c \<Longrightarrow> holds c i = Some k \<Longrightarrow> holds c j = Some k \<Longrightarrow> i = j"
  by (metis find_holds option.inject)

lemma find_None: "inv c \<Longrightarrow> find_key c k = None \<longleftrightarrow> k \<notin> ran (holds c)"
  by (auto simp: ran_def find_holds [symmetric])

lemma find_after_claim:
  assumes "inv c" "claim_slot c k = Some (i, c')"
  shows "find_key c' = (find_key c)(k \<mapsto> i)"
proof (rule ext)
  fix k'
  have "find_key c' k' = Some j \<longleftrightarrow> ((find_key c)(k \<mapsto> i)) k' = Some j" for j
    using claim_absent [OF assms] find_holds [OF claim_inv [OF assms], of k' j]
      find_holds [OF assms(1), of k' j] find_holds [OF assms(1), of k j]
    by (auto simp: claim_holds [OF assms])
  then show "find_key c' k' = ((find_key c)(k \<mapsto> i)) k'"
    by (metis option.exhaust)
qed

lemma find_after_release:
  assumes "inv c" "release c i = Some c'"
  shows "find_key c' k = (if holds c i = Some k then None else find_key c k)"
proof -
  have "find_key c' k = Some j \<longleftrightarrow> (if holds c i = Some k then None else find_key c k) = Some j" for j
    using assms find_holds [OF release_inv [OF assms], of k j] find_holds [OF assms(1)] one_slot_per_key [OF assms(1), of i k j]
    by (auto simp: release_holds)
  then show ?thesis
    by (metis option.exhaust)
qed

end

section \<open>Invariant\<close>

text \<open>A free slot is an empty one, the mid-I/O mark is only set while an I/O is outstanding, and no
  block is held by two slots.\<close>

definition slot_ok :: "slot \<Rightarrow> bool" where
  "slot_ok s \<longleftrightarrow> (state s = Free \<longrightarrow> s = slot_empty) \<and> (dirtied_during_io s \<longrightarrow> state s = InFlight)"

definition cache_inv :: "cache \<Rightarrow> bool" where
  "cache_inv c \<longleftrightarrow> (\<forall>s \<in> set (slots c). slot_ok s) \<and>
     (\<forall>i j k. key_of c i = Some k \<longrightarrow> key_of c j = Some k \<longrightarrow> i = j)"

lemma key_of_Some:
  "key_of c i = Some k \<longleftrightarrow> i < length (slots c) \<and> state (slots c ! i) \<noteq> Free \<and> key (slots c ! i) = k"
  by (auto simp: key_of_def slot_get_def split: if_splits)

lemma with_slot_Some:
  "with_slot c i f = Some c' \<longleftrightarrow>
    i < length (slots c) \<and> (\<exists>s'. f (slots c ! i) = Some s' \<and> c' = c\<lparr>slots := (slots c)[i := s']\<rparr>)"
  by (auto simp: with_slot_def slot_get_def bind_eq_Some_conv)

lemma slot_ok_empty [simp]: "slot_ok slot_empty"
  by (simp add: slot_ok_def slot_empty_def)

lemma state_empty [simp]: "state slot_empty = Free"
  by (simp add: slot_empty_def)

lemma key_of_update:
  "i < length (slots c) \<Longrightarrow> key_of (c\<lparr>slots := (slots c)[i := s']\<rparr>) j =
    (if j = i then (if state s' = Free then None else Some (key s')) else key_of c j)"
  by (auto simp: key_of_def slot_get_def)

text \<open>A mutator that neither frees a slot nor changes its key keeps the invariant.\<close>

lemma inv_same_key:
  assumes "cache_inv c" "i < length (slots c)" "slot_ok s'" "key s' = key (slots c ! i)"
    "state s' \<noteq> Free" "state (slots c ! i) \<noteq> Free"
  shows "cache_inv (c\<lparr>slots := (slots c)[i := s']\<rparr>) \<and> key_of (c\<lparr>slots := (slots c)[i := s']\<rparr>) = key_of c"
proof -
  have "key_of (c\<lparr>slots := (slots c)[i := s']\<rparr>) = key_of c"
    using assms by (auto simp: key_of_update fun_eq_iff key_of_def slot_get_def nth_list_update)
  then show ?thesis
    using assms by (auto simp: cache_inv_def dest: set_update_subset_insert [THEN subsetD])
qed

lemma inv_slot_ok: "cache_inv c \<Longrightarrow> i < length (slots c) \<Longrightarrow> slot_ok (slots c ! i)"
  by (simp add: cache_inv_def)

lemma inv_new [wf_intros]: "cache_inv (cache_new N)"
  by (auto simp: cache_inv_def cache_new_def key_of_Some)

text \<open>What each mutator does to its slot.\<close>

lemma mark_dirty_Some:
  "mark_dirty c i = Some c' \<longleftrightarrow> i < length (slots c) \<and> state (slots c ! i) \<noteq> Free \<and>
    c' = c\<lparr>slots := (slots c)[i := (if state (slots c ! i) = InFlight
      then (slots c ! i)\<lparr>dirtied_during_io := True\<rparr> else (slots c ! i)\<lparr>state := Dirty\<rparr>)]\<rparr>"
  by (auto simp: mark_dirty_def with_slot_Some check_bind)

lemma mark_clean_Some:
  "mark_clean c i = Some c' \<longleftrightarrow> i < length (slots c) \<and> state (slots c ! i) \<in> {Clean, Dirty} \<and>
    c' = c\<lparr>slots := (slots c)[i := (slots c ! i)\<lparr>state := Clean\<rparr>]\<rparr>"
  by (auto simp: mark_clean_def with_slot_Some check_bind split: if_splits)

lemma begin_io_Some:
  "begin_io c i = Some (t, c') \<longleftrightarrow> i < length (slots c) \<and> state (slots c ! i) \<in> {Clean, Dirty} \<and>
    t = \<lparr>tok_slot = i, prior = state (slots c ! i)\<rparr> \<and>
    c' = c\<lparr>slots := (slots c)[i := (slots c ! i)\<lparr>state := InFlight\<rparr>]\<rparr>"
  by (auto simp: begin_io_def with_slot_Some check_bind slot_get_def bind_eq_Some_conv split: if_splits)

lemma end_io_Some:
  "end_io c t st = Some c' \<longleftrightarrow> st \<noteq> Free \<and> tok_slot t < length (slots c) \<and> state (slots c ! tok_slot t) = InFlight \<and>
    c' = c\<lparr>slots := (slots c)[tok_slot t := (slots c ! tok_slot t)\<lparr>dirtied_during_io := False,
      state := (if dirtied_during_io (slots c ! tok_slot t) then Dirty else st)\<rparr>]\<rparr>"
  by (auto simp: end_io_def with_slot_Some check_bind split: if_splits)

lemma pin_Some:
  "pin c i = Some c' \<longleftrightarrow> i < length (slots c) \<and> state (slots c ! i) \<noteq> Free \<and>
    c' = c\<lparr>slots := (slots c)[i := (slots c ! i)\<lparr>pins := pins (slots c ! i) + 1\<rparr>]\<rparr>"
  by (auto simp: pin_def with_slot_Some check_bind)

lemma unpin_Some:
  "unpin c i = Some c' \<longleftrightarrow> i < length (slots c) \<and> 0 < pins (slots c ! i) \<and>
    c' = c\<lparr>slots := (slots c)[i := (slots c ! i)\<lparr>pins := pins (slots c ! i) - 1\<rparr>]\<rparr>"
  by (auto simp: unpin_def with_slot_Some check_bind)

lemma evict_ok_Some:
  "evict c i = Some (Inr u, c') \<longleftrightarrow> i < length (slots c) \<and> reusable (slots c ! i) \<and>
    c' = c\<lparr>slots := (slots c)[i := slot_empty]\<rparr>"
  by (auto simp: evict_def slot_get_def reusable_def split: slot_state.splits)

lemma evict_refused: "evict c i = Some (Inl e, c') \<Longrightarrow> c' = c"
  by (auto simp: evict_def slot_get_def split: if_splits slot_state.splits)

lemma insert_ok:
  "insert_block c k = (Inr t, c') \<longleftrightarrow> (\<exists>i. lookup c k = None \<and> position (\<lambda>s. state s = Free) (slots c) = Some i \<and>
    t = \<lparr>tok_slot = i, prior = Free\<rparr> \<and>
    c' = c\<lparr>slots := (slots c)[i := \<lparr>key = k, state = InFlight, pins = 0, dirtied_during_io = False\<rparr>]\<rparr>)"
  by (auto simp: insert_block_def split: option.splits)

lemma insert_refused: "insert_block c k = (Inl e, c') \<Longrightarrow> c' = c"
  by (auto simp: insert_block_def split: option.splits)

lemmas mutator_Some = mark_dirty_Some mark_clean_Some begin_io_Some end_io_Some pin_Some unpin_Some

lemma mutator_inv:
  assumes "cache_inv c"
    and "mark_dirty c i = Some c' \<or> mark_clean c i = Some c' \<or> (\<exists>t. begin_io c i = Some (t, c')) \<or>
      (\<exists>t st. end_io c t st = Some c') \<or> pin c i = Some c' \<or> unpin c i = Some c'"
  shows "cache_inv c' \<and> key_of c' = key_of c"
  using assms(2)
proof (elim disjE exE)
  show ?thesis if "mark_dirty c i = Some c'"
    using that inv_slot_ok [OF assms(1)] unfolding mark_dirty_Some
    by (elim conjE, hypsubst) (rule inv_same_key [OF assms(1)], auto simp: slot_ok_def)
  show ?thesis if "mark_clean c i = Some c'"
    using that inv_slot_ok [OF assms(1)] unfolding mark_clean_Some
    by (elim conjE, hypsubst) (rule inv_same_key [OF assms(1)], auto simp: slot_ok_def)
  show ?thesis if "begin_io c i = Some (t, c')" for t
    using that inv_slot_ok [OF assms(1)] unfolding begin_io_Some
    by (elim conjE, hypsubst) (rule inv_same_key [OF assms(1)], auto simp: slot_ok_def)
  show ?thesis if "end_io c t st = Some c'" for t st
    using that inv_slot_ok [OF assms(1)] unfolding end_io_Some
    by (elim conjE, hypsubst) (rule inv_same_key [OF assms(1)], auto simp: slot_ok_def)
  show ?thesis if "pin c i = Some c'"
    using that inv_slot_ok [OF assms(1)] unfolding pin_Some
    by (elim conjE, hypsubst) (rule inv_same_key [OF assms(1)], auto simp: slot_ok_def)
  show ?thesis if "unpin c i = Some c'"
  proof -
    have "state (slots c ! i) \<noteq> Free"
      using that inv_slot_ok [OF assms(1), of i] by (auto simp: unpin_Some slot_ok_def slot_empty_def)
    then show ?thesis
      using that inv_slot_ok [OF assms(1)] unfolding unpin_Some
      by (elim conjE, hypsubst) (rule inv_same_key [OF assms(1)], auto simp: slot_ok_def)
  qed
qed

lemma lookup_iff: "cache_inv c \<Longrightarrow> lookup c k = Some i \<longleftrightarrow> key_of c i = Some k"
  unfolding lookup_def
  by (auto simp: key_of_Some dest: position_SomeD intro!: position_unique) (auto simp: cache_inv_def key_of_Some)

lemma insert_inv:
  assumes "cache_inv c" "insert_block c k = (Inr t, c')"
  shows "cache_inv c' \<and> lookup c k = None \<and> key_of c (tok_slot t) = None \<and> key_of c' = (key_of c)(tok_slot t \<mapsto> k)"
proof -
  obtain i where i: "lookup c k = None" "i < length (slots c)" "state (slots c ! i) = Free" "t = \<lparr>tok_slot = i, prior = Free\<rparr>"
    "c' = c\<lparr>slots := (slots c)[i := \<lparr>key = k, state = InFlight, pins = 0, dirtied_during_io = False\<rparr>]\<rparr>"
    using assms(2) by (auto simp: insert_ok position_Some)
  then have keys: "key_of c' = (key_of c)(i \<mapsto> k)"
    by (auto simp: key_of_update fun_eq_iff)
  have absent: "key_of c j \<noteq> Some k" for j
    using i(1) lookup_iff [OF assms(1), of k j] by auto
  have "cache_inv c'"
    unfolding cache_inv_def
  proof (intro conjI)
    show "\<forall>s \<in> set (slots c'). slot_ok s"
      using assms(1) i(5) by (auto simp: cache_inv_def slot_ok_def dest!: set_update_subset_insert [THEN subsetD])
    show "\<forall>a b k'. key_of c' a = Some k' \<longrightarrow> key_of c' b = Some k' \<longrightarrow> a = b"
      using assms(1) absent by (auto simp: keys cache_inv_def)
  qed
  with i keys show ?thesis
    by (auto simp: key_of_def slot_get_def)
qed

lemma evict_inv:
  assumes "cache_inv c" "evict c i = Some (Inr u, c')"
  shows "cache_inv c' \<and> key_of c' = (key_of c)(i := None)"
proof -
  have i: "i < length (slots c)" "c' = c\<lparr>slots := (slots c)[i := slot_empty]\<rparr>"
    using assms(2) by (auto simp: evict_ok_Some)
  then have keys: "key_of c' = (key_of c)(i := None)"
    by (auto simp: key_of_update fun_eq_iff)
  then have "cache_inv c'"
    using assms(1) i(2)
    by (auto simp: cache_inv_def slot_ok_empty dest: set_update_subset_insert [THEN subsetD])
  with keys show ?thesis by simp
qed

definition claim_of :: "cache \<Rightarrow> block_key \<Rightarrow> (usize \<times> cache) option" where
  "claim_of c k = (case insert_block c k of (Inr t, c') \<Rightarrow> Some (tok_slot t, c') | (Inl e, _) \<Rightarrow> None)"

definition release_of :: "cache \<Rightarrow> usize \<Rightarrow> cache option" where
  "release_of c i = (case evict c i of Some (Inr _, c') \<Rightarrow> Some c' | _ \<Rightarrow> None)"

lemma claim_of_Some: "claim_of c k = Some (i, c') \<longleftrightarrow> (\<exists>t. insert_block c k = (Inr t, c') \<and> i = tok_slot t)"
  by (auto simp: claim_of_def split: prod.splits sum.splits)

lemma release_of_Some: "release_of c i = Some c' \<longleftrightarrow> evict c i = Some (Inr (), c')"
  by (auto simp: release_of_def split: option.splits prod.splits sum.splits)

interpretation table: keyed_table cache_inv key_of lookup claim_of release_of
  by unfold_locales (auto simp: claim_of_Some release_of_Some lookup_iff dest: insert_inv evict_inv)

section \<open>Histories of the table\<close>

text \<open>One step is one successful mutator call; a panicking call has no successor.\<close>

inductive table_step :: "cache \<Rightarrow> cache \<Rightarrow> bool" where
  insert: "insert_block c k = (r, c') \<Longrightarrow> table_step c c'"
| dirty: "mark_dirty c i = Some c' \<Longrightarrow> table_step c c'"
| clean: "mark_clean c i = Some c' \<Longrightarrow> table_step c c'"
| start: "begin_io c i = Some (t, c') \<Longrightarrow> table_step c c'"
| finish: "end_io c t st = Some c' \<Longrightarrow> table_step c c'"
| force: "force_end_io c i st = Some c' \<Longrightarrow> table_step c c'"
| pin: "pin c i = Some c' \<Longrightarrow> table_step c c'"
| unpin: "unpin c i = Some c' \<Longrightarrow> table_step c c'"
| evict: "evict c i = Some (e, c') \<Longrightarrow> table_step c c'"

inductive_cases table_stepE: "table_step c c'"

lemma table_step_inv: "table_step c c' \<Longrightarrow> cache_inv c \<Longrightarrow> cache_inv c'"
proof (erule table_stepE)
  show ?thesis if "insert_block c k = (r, c')" "cache_inv c" for k r
    using that by (cases r) (auto dest: insert_refused insert_inv)
  show ?thesis if "evict c i = Some (e, c')" "cache_inv c" for i e
    using that by (cases e) (auto dest: evict_refused evict_inv)
qed (simp_all only: force_end_io_def, (use mutator_inv in blast)+)

lemma table_reach_inv: "table_step\<^sup>*\<^sup>* c c' \<Longrightarrow> cache_inv c \<Longrightarrow> cache_inv c'"
  by (induction rule: rtranclp_induct) (auto intro: table_step_inv)

text \<open>C7: The table is a partial map from blocks to slots. In every state reachable from a new
  table, a lookup answers exactly the slot holding the block, so no block has two slots; an
  insert of an absent block claims a free slot and adds exactly that entry, is refused with the
  resident slot if there is one and with \<open>Full\<close> exactly when no slot is free; a granted eviction
  removes exactly one entry.\<close>

theorem table_is_block_map:
  assumes "table_step\<^sup>*\<^sup>* (cache_new N) c"
  shows "(lookup c k = Some i \<longleftrightarrow> key_of c i = Some k) \<and>
    (case insert_block c k of
       (Inr t, c') \<Rightarrow> lookup c k = None \<and> state_of c (tok_slot t) = Some Free \<and>
         lookup c' = (lookup c)(k \<mapsto> tok_slot t) \<and> state_of c' (tok_slot t) = Some InFlight
     | (Inl (AlreadyResident j), c') \<Rightarrow> lookup c k = Some j \<and> c' = c
     | (Inl Full, c') \<Rightarrow> lookup c k = None \<and> Some Free \<notin> state_of c ` {..<length (slots c)} \<and> c' = c) \<and>
    (\<forall>c'. evict c j = Some (Inr (), c') \<longrightarrow> lookup c' k = (if key_of c j = Some k then None else lookup c k))"
proof -
  have inv: "cache_inv c"
    using table_reach_inv [OF assms inv_new] .
  have "case insert_block c k of
       (Inr t, c') \<Rightarrow> lookup c k = None \<and> state_of c (tok_slot t) = Some Free \<and>
         lookup c' = (lookup c)(k \<mapsto> tok_slot t) \<and> state_of c' (tok_slot t) = Some InFlight
     | (Inl (AlreadyResident j), c') \<Rightarrow> lookup c k = Some j \<and> c' = c
     | (Inl Full, c') \<Rightarrow> lookup c k = None \<and> Some Free \<notin> state_of c ` {..<length (slots c)} \<and> c' = c"
  proof (cases "insert_block c k")
    case (Pair r c')
    show ?thesis
    proof (cases r)
      case (Inr t)
      then have ins: "insert_block c k = (Inr t, c')"
        using Pair by simp
      then have "claim_of c k = Some (tok_slot t, c')"
        by (auto simp: claim_of_Some)
      moreover have "state_of c (tok_slot t) = Some Free" "state_of c' (tok_slot t) = Some InFlight"
        using ins by (auto simp: insert_ok position_Some state_of_def slot_get_def)
      ultimately show ?thesis
        using ins table.find_after_claim [OF inv] insert_inv [OF inv ins] by simp
    next
      case (Inl e)
      with Pair show ?thesis
        by (auto simp: insert_block_def position_None_nth state_of_def slot_get_def split: option.splits)
    qed
  qed
  then show ?thesis
    using lookup_iff [OF inv] table.find_after_release [OF inv] by (auto simp: release_of_Some)
qed

theorem table_is_block_map_witness:
  "lookup (snd (insert_block (cache_new 2) \<lparr>dev = 1, block = 7\<rparr>)) \<lparr>dev = 1, block = 7\<rparr> = Some 0"
  using table_is_block_map [of 2 "snd (insert_block (cache_new 2) \<lparr>dev = 1, block = 7\<rparr>)" "\<lparr>dev = 1, block = 7\<rparr>" 0 0]
    table_step.insert [of "cache_new 2" "\<lparr>dev = 1, block = 7\<rparr>"
      "fst (insert_block (cache_new 2) \<lparr>dev = 1, block = 7\<rparr>)" "snd (insert_block (cache_new 2) \<lparr>dev = 1, block = 7\<rparr>)"]
  by (simp add: r_into_rtranclp) (simp add: insert_block_def lookup_def cache_new_def numeral_2_eq_2 slot_empty_def key_of_def slot_get_def)

text \<open>C20: \<open>victim\<close> and \<open>evict\<close> agree. A slot named by \<open>victim\<close> is evicted without a panic or a
  refusal; when \<open>victim\<close> names none, every slot is refused by \<open>evict\<close>; and a granted eviction
  never discards a dirty block, a block under I/O or a pinned one.\<close>

theorem victim_evict_agree:
  assumes "table_step\<^sup>*\<^sup>* (cache_new N) c"
  shows "(case victim c of
      Some i \<Rightarrow> \<exists>c'. evict c i = Some (Inr (), c') \<and> state_of c' i = Some Free
    | None \<Rightarrow> \<forall>i < length (slots c). \<exists>e. evict c i = Some (Inl e, c)) \<and>
   (\<forall>i c'. evict c i = Some (Inr (), c') \<longrightarrow>
      pins_of c i = Some 0 \<and> (state_of c i = Some Clean \<or> state_of c i = Some Free))"
proof (intro conjI)
  have inv: "cache_inv c"
    using table_reach_inv [OF assms inv_new] .
  show "\<forall>i c'. evict c i = Some (Inr (), c') \<longrightarrow>
      pins_of c i = Some 0 \<and> (state_of c i = Some Clean \<or> state_of c i = Some Free)"
    by (auto simp: evict_ok_Some reusable_def pins_of_def state_of_def slot_get_def)
  show "case victim c of
      Some i \<Rightarrow> \<exists>c'. evict c i = Some (Inr (), c') \<and> state_of c' i = Some Free
    | None \<Rightarrow> \<forall>i < length (slots c). \<exists>e. evict c i = Some (Inl e, c)"
  proof (cases "victim c")
    case None
    then have "\<not> reusable (slots c ! i)" if "i < length (slots c)" for i
      using that by (auto simp: victim_def position_None_nth split: option.splits)
    then show ?thesis
      using None by (auto simp: evict_def slot_get_def reusable_def split: slot_state.splits)
  next
    case (Some i)
    then have "i < length (slots c)" "reusable (slots c ! i)"
      using inv_slot_ok [OF inv, of i]
      by (auto simp: victim_def reusable_def slot_ok_def slot_empty_def position_Some split: option.splits)
    then show ?thesis
      using Some by (auto simp: evict_ok_Some state_of_def slot_get_def)
  qed
qed

theorem victim_evict_agree_witness: "victim (cache_new 1) = Some 0 \<and> (\<exists>c'. evict (cache_new 1) 0 = Some (Inr (), c'))"
  using victim_evict_agree [of 1 "cache_new 1"]
  by (simp add: victim_def cache_new_def slot_empty_def) blast

section \<open>Writes that race with an I/O\<close>

lemma slot_untouched:
  assumes "table_step c c'" "state_of c i = Some InFlight" "\<forall>t st. tok_slot t = i \<longrightarrow> end_io c t st \<noteq> Some c'"
  shows "state_of c' i = Some InFlight \<and> length (slots c') = length (slots c) \<and>
    (dirtied_during_io (slots c ! i) \<longrightarrow> dirtied_during_io (slots c' ! i))"
proof -
  have i: "i < length (slots c)" "state (slots c ! i) = InFlight"
    using assms(2) by (auto simp: state_of_def slot_get_def split: if_splits)
  show ?thesis
    using assms(1)
  proof (rule table_stepE)
    show ?thesis if "insert_block c k = (r, c')" for k r
      using that i by (cases r)
        (auto simp: insert_ok state_of_def slot_get_def nth_list_update position_Some dest: insert_refused)
    show ?thesis if "evict c j = Some (e, c')" for j e
      using that i by (cases e)
        (auto simp: evict_ok_Some reusable_def state_of_def slot_get_def nth_list_update dest: evict_refused)
    have other: ?thesis if "end_io c t st = Some c'" for t st
    proof -
      have "tok_slot t \<noteq> i" using that assms(3) by blast
      then show ?thesis
        using that i by (auto simp: end_io_Some state_of_def slot_get_def)
    qed
    show ?thesis if "end_io c t st = Some c'" for t st
      using other [OF that] .
    show ?thesis if "force_end_io c j st = Some c'" for j st
      using other that by (simp add: force_end_io_def)
  qed (use i in \<open>auto simp: mutator_Some state_of_def slot_get_def nth_list_update\<close>)
qed

inductive io_window :: "usize \<Rightarrow> cache \<Rightarrow> cache \<Rightarrow> bool" for i where
  here: "io_window i c c"
| more: "io_window i c d \<Longrightarrow> table_step d d' \<Longrightarrow> \<forall>t st. tok_slot t = i \<longrightarrow> end_io d t st \<noteq> Some d' \<Longrightarrow> io_window i c d'"

lemma io_window_keeps:
  assumes "io_window i c d" "state_of c i = Some InFlight"
  shows "state_of d i = Some InFlight \<and> length (slots d) = length (slots c) \<and>
    (dirtied_during_io (slots c ! i) \<longrightarrow> dirtied_during_io (slots d ! i))"
  using assms by (induction rule: io_window.induct) (use slot_untouched in \<open>force+\<close>)

text \<open>C21: A write that arrives while a writeback is outstanding is never erased by the writeback's
  own completion. Once a slot under I/O is marked dirty, whatever other calls run before that I/O
  ends, ending it leaves the slot dirty and listed by \<open>dirty_slots\<close>, whatever state the completion
  asks for.\<close>

theorem dirty_during_io_not_lost:
  assumes "state_of c i = Some InFlight" "mark_dirty c i = Some c1" "io_window i c1 c2"
    and "end_io c2 t st = Some c3" "tok_slot t = i"
  shows "state_of c3 i = Some Dirty \<and> i \<in> set (dirty_slots c3)"
proof -
  have "state_of c1 i = Some InFlight" "dirtied_during_io (slots c1 ! i)"
    using assms(1,2) by (auto simp: mark_dirty_Some state_of_def slot_get_def)
  then have "dirtied_during_io (slots c2 ! i)"
    using io_window_keeps [OF assms(3)] by blast
  then have "state_of c3 i = Some Dirty"
    using assms(4,5) by (auto simp: end_io_Some state_of_def slot_get_def)
  then show ?thesis
    by (auto simp: dirty_slots_def state_of_def slot_get_def in_set_enumerate_eq image_iff split: if_splits)
qed

theorem dirty_during_io_not_lost_witness:
  "0 \<in> set (dirty_slots (the (end_io (the (mark_dirty (snd (insert_block (cache_new 1) \<lparr>dev = 1, block = 7\<rparr>)) 0))
     \<lparr>tok_slot = 0, prior = Free\<rparr> Clean)))"
proof -
  define c where "c = snd (insert_block (cache_new 1) \<lparr>dev = 1, block = 7\<rparr>)"
  have c: "c = \<lparr>slots = [\<lparr>key = \<lparr>dev = 1, block = 7\<rparr>, state = InFlight, pins = 0, dirtied_during_io = False\<rparr>]\<rparr>"
    by (simp add: c_def insert_block_def lookup_def cache_new_def slot_empty_def)
  show ?thesis
    using dirty_during_io_not_lost [of c 0 "the (mark_dirty c 0)" "the (mark_dirty c 0)" "\<lparr>tok_slot = 0, prior = Free\<rparr>" Clean
        "the (end_io (the (mark_dirty c 0)) \<lparr>tok_slot = 0, prior = Free\<rparr> Clean)"] io_window.here
    unfolding c_def [symmetric] by (simp add: c mark_dirty_def end_io_def with_slot_def state_of_def slot_get_def)
qed

end
