(* ===== verification/Virtio_Queue.thy ===== *)
theory Virtio_Queue
  imports Qunix_Prelude "HOL-Library.Multiset"
begin

unbundle bit_operations_syntax

text \<open>
  Split virtqueues, crate \<open>qunix-virtio\<close>: the descriptor table with its free list chained through
  \<open>next\<close>, the available ring and the mirror of the used ring (\<open>queue.rs\<close>), the ring layout and the
  descriptor encoding (\<open>lib.rs\<close>) and the block-request layout (\<open>blk.rs\<close>). Indices are 16-bit words as
  in the source; an out-of-range index panics (\<open>None\<close>). The interface \<open>chain_allocator\<close> states what a
  driver relies on when it takes and returns descriptor chains.
\<close>

section \<open>Descriptors and layout\<close>

definition QUEUE_SIZE :: u16 where
  "QUEUE_SIZE = 64"

definition DESC_F_NEXT :: u16 where
  "DESC_F_NEXT = 1"

definition DESC_F_WRITE :: u16 where
  "DESC_F_WRITE = 2"

record descriptor =
  addr :: u64
  dlen :: u32
  flags :: u16
  dnext :: u16

definition descriptor_default :: descriptor where
  "descriptor_default = \<lparr>addr = 0, dlen = 0, flags = 0, dnext = 0\<rparr>"

definition descriptor_BYTES :: usize where
  "descriptor_BYTES = 16"

definition descriptor_to_bytes :: "descriptor \<Rightarrow> bytes" where
  "descriptor_to_bytes d =
     u64_to_le_bytes (addr d) @ u32_to_le_bytes (dlen d) @ u16_to_le_bytes (flags d) @ u16_to_le_bytes (dnext d)"

record ring_layout_t =
  l_desc :: usize
  l_avail :: usize
  l_used :: usize
  l_bytes :: usize

definition RING_HEADER :: usize where
  "RING_HEADER = 4"

definition RING_FOOTER :: usize where
  "RING_FOOTER = 2"

text \<open>\<open>div_ceil\<close> of the standard library.\<close>

definition align_up :: "usize \<Rightarrow> usize \<Rightarrow> usize" where
  "align_up value to = (value + to - 1) div to * to"

definition ring_layout :: "u16 \<Rightarrow> ring_layout_t" where
  "ring_layout sz =
     (let n = unat sz;
          d = 0;
          avail = d + descriptor_BYTES * n;
          avail_end = avail + RING_HEADER + 2 * n + RING_FOOTER;
          used = align_up avail_end 4;
          total = used + RING_HEADER + 8 * n + RING_FOOTER
      in \<lparr>l_desc = d, l_avail = avail, l_used = used, l_bytes = total\<rparr>)"

section \<open>Block requests\<close>

definition SECTOR_BYTES :: usize where
  "SECTOR_BYTES = 512"

definition REQUEST_IN :: u32 where
  "REQUEST_IN = 0"

definition REQUEST_OUT :: u32 where
  "REQUEST_OUT = 1"

record request_header =
  kind :: u32
  reserved :: u32
  sector :: u64

definition request_read :: "u64 \<Rightarrow> request_header" where
  "request_read s = \<lparr>kind = REQUEST_IN, reserved = 0, sector = s\<rparr>"

definition request_write :: "u64 \<Rightarrow> request_header" where
  "request_write s = \<lparr>kind = REQUEST_OUT, reserved = 0, sector = s\<rparr>"

definition request_to_bytes :: "request_header \<Rightarrow> bytes" where
  "request_to_bytes h = u32_to_le_bytes (kind h) @ u32_to_le_bytes (reserved h) @ u64_to_le_bytes (sector h)"

datatype blk_status = StatusOk | IoError | Unsupported | Unknown u8

definition status_from_byte :: "u8 \<Rightarrow> blk_status" where
  "status_from_byte b = (if b = 0 then StatusOk else if b = 1 then IoError else if b = 2 then Unsupported else Unknown b)"

definition transfer_satisfied :: "u32 \<Rightarrow> usize \<Rightarrow> bool" where
  "transfer_satisfied reported asked \<longleftrightarrow> asked \<le> unat reported"

section \<open>The queue\<close>

definition NIL :: u16 where
  "NIL = - 1"

record used_elem =
  used_id :: u32
  used_len :: u32

definition used_default :: used_elem where
  "used_default = \<lparr>used_id = 0, used_len = 0\<rparr>"

record split_queue =
  size_q :: u16
  desc :: "descriptor list"
  free_head :: u16
  free :: u16
  in_flight :: "bool list"
  avail_idx :: u16
  avail_ring :: "u16 list"
  used_ring :: "used_elem list"

definition is_power_of_two :: "u16 \<Rightarrow> bool" where
  "is_power_of_two w \<longleftrightarrow> (\<exists>k \<in> {0..<16}. unat w = 2 ^ k)"

definition queue_new :: "u16 \<Rightarrow> split_queue run" where
  "queue_new sz = do {
     check (sz > 0);
     check (is_power_of_two sz);
     let n = unat sz;
     Some \<lparr>size_q = sz,
       desc = map (\<lambda>i. descriptor_default\<lparr>dnext := (if i + 1 < n then word_of_nat i + 1 else NIL)\<rparr>) [0..<n],
       free_head = 0, free = sz, in_flight = replicate n False, avail_idx = 0,
       avail_ring = replicate n 0, used_ring = replicate n used_default\<rparr> }"

text \<open>\<open>self.desc[idx as usize]\<close>, read and written; both panic out of range.\<close>

definition get_desc :: "split_queue \<Rightarrow> u16 \<Rightarrow> descriptor run" where
  "get_desc q i = index (desc q) (unat i)"

definition set_desc :: "split_queue \<Rightarrow> u16 \<Rightarrow> (descriptor \<Rightarrow> descriptor) \<Rightarrow> split_queue run" where
  "set_desc q i f = do {
     d \<leftarrow> get_desc q i;
     Some (q\<lparr>desc := (desc q)[unat i := f d]\<rparr>) }"

fun alloc_loop :: "nat \<Rightarrow> split_queue \<Rightarrow> u16 \<Rightarrow> (u16 \<times> split_queue) run" where
  "alloc_loop 0 q prev = Some (prev, q)"
| "alloc_loop (Suc n) q prev = do {
     let idx = free_head q;
     check (idx \<noteq> NIL);
     d \<leftarrow> get_desc q idx;
     let q1 = q\<lparr>free_head := dnext d, free := free q - 1\<rparr>;
     q2 \<leftarrow> (if prev \<noteq> NIL
            then set_desc q1 prev (\<lambda>d. d\<lparr>flags := flags d OR DESC_F_NEXT, dnext := idx\<rparr>)
            else Some q1);
     alloc_loop n q2 idx }"

definition alloc_chain :: "split_queue \<Rightarrow> u16 \<Rightarrow> (u16 option \<times> split_queue) run" where
  "alloc_chain q n =
     (if n = 0 \<or> n > free q then Some (None, q)
      else do {
        (prev, q1) \<leftarrow> alloc_loop (unat n) q NIL;
        q2 \<leftarrow> set_desc q1 prev (\<lambda>d. d\<lparr>flags := flags d AND NOT DESC_F_NEXT, dnext := 0\<rparr>);
        Some (Some (free_head q), q2) })"

definition has_next :: "descriptor \<Rightarrow> bool" where
  "has_next d \<longleftrightarrow> flags d AND DESC_F_NEXT \<noteq> 0"

fun free_loop :: "nat \<Rightarrow> split_queue \<Rightarrow> u16 \<Rightarrow> split_queue run" where
  "free_loop 0 q idx = Some q"
| "free_loop (Suc n) q idx = do {
     d \<leftarrow> get_desc q idx;
     q1 \<leftarrow> set_desc q idx (\<lambda>_. descriptor_default\<lparr>dnext := free_head q\<rparr>);
     let q2 = q1\<lparr>free_head := idx, free := free q1 + 1\<rparr>;
     if has_next d then free_loop n q2 (dnext d) else Some q2 }"

definition set_in_flight :: "split_queue \<Rightarrow> u16 \<Rightarrow> bool \<Rightarrow> split_queue run" where
  "set_in_flight q i b = do {
     _ \<leftarrow> index (in_flight q) (unat i);
     Some (q\<lparr>in_flight := (in_flight q)[unat i := b]\<rparr>) }"

definition free_chain :: "split_queue \<Rightarrow> u16 \<Rightarrow> split_queue run" where
  "free_chain q head = do {
     q1 \<leftarrow> free_loop (unat (size_q q)) q head;
     set_in_flight q1 head False }"

definition describe :: "split_queue \<Rightarrow> u16 \<Rightarrow> u64 \<Rightarrow> u32 \<Rightarrow> bool \<Rightarrow> split_queue run" where
  "describe q idx a len device_writable =
     set_desc q idx (\<lambda>d. d\<lparr>addr := a, dlen := len,
       flags := (flags d AND DESC_F_NEXT) OR (if device_writable then DESC_F_WRITE else 0)\<rparr>)"

definition next_in_chain :: "split_queue \<Rightarrow> u16 \<Rightarrow> u16 option run" where
  "next_in_chain q idx = do {
     d \<leftarrow> get_desc q idx;
     Some (if has_next d then Some (dnext d) else None) }"

definition publish :: "split_queue \<Rightarrow> u16 \<Rightarrow> (u16 \<times> split_queue) run" where
  "publish q head = do {
     q1 \<leftarrow> set_in_flight q head True;
     check (size_q q \<noteq> 0);
     let slot = avail_idx q1 mod size_q q1;
     _ \<leftarrow> index (avail_ring q1) (unat slot);
     let q2 = q1\<lparr>avail_ring := (avail_ring q1)[unat slot := head], avail_idx := avail_idx q1 + 1\<rparr>;
     Some (avail_idx q2, q2) }"

definition last_slot :: "split_queue \<Rightarrow> u16" where
  "last_slot q = (avail_idx q - 1) mod size_q q"

definition take_used :: "split_queue \<Rightarrow> u16 \<Rightarrow> ((u16 \<times> u32) option \<times> split_queue) run" where
  "take_used q slot = do {
     check (size_q q \<noteq> 0);
     elem \<leftarrow> index (used_ring q) (unat (slot mod size_q q));
     if unat (used_id elem) \<ge> unat (size_q q) then Some (None, q)
     else do {
       let head = ucast (used_id elem);
       live \<leftarrow> index (in_flight q) (unat head);
       if \<not> live then Some (None, q)
       else do {
         q1 \<leftarrow> set_in_flight q head False;
         Some (Some (head, used_len elem), q1) } } }"

definition desc_bytes :: "split_queue \<Rightarrow> bytes" where
  "desc_bytes q = concat (map descriptor_to_bytes (desc q))"

definition descriptor_bytes :: "split_queue \<Rightarrow> u16 \<Rightarrow> bytes option" where
  "descriptor_bytes q i = map_option descriptor_to_bytes (index (desc q) (unat i))"

definition avail_slot_bytes :: "split_queue \<Rightarrow> u16 \<Rightarrow> bytes option" where
  "avail_slot_bytes q slot = map_option u16_to_le_bytes (index (avail_ring q) (unat slot))"

definition avail_slots_bytes :: "split_queue \<Rightarrow> bytes" where
  "avail_slots_bytes q = concat (map u16_to_le_bytes (avail_ring q)) @ u16_to_le_bytes 0"

definition AVAIL_IDX_OFFSET :: usize where
  "AVAIL_IDX_OFFSET = 2"

definition AVAIL_SLOTS_OFFSET :: usize where
  "AVAIL_SLOTS_OFFSET = RING_HEADER"

definition used_of_bytes :: "bytes \<Rightarrow> used_elem" where
  "used_of_bytes bs = \<lparr>used_id = from_le_bytes (take 4 bs), used_len = from_le_bytes (take 4 (drop 4 bs))\<rparr>"

fun ingest_loop :: "nat list \<Rightarrow> bytes \<Rightarrow> split_queue \<Rightarrow> split_queue run" where
  "ingest_loop [] bs q = Some q"
| "ingest_loop (slot # slots) bs q = do {
     let base = RING_HEADER + slot * 8;
     b \<leftarrow> slice_of base (base + 8) bs;
     _ \<leftarrow> index (used_ring q) slot;
     ingest_loop slots bs (q\<lparr>used_ring := (used_ring q)[slot := used_of_bytes b]\<rparr>) }"

definition ingest_used :: "split_queue \<Rightarrow> bytes \<Rightarrow> u16 \<Rightarrow> (u16 option \<times> split_queue) run" where
  "ingest_used q bs idx =
     (if length bs < RING_HEADER + 8 * unat (size_q q) then Some (None, q)
      else do {
        q' \<leftarrow> ingest_loop [0..<unat (size_q q)] bs q;
        Some (Some idx, q') })"

text \<open>\<open>bs\<close> is an array of eight bytes.\<close>

definition ingest_used_slot :: "split_queue \<Rightarrow> u16 \<Rightarrow> bytes \<Rightarrow> (bool \<times> split_queue) run" where
  "ingest_used_slot q slot bs =
     (if slot \<ge> size_q q then Some (False, q)
      else do {
        _ \<leftarrow> index (used_ring q) (unat slot);
        Some (True, q\<lparr>used_ring := (used_ring q)[unat slot := used_of_bytes bs]\<rparr>) })"

definition ring_bytes :: "split_queue \<Rightarrow> usize" where
  "ring_bytes q = l_bytes (ring_layout (size_q q))"

section \<open>What a driver relies on\<close>

text \<open>A pool of items handed out in chains: \<open>wf q fs C\<close> says that \<open>fs\<close> are the free items in the order in
  which they will be handed out and \<open>C\<close> the chains in use.\<close>

locale chain_allocator =
  fixes wf :: "'q \<Rightarrow> 'i list \<Rightarrow> 'i list list \<Rightarrow> bool"
    and total :: "'q \<Rightarrow> nat"
    and alloc :: "'q \<Rightarrow> nat \<Rightarrow> ('i option \<times> 'q) option"
    and release :: "'q \<Rightarrow> 'i \<Rightarrow> 'q option"
  assumes wf_distinct: "wf q fs C \<Longrightarrow> distinct (fs @ concat C)"
    and wf_total: "wf q fs C \<Longrightarrow> length fs + length (concat C) = total q"
    and alloc_ok: "wf q fs C \<Longrightarrow> 0 < n \<Longrightarrow> n \<le> length fs \<Longrightarrow>
      \<exists>q'. alloc q n = Some (Some (hd fs), q') \<and> wf q' (drop n fs) (take n fs # C)"
    and alloc_full: "wf q fs C \<Longrightarrow> n = 0 \<or> length fs < n \<Longrightarrow> alloc q n = Some (None, q)"
    and release_ok: "wf q fs C \<Longrightarrow> c \<in> set C \<Longrightarrow>
      \<exists>q'. release q (hd c) = Some q' \<and> wf q' (rev c @ fs) (remove1 c C)"
begin

text \<open>As long as the pool has room for one more chain of length \<open>k\<close> beside those in use, it hands one
  out: nothing leaks.\<close>

lemma admits:
  assumes wf: "wf q fs C" and len: "\<forall>c \<in> set C. length c \<le> k" and k: "0 < k" "k * (length C + 1) \<le> total q"
  shows "\<exists>h q'. alloc q k = Some (Some h, q')"
proof -
  have "length (concat C) \<le> k * length C"
    using len by (induction C) (auto simp: algebra_simps)
  then have "k \<le> length fs"
    using wf_total [OF wf] k(2) by (simp add: algebra_simps)
  then show ?thesis
    using alloc_ok [OF wf k(1)] by blast
qed

text \<open>A chain handed out shares no item with any chain in use.\<close>

lemma exclusive:
  assumes wf: "wf q fs C" and al: "alloc q n = Some (Some h, q')"
  shows "\<exists>c. wf q' (drop n fs) (c # C) \<and> length c = n \<and> h = hd c \<and> set c \<inter> set (concat C) = {}"
proof -
  have "\<not> (n = 0 \<or> length fs < n)"
  proof
    assume "n = 0 \<or> length fs < n"
    from alloc_full [OF wf this] al show False by simp
  qed
  then have n: "0 < n" "n \<le> length fs" by auto
  have new: "h = hd fs" "wf q' (drop n fs) (take n fs # C)"
    using alloc_ok [OF wf n] al by auto
  show ?thesis
  proof (intro exI conjI)
    show "wf q' (drop n fs) (take n fs # C)" by (fact new(2))
    show "h = hd (take n fs)" using new(1) n by (simp add: hd_take)
    show "set (take n fs) \<inter> set (concat C) = {}" using wf_distinct [OF new(2)] by auto
  qed (use n in simp)
qed

text \<open>Whatever was taken can be returned, and then everything is free again.\<close>

lemma drain:
  "wf q fs C \<Longrightarrow> \<exists>q' fs'. wf q' fs' [] \<and> length fs' = length fs + length (concat C)"
proof (induction C arbitrary: q fs)
  case Nil
  then show ?case by auto
next
  case (Cons c C)
  then obtain q1 where "wf q1 (rev c @ fs) C"
    using release_ok [of q fs "c # C" c] by auto
  from Cons.IH [OF this] obtain q' fs' where "wf q' fs' []" "length fs' = length fs + length (concat (c # C))"
    by auto
  then show ?case by blast
qed

end

section \<open>Invariant\<close>

text \<open>The free list and a chain in use, as the links of the table describe them.\<close>

abbreviation d_at :: "split_queue \<Rightarrow> u16 \<Rightarrow> descriptor" where
  "d_at q i \<equiv> desc q ! unat i"

fun free_list :: "split_queue \<Rightarrow> u16 \<Rightarrow> u16 list \<Rightarrow> bool" where
  "free_list q h [] \<longleftrightarrow> h = NIL"
| "free_list q h (i # is) \<longleftrightarrow> h = i \<and> \<not> has_next (d_at q i) \<and> free_list q (dnext (d_at q i)) is"

fun linked :: "split_queue \<Rightarrow> u16 list \<Rightarrow> bool" where
  "linked q (i # j # r) \<longleftrightarrow> has_next (d_at q i) \<and> dnext (d_at q i) = j \<and> linked q (j # r)"
| "linked q _ \<longleftrightarrow> True"

definition chain :: "split_queue \<Rightarrow> u16 list \<Rightarrow> bool" where
  "chain q c \<longleftrightarrow> c \<noteq> [] \<and> linked q c \<and> \<not> has_next (d_at q (last c))"

definition vq_inv :: "split_queue \<Rightarrow> u16 list \<Rightarrow> u16 list list \<Rightarrow> bool" where
  "vq_inv q fs C \<longleftrightarrow>
     is_power_of_two (size_q q) \<and> length (desc q) = unat (size_q q) \<and> length (in_flight q) = unat (size_q q) \<and>
     length (avail_ring q) = unat (size_q q) \<and> length (used_ring q) = unat (size_q q) \<and>
     free_list q (free_head q) fs \<and> unat (free q) = length fs \<and>
     distinct (fs @ concat C) \<and> set (fs @ concat C) = {i. unat i < unat (size_q q)} \<and>
     (\<forall>c \<in> set C. chain q c) \<and>
     (\<forall>i. unat i < unat (size_q q) \<longrightarrow> in_flight q ! unat i \<longrightarrow> i \<in> hd ` set C)"

lemma free_list_cong:
  "(\<And>i. i \<in> set fs \<Longrightarrow> d_at q' i = d_at q i) \<Longrightarrow> free_list q' h fs = free_list q h fs"
  by (induction fs arbitrary: h) auto

lemma linked_cong:
  "(\<And>i. i \<in> set (butlast c) \<Longrightarrow> d_at q' i = d_at q i) \<Longrightarrow> linked q' c = linked q c"
  by (induction c rule: linked.induct [where P = "\<lambda>_. _"]) auto

lemma chain_cong: "(\<And>i. i \<in> set c \<Longrightarrow> d_at q' i = d_at q i) \<Longrightarrow> chain q' c = chain q c"
  using linked_cong [of c q' q] by (cases c rule: rev_cases) (auto simp: chain_def)

lemma power_size: "is_power_of_two w \<Longrightarrow> 0 < unat w \<and> unat w \<le> 2 ^ 15 \<and> unat w dvd 2 ^ 16"
proof -
  assume "is_power_of_two w"
  then obtain k where k: "k < 16" "unat w = 2 ^ k"
    by (auto simp: is_power_of_two_def)
  moreover have "(2 :: nat) ^ k \<le> 2 ^ 15"
    using k(1) by (intro power_increasing) auto
  moreover have "(2 :: nat) ^ k dvd 2 ^ 16"
    using k(1) by (intro le_imp_power_dvd) simp
  ultimately show ?thesis by simp
qed

lemma card_indices: "n \<le> 2 ^ 16 \<Longrightarrow> card {i :: u16. unat i < n} = n"
proof -
  assume n: "n \<le> 2 ^ 16"
  have "unat ` {i :: u16. unat i < n} = {..<n}"
  proof
    show "{..<n} \<subseteq> unat ` {i :: u16. unat i < n}"
    proof
      fix m assume "m \<in> {..<n}"
      then have "unat (word_of_nat m :: u16) = m"
        using n by (simp add: unat_of_nat)
      then show "m \<in> unat ` {i :: u16. unat i < n}"
        using \<open>m \<in> {..<n}\<close> by (intro image_eqI [of _ _ "word_of_nat m"]) auto
    qed
  qed auto
  moreover have "inj_on unat {i :: u16. unat i < n}"
    by (intro inj_onI) (simp add: word_unat_eq_iff)
  ultimately show ?thesis
    by (metis card_image card_lessThan)
qed

lemma has_next_bit: "has_next d \<longleftrightarrow> bit (flags d) 0"
  by (simp add: has_next_def DESC_F_NEXT_def and_one_eq bit_0 odd_iff_mod_2_eq_one mod2_eq_if)

lemma has_next_simps [simp]:
  "has_next (d\<lparr>addr := a\<rparr>) = has_next d" "has_next (d\<lparr>dlen := l\<rparr>) = has_next d" "has_next (d\<lparr>dnext := n\<rparr>) = has_next d"
  "has_next (d\<lparr>flags := f OR DESC_F_NEXT\<rparr>)" "\<not> has_next (d\<lparr>flags := f AND NOT DESC_F_NEXT\<rparr>)" "\<not> has_next descriptor_default"
  "has_next (d\<lparr>flags := (flags d' AND DESC_F_NEXT) OR (if b then DESC_F_WRITE else 0)\<rparr>) = has_next d'"
  by (auto simp: has_next_bit DESC_F_NEXT_def DESC_F_WRITE_def bit_simps descriptor_default_def)

lemma get_desc_Some: "get_desc q i = Some d \<longleftrightarrow> unat i < length (desc q) \<and> d = d_at q i"
  by (simp add: get_desc_def index_Some)

lemma set_desc_Some:
  "set_desc q i f = Some q' \<longleftrightarrow> unat i < length (desc q) \<and> q' = q\<lparr>desc := (desc q)[unat i := f (d_at q i)]\<rparr>"
  by (auto simp: set_desc_def get_desc_Some bind_eq_Some_conv)

lemma d_at_update:
  "unat i < length (desc q) \<Longrightarrow> (desc q)[unat i := d] ! unat j = (if j = i then d else d_at q j)"
  by (auto simp: nth_list_update word_unat_eq_iff)

text \<open>What the allocator never touches.\<close>

definition same_rings :: "split_queue \<Rightarrow> split_queue \<Rightarrow> bool" where
  "same_rings q q' \<longleftrightarrow> size_q q' = size_q q \<and> in_flight q' = in_flight q \<and> avail_idx q' = avail_idx q \<and>
     avail_ring q' = avail_ring q \<and> used_ring q' = used_ring q"

text \<open>The allocation loop takes the first descriptors of the free list and links them.\<close>

lemma alloc_loop_ok:
  assumes "free_list q (free_head q) (xs @ rest)" "distinct (xs @ rest)"
    and "\<forall>i \<in> set (xs @ rest). unat i < length (desc q)" "NIL \<notin> set xs"
    and "prev \<noteq> NIL \<longrightarrow> unat prev < length (desc q) \<and> prev \<notin> set (xs @ rest)"
    and "length xs \<le> unat (free q)"
  shows "\<exists>q'. alloc_loop (length xs) q prev = Some (last (prev # xs), q') \<and>
    free_list q' (free_head q') rest \<and> unat (free q') = unat (free q) - length xs \<and> length (desc q') = length (desc q) \<and>
    linked q' (if prev = NIL then xs else prev # xs) \<and>
    (\<forall>i. i \<notin> set (butlast (prev # xs)) \<or> i = NIL \<longrightarrow> d_at q' i = d_at q i) \<and>
    same_rings q q'"
  using assms
proof (induction xs arbitrary: q prev)
  case Nil
  then show ?case
    by (auto intro: exI [of _ q] simp: same_rings_def)
next
  case (Cons x xs)
  define q1 where "q1 = q\<lparr>free_head := dnext (d_at q x), free := free q - 1\<rparr>"
  define q2 where "q2 = (if prev \<noteq> NIL then q1\<lparr>desc := (desc q)[unat prev := (d_at q prev)\<lparr>flags := flags (d_at q prev) OR DESC_F_NEXT, dnext := x\<rparr>]\<rparr> else q1)"
  have x: "free_head q = x" "x \<noteq> NIL" "unat x < length (desc q)" "x \<noteq> prev"
    using Cons.prems by auto
  have d2: "d_at q2 i = (if i = prev \<and> prev \<noteq> NIL then (d_at q prev)\<lparr>flags := flags (d_at q prev) OR DESC_F_NEXT, dnext := x\<rparr> else d_at q i)" for i
    using Cons.prems(5) by (auto simp: q2_def q1_def d_at_update)
  have step: "alloc_loop (length (x # xs)) q prev = alloc_loop (length xs) q2 x"
    using x Cons.prems(5) by (auto simp: q1_def q2_def get_desc_def set_desc_def index_def Let_def)
  have free: "unat (free q2) = unat (free q) - 1"
    using Cons.prems(6) by (simp add: q2_def q1_def unat_sub word_le_nat_alt)
  have "\<exists>q'. alloc_loop (length xs) q2 x = Some (last (x # xs), q') \<and>
    free_list q' (free_head q') rest \<and> unat (free q') = unat (free q2) - length xs \<and> length (desc q') = length (desc q2) \<and>
    linked q' (if x = NIL then xs else x # xs) \<and>
    (\<forall>i. i \<notin> set (butlast (x # xs)) \<or> i = NIL \<longrightarrow> d_at q' i = d_at q2 i) \<and>
    same_rings q2 q'"
  proof (rule Cons.IH)
    have "free_list q2 h (xs @ rest) = free_list q h (xs @ rest)" for h
      using Cons.prems(5) by (intro free_list_cong) (auto simp: d2)
    then show "free_list q2 (free_head q2) (xs @ rest)"
      using Cons.prems(1) x by (auto simp: q2_def q1_def)
  qed (use Cons.prems x free in \<open>auto simp: q2_def q1_def\<close>)
  then obtain q' where q': "alloc_loop (length xs) q2 x = Some (last (x # xs), q')"
    "free_list q' (free_head q') rest" "unat (free q') = unat (free q2) - length xs" "length (desc q') = length (desc q2)"
    "linked q' (x # xs)" "\<forall>i. i \<notin> set (butlast (x # xs)) \<or> i = NIL \<longrightarrow> d_at q' i = d_at q2 i"
    "same_rings q2 q'"
    using x(2) by auto
  have notin: "i \<notin> set (butlast (x # xs))" if "i \<notin> set (x # xs)" for i
    using that in_set_butlastD by metis
  show ?case
  proof (intro exI conjI)
    show "alloc_loop (length (x # xs)) q prev = Some (last (prev # x # xs), q')"
      using step q'(1) by simp
    show "linked q' (if prev = NIL then x # xs else prev # x # xs)"
      using q'(5,6) notin [of prev] d2 [of prev] Cons.prems(5) by auto
    show "\<forall>i. i \<notin> set (butlast (prev # x # xs)) \<or> i = NIL \<longrightarrow> d_at q' i = d_at q i"
      using q'(6) d2 Cons.prems(4) notin by auto
  qed (use q' free in \<open>auto simp: q2_def q1_def same_rings_def\<close>)
qed


lemma free_loop_ok:
  assumes "chain q c" "free_list q (free_head q) fs" "distinct (c @ fs)" "\<forall>i \<in> set (c @ fs). unat i < length (desc q)"
    and "length c \<le> n" "unat (free q) + length c < 2 ^ 16"
  shows "\<exists>q'. free_loop n q (hd c) = Some q' \<and> free_list q' (free_head q') (rev c @ fs) \<and>
    unat (free q') = unat (free q) + length c \<and> length (desc q') = length (desc q) \<and>
    (\<forall>i. i \<notin> set c \<longrightarrow> d_at q' i = d_at q i) \<and> same_rings q q'"
  using assms
proof (induction c arbitrary: q fs n)
  case Nil
  then show ?case by (simp add: chain_def)
next
  case (Cons x xs)
  obtain m where m: "n = Suc m"
    using Cons.prems(5) by (cases n) auto
  define q1 where "q1 = q\<lparr>desc := (desc q)[unat x := descriptor_default\<lparr>dnext := free_head q\<rparr>], free_head := x, free := free q + 1\<rparr>"
  have d1: "d_at q1 i = (if i = x then descriptor_default\<lparr>dnext := free_head q\<rparr> else d_at q i)" for i
    using Cons.prems(4) by (simp add: q1_def d_at_update)
  have free: "unat (free q1) = unat (free q) + 1"
    using Cons.prems(6) by (simp add: q1_def unat_word_ariths)
  have "free_list q1 (free_head q) fs = free_list q (free_head q) fs"
    using Cons.prems(3) d1 by (intro free_list_cong) auto
  then have fl: "free_list q1 (free_head q1) (x # fs)"
    using Cons.prems(2) d1 by (simp add: q1_def)
  have step: "free_loop n q (hd (x # xs)) = (if has_next (d_at q x) then free_loop m q1 (dnext (d_at q x)) else Some q1)"
    using Cons.prems(4) by (simp add: m q1_def get_desc_def set_desc_def index_def Let_def)
  show ?case
  proof (cases xs)
    case Nil
    then have "\<not> has_next (d_at q x)"
      using Cons.prems(1) by (simp add: chain_def)
    then show ?thesis
      using step fl free d1 Nil by (auto simp: q1_def same_rings_def)
  next
    case (Cons y ys)
    have hn: "has_next (d_at q x)" "dnext (d_at q x) = hd xs"
      using Cons.prems(1) Cons by (auto simp: chain_def)
    have "\<exists>q'. free_loop m q1 (hd xs) = Some q' \<and> free_list q' (free_head q') (rev xs @ x # fs) \<and>
      unat (free q') = unat (free q1) + length xs \<and> length (desc q') = length (desc q1) \<and>
      (\<forall>i. i \<notin> set xs \<longrightarrow> d_at q' i = d_at q1 i) \<and> same_rings q1 q'"
    proof (rule Cons.IH [OF _ fl])
      have "chain q1 xs = chain q xs"
        using Cons.prems(3) d1 by (intro chain_cong) auto
      then show "chain q1 xs"
        using Cons.prems(1) Cons by (auto simp: chain_def)
    qed (use Cons.prems free m in \<open>auto simp: q1_def\<close>)
    then show ?thesis
      using step hn d1 free by (auto simp: q1_def same_rings_def)
  qed
qed

section \<open>Every operation keeps the invariant\<close>

lemma vq_inv_lt: "vq_inv q fs C \<Longrightarrow> i \<in> set fs \<or> (\<exists>c \<in> set C. i \<in> set c) \<Longrightarrow> unat i < unat (size_q q)"
  unfolding vq_inv_def by auto

lemma vq_inv_total: "vq_inv q fs C \<Longrightarrow> length fs + length (concat C) = unat (size_q q)"
proof -
  assume inv: "vq_inv q fs C"
  then have "length (fs @ concat C) = card (set (fs @ concat C))"
    unfolding vq_inv_def by (metis distinct_card)
  also have "\<dots> = unat (size_q q)"
    using inv power_size [of "size_q q"] card_indices [of "unat (size_q q)"] by (simp add: vq_inv_def)
  finally show ?thesis by simp
qed

lemma NIL_val: "unat NIL = 65535"
  by (simp add: NIL_def unsigned_minus_1_eq_mask mask_eq_exp_minus_1)

lemma vq_inv_NIL: "vq_inv q fs C \<Longrightarrow> NIL \<notin> set fs \<and> (\<forall>c \<in> set C. NIL \<notin> set c)"
proof -
  assume inv: "vq_inv q fs C"
  have "unat (size_q q) \<le> 2 ^ 15"
    using inv power_size by (simp add: vq_inv_def)
  then have "\<not> unat NIL < unat (size_q q)"
    by (simp add: NIL_val)
  then show ?thesis
    using vq_inv_lt [OF inv, of NIL] by blast
qed

lemma free_lt: "vq_inv q fs C \<Longrightarrow> free q < n \<longleftrightarrow> length fs < unat n"
  by (simp add: vq_inv_def word_less_nat_alt)

lemma alloc_chain_none:
  "vq_inv q fs C \<Longrightarrow> unat n = 0 \<or> length fs < unat n \<Longrightarrow> alloc_chain q n = Some (None, q)"
  by (auto simp: alloc_chain_def free_lt unat_eq_zero)

lemma alloc_chain_some:
  assumes inv: "vq_inv q fs C" and n: "0 < unat n" "unat n \<le> length fs"
  shows "\<exists>q'. alloc_chain q n = Some (Some (hd fs), q') \<and> vq_inv q' (drop (unat n) fs) (take (unat n) fs # C) \<and> same_rings q q'"
proof -
  define xs where "xs = take (unat n) fs"
  define rest where "rest = drop (unat n) fs"
  have fs: "fs = xs @ rest" "length xs = unat n" "xs \<noteq> []" "hd fs = hd xs"
    using n by (auto simp: xs_def rest_def hd_take)
  have len: "length (desc q) = unat (size_q q)"
    using inv by (simp add: vq_inv_def)
  have fl: "free_list q (free_head q) (xs @ rest)" and ds: "distinct (xs @ rest)" and fr: "unat (free q) = length fs"
    using inv fs(1) by (auto simp: vq_inv_def)
  have lt: "\<forall>i \<in> set (xs @ rest). unat i < length (desc q)"
    using vq_inv_lt [OF inv] fs(1) len by auto
  have nn: "NIL \<notin> set xs"
    using vq_inv_NIL [OF inv] fs(1) by auto
  have "\<exists>q1. alloc_loop (length xs) q NIL = Some (last xs, q1) \<and> free_list q1 (free_head q1) rest \<and>
    unat (free q1) = unat (free q) - length xs \<and> length (desc q1) = length (desc q) \<and> linked q1 xs \<and>
    (\<forall>i. i \<notin> set (butlast xs) \<longrightarrow> d_at q1 i = d_at q i) \<and> same_rings q q1"
  proof -
    have p: "NIL \<noteq> NIL \<longrightarrow> unat NIL < length (desc q) \<and> NIL \<notin> set (xs @ rest)" "length xs \<le> unat (free q)"
      using fr fs by auto
    show ?thesis
      using alloc_loop_ok [OF fl ds lt nn p] fs(3) by (elim exE) (intro exI, auto)
  qed
  then obtain q1 where q1: "alloc_loop (length xs) q NIL = Some (last xs, q1)" "free_list q1 (free_head q1) rest"
    "unat (free q1) = unat (free q) - length xs" "length (desc q1) = length (desc q)" "linked q1 xs"
    "\<forall>i. i \<notin> set (butlast xs) \<longrightarrow> d_at q1 i = d_at q i" "same_rings q q1"
    by blast
  define q2 where "q2 = q1\<lparr>desc := (desc q1)[unat (last xs) := (d_at q1 (last xs))\<lparr>flags := flags (d_at q1 (last xs)) AND NOT DESC_F_NEXT, dnext := 0\<rparr>]\<rparr>"
  have last: "unat (last xs) < length (desc q1)"
    using lt fs(3) q1(4) by auto
  have d2: "d_at q2 i = (if i = last xs then (d_at q1 (last xs))\<lparr>flags := flags (d_at q1 (last xs)) AND NOT DESC_F_NEXT, dnext := 0\<rparr> else d_at q1 i)" for i
    using last by (simp add: q2_def d_at_update)
  have frame: "d_at q2 i = d_at q i" if "i \<notin> set xs" for i
    using that q1(6) fs(3) in_set_butlastD by (metis d2 last_in_set)
  have "free_head q = hd fs"
    using fl fs by (cases xs) auto
  then have "alloc_chain q n = Some (Some (hd fs), q2)"
    using n fr q1(1) fs(2) last
    by (auto simp: alloc_chain_def set_desc_def get_desc_def index_def q2_def word_less_nat_alt unat_eq_zero)
  moreover have "chain q2 xs"
  proof -
    have "last xs \<notin> set (butlast xs)"
      using ds fs(3) by (metis append_butlast_last_id distinct_append distinct.simps(2) disjoint_insert(1) list.set(2) not_distinct_conv_prefix)
    then have "linked q2 xs"
      using q1(5) d2 by (subst linked_cong [of xs q2 q1]) auto
    then show ?thesis
      using fs(3) d2 by (simp add: chain_def)
  qed
  moreover have "free_list q2 (free_head q2) rest"
  proof -
    have "free_list q2 (free_head q1) rest = free_list q1 (free_head q1) rest"
      using ds d2 last_in_set [OF fs(3)] by (intro free_list_cong) auto
    then show ?thesis using q1(2) by (simp add: q2_def)
  qed
  moreover have "\<forall>c \<in> set C. chain q2 c"
  proof
    fix c assume c: "c \<in> set C"
    have "chain q2 c = chain q c"
      using c inv fs(1) by (intro chain_cong frame) (auto simp: vq_inv_def)
    then show "chain q2 c" using inv c by (simp add: vq_inv_def)
  qed
  ultimately have "vq_inv q2 rest (xs # C)"
    using inv q1(3,4,7) fs fr
    by (simp add: vq_inv_def q2_def same_rings_def) blast
  then show ?thesis
    using \<open>alloc_chain q n = Some (Some (hd fs), q2)\<close> q1(7) by (auto simp: xs_def rest_def q2_def same_rings_def)
qed


lemma mset_concat_remove1: "c \<in> set C \<Longrightarrow> mset (concat C) = mset c + mset (concat (remove1 c C))"
  by (induction C) auto

lemma set_in_flight_ok: "unat i < length (in_flight q) \<Longrightarrow> set_in_flight q i b = Some (q\<lparr>in_flight := (in_flight q)[unat i := b]\<rparr>)"
  by (simp add: set_in_flight_def index_def)

lemma free_chain_ok:
  assumes inv: "vq_inv q fs C" and c: "c \<in> set C"
  shows "\<exists>q'. free_chain q (hd c) = Some q' \<and> vq_inv q' (rev c @ fs) (remove1 c C) \<and>
    in_flight q' = (in_flight q)[unat (hd c) := False] \<and> size_q q' = size_q q"
proof -
  have len: "length (desc q) = unat (size_q q)" "length (in_flight q) = unat (size_q q)"
    using inv by (auto simp: vq_inv_def)
  have ch: "chain q c"
    using inv c by (simp add: vq_inv_def)
  then have ne: "c \<noteq> []"
    by (simp add: chain_def)
  have fl: "free_list q (free_head q) fs" and fr: "unat (free q) = length fs"
    using inv by (auto simp: vq_inv_def)
  have ms: "mset (fs @ concat C) = mset (rev c @ fs @ concat (remove1 c C))"
    using mset_concat_remove1 [OF c] by simp
  have ds: "distinct (rev c @ fs @ concat (remove1 c C))"
    using inv mset_eq_imp_distinct_iff [OF ms] by (simp add: vq_inv_def)
  have st: "set (rev c @ fs @ concat (remove1 c C)) = set (fs @ concat C)"
    using mset_eq_setD [OF ms] by simp
  have lt: "\<forall>i \<in> set (c @ fs). unat i < length (desc q)"
    using vq_inv_lt [OF inv] c len by auto
  have "length fs + length c \<le> unat (size_q q)"
    using vq_inv_total [OF inv] arg_cong [OF mset_concat_remove1 [OF c], of size] by simp
  then have le: "length c \<le> unat (size_q q)" "unat (free q) + length c < 2 ^ 16"
    using fr unat_bound [of "size_q q"] by auto
  have dcf: "distinct (c @ fs)"
    using ds by auto
  obtain q1 where q1: "free_loop (unat (size_q q)) q (hd c) = Some q1" "free_list q1 (free_head q1) (rev c @ fs)"
    "unat (free q1) = unat (free q) + length c" "length (desc q1) = length (desc q)"
    "\<forall>i. i \<notin> set c \<longrightarrow> d_at q1 i = d_at q i" "same_rings q q1"
    using free_loop_ok [OF ch fl dcf lt le] by blast
  define q2 where "q2 = q1\<lparr>in_flight := (in_flight q)[unat (hd c) := False]\<rparr>"
  have hd: "unat (hd c) < unat (size_q q)"
    using lt ne len by auto
  have run: "free_chain q (hd c) = Some q2"
    using q1(1,6) hd len by (simp add: free_chain_def set_in_flight_ok same_rings_def q2_def)
  have chains: "\<forall>d \<in> set (remove1 c C). chain q2 d"
  proof
    fix d assume d: "d \<in> set (remove1 c C)"
    have "chain q2 d = chain q d"
      using d ds q1(5) by (intro chain_cong) (auto simp: q2_def)
    then show "chain q2 d" using inv d set_remove1_subset by (auto simp: vq_inv_def)
  qed
  have "free_list q2 (free_head q2) (rev c @ fs) = free_list q1 (free_head q1) (rev c @ fs)"
    by (simp add: q2_def, rule free_list_cong) simp
  moreover have "i \<in> hd ` set (remove1 c C)" if i: "unat i < unat (size_q q)" "in_flight q2 ! unat i" for i
  proof -
    have "i \<noteq> hd c" "in_flight q ! unat i"
      using i hd len by (auto simp: q2_def nth_list_update word_unat_eq_iff split: if_splits)
    moreover obtain d where "d \<in> set C" "i = hd d"
      using inv i(1) \<open>in_flight q ! unat i\<close> by (auto simp: vq_inv_def)
    ultimately show ?thesis
      using in_set_remove1 [of d c C] by (metis image_eqI)
  qed
  ultimately have "vq_inv q2 (rev c @ fs) (remove1 c C)"
    using inv q1 chains ds st fr len unfolding vq_inv_def
    by (simp add: q2_def same_rings_def Un_assoc)
  then show ?thesis
    using run q1(6) by (auto simp: q2_def same_rings_def)
qed

lemma free_list_new:
  assumes "n \<le> 2 ^ 15" "k \<le> n"
    and "desc q = map (\<lambda>i. descriptor_default\<lparr>dnext := (if i + 1 < n then word_of_nat i + 1 else NIL)\<rparr>) [0..<n]"
  shows "free_list q (if k < n then word_of_nat k else NIL) (map word_of_nat [k..<n])"
  using assms(2)
proof (induction "n - k" arbitrary: k)
  case 0
  then show ?case by simp
next
  case (Suc m)
  then have k: "k < n" by simp
  then have "unat (word_of_nat k :: u16) = k"
    using assms(1) by (simp add: unat_of_nat)
  then have "d_at q (word_of_nat k) = descriptor_default\<lparr>dnext := (if Suc k < n then word_of_nat (Suc k) else NIL)\<rparr>"
    using k assms(3) by (simp add: add.commute)
  then show ?case
    using Suc.hyps(1) [of "Suc k"] Suc.hyps(2) k by (simp add: upt_conv_Cons)
qed

lemma indices_as_list: "n \<le> 2 ^ 15 \<Longrightarrow> distinct (map word_of_nat [0..<n] :: u16 list) \<and> set (map word_of_nat [0..<n] :: u16 list) = {i. unat i < n}"
proof -
  assume n: "n \<le> 2 ^ 15"
  have inv: "unat (word_of_nat i :: u16) = i" if "i < n" for i
    using that n by (simp add: unat_of_nat)
  have "inj_on (word_of_nat :: nat \<Rightarrow> u16) {0..<n}"
    by (rule inj_on_inverseI [of _ unat]) (simp add: inv)
  moreover have "i \<in> word_of_nat ` {0..<n}" if "unat i < n" for i :: u16
    using that by (intro image_eqI [of _ _ "unat i"]) auto
  ultimately show ?thesis
    using inv by (auto simp: distinct_map)
qed

lemma queue_new_ok:
  assumes "queue_new sz = Some q"
  shows "vq_inv q (map word_of_nat [0..<unat sz]) [] \<and> size_q q = sz \<and> avail_idx q = 0 \<and> (\<forall>i < unat sz. \<not> in_flight q ! i)"
proof -
  have p: "is_power_of_two sz" and sz: "0 < unat sz"
    using assms by (auto simp: queue_new_def check_bind word_gt_0_no split: if_splits) (simp add: unat_gt_0)
  have le: "unat sz \<le> 2 ^ 15"
    using power_size [OF p] by simp
  have q: "q = \<lparr>size_q = sz,
       desc = map (\<lambda>i. descriptor_default\<lparr>dnext := (if i + 1 < unat sz then word_of_nat i + 1 else NIL)\<rparr>) [0..<unat sz],
       free_head = 0, free = sz, in_flight = replicate (unat sz) False, avail_idx = 0,
       avail_ring = replicate (unat sz) 0, used_ring = replicate (unat sz) used_default\<rparr>"
    using assms by (simp add: queue_new_def check_bind Let_def split: if_splits)
  have "free_list q 0 (map word_of_nat [0..<unat sz])"
    using free_list_new [of "unat sz" 0 q] le sz q by simp
  then show ?thesis
    using p indices_as_list [OF le] by (simp add: vq_inv_def q)
qed


text \<open>The remaining operations leave every link as it is.\<close>

definition same_links :: "split_queue \<Rightarrow> split_queue \<Rightarrow> bool" where
  "same_links q q' \<longleftrightarrow> size_q q' = size_q q \<and> free_head q' = free_head q \<and> free q' = free q \<and>
     length (desc q') = length (desc q) \<and> length (in_flight q') = length (in_flight q) \<and>
     length (avail_ring q') = length (avail_ring q) \<and> length (used_ring q') = length (used_ring q) \<and>
     (\<forall>i. unat i < length (desc q) \<longrightarrow> has_next (d_at q' i) = has_next (d_at q i) \<and> dnext (d_at q' i) = dnext (d_at q i))"

lemma free_list_links:
  "\<forall>i \<in> set fs. has_next (d_at q' i) = has_next (d_at q i) \<and> dnext (d_at q' i) = dnext (d_at q i) \<Longrightarrow>
   free_list q' h fs = free_list q h fs"
  by (induction fs arbitrary: h) auto

lemma linked_links:
  "\<forall>i \<in> set c. has_next (d_at q' i) = has_next (d_at q i) \<and> dnext (d_at q' i) = dnext (d_at q i) \<Longrightarrow>
   linked q' c = linked q c"
  by (induction c rule: linked.induct [where P = "\<lambda>_. _"]) auto

lemma vq_inv_same_links:
  assumes inv: "vq_inv q fs C" and links: "same_links q q'"
    and fl: "\<And>i. unat i < unat (size_q q) \<Longrightarrow> in_flight q' ! unat i \<Longrightarrow> in_flight q ! unat i \<or> i \<in> hd ` set C"
  shows "vq_inv q' fs C"
proof -
  have same: "has_next (d_at q' i) = has_next (d_at q i) \<and> dnext (d_at q' i) = dnext (d_at q i)"
    if "i \<in> set fs \<or> (\<exists>c \<in> set C. i \<in> set c)" for i
    using vq_inv_lt [OF inv that] inv links by (simp add: same_links_def vq_inv_def)
  have "free_list q' (free_head q) fs = free_list q (free_head q) fs"
    using same by (intro free_list_links) auto
  moreover have "chain q' c" if c: "c \<in> set C" for c
  proof -
    have "chain q c"
      using inv c by (simp add: vq_inv_def)
    moreover have "linked q' c = linked q c"
      using same c by (intro linked_links) auto
    moreover have "c \<noteq> [] \<Longrightarrow> has_next (d_at q' (last c)) = has_next (d_at q (last c))"
      using same [of "last c"] c last_in_set by blast
    ultimately show ?thesis by (auto simp: chain_def)
  qed
  moreover have "i \<in> hd ` set C" if "unat i < unat (size_q q)" "in_flight q' ! unat i" for i
    using fl [OF that] inv that(1) by (auto simp: vq_inv_def)
  ultimately show ?thesis
    using inv links by (simp add: vq_inv_def same_links_def)
qed

lemma in_chain_lt: "vq_inv q fs C \<Longrightarrow> c \<in> set C \<Longrightarrow> unat (hd c) < unat (size_q q)"
  using vq_inv_lt [of q fs C "hd c"] by (force simp: vq_inv_def chain_def)

lemma describe_ok:
  assumes inv: "vq_inv q fs C" and i: "unat i < unat (size_q q)"
  shows "\<exists>q'. describe q i a l w = Some q' \<and> vq_inv q' fs C \<and> same_rings q q' \<and>
    d_at q' i = (d_at q i)\<lparr>addr := a, dlen := l, flags := (flags (d_at q i) AND DESC_F_NEXT) OR (if w then DESC_F_WRITE else 0)\<rparr> \<and>
    (\<forall>j. j \<noteq> i \<longrightarrow> d_at q' j = d_at q j)"
proof -
  have len: "length (desc q) = unat (size_q q)"
    using inv by (simp add: vq_inv_def)
  define d where "d = (d_at q i)\<lparr>addr := a, dlen := l, flags := (flags (d_at q i) AND DESC_F_NEXT) OR (if w then DESC_F_WRITE else 0)\<rparr>"
  have hn: "has_next d = has_next (d_at q i)" "dnext d = dnext (d_at q i)"
    by (simp_all add: d_def has_next_def bit_eq_iff bit_simps DESC_F_NEXT_def DESC_F_WRITE_def) (auto simp: bit_simps)
  let ?q = "q\<lparr>desc := (desc q)[unat i := d]\<rparr>"
  have run: "describe q i a l w = Some ?q"
    using i len by (simp add: describe_def set_desc_def get_desc_def index_def d_def)
  have links: "same_links q ?q"
    using hn i len by (auto simp: same_links_def d_at_update)
  have "vq_inv ?q fs C"
    by (rule vq_inv_same_links [OF inv links]) simp
  then show ?thesis
    using run i len by (auto simp: same_rings_def d_at_update d_def)
qed

lemma publish_run:
  assumes "length (in_flight q) = unat (size_q q)" "length (avail_ring q) = unat (size_q q)" "unat h < unat (size_q q)"
  shows "publish q h = Some (avail_idx q + 1, q\<lparr>in_flight := (in_flight q)[unat h := True],
    avail_ring := (avail_ring q)[unat (avail_idx q) mod unat (size_q q) := h], avail_idx := avail_idx q + 1\<rparr>)"
  using assms by (auto simp: publish_def set_in_flight_ok index_def unat_mod_distrib Let_def check_bind unat_gt_0)

lemma publish_ok:
  assumes inv: "vq_inv q fs C" and c: "c \<in> set C"
  shows "\<exists>q'. publish q (hd c) = Some (avail_idx q + 1, q') \<and> vq_inv q' fs C \<and> in_flight q' = (in_flight q)[unat (hd c) := True]"
proof -
  have len: "length (in_flight q) = unat (size_q q)" "length (avail_ring q) = unat (size_q q)"
    using inv by (auto simp: vq_inv_def)
  have hd: "unat (hd c) < unat (size_q q)"
    by (rule in_chain_lt [OF inv c])
  let ?q = "q\<lparr>in_flight := (in_flight q)[unat (hd c) := True],
    avail_ring := (avail_ring q)[unat (avail_idx q) mod unat (size_q q) := hd c], avail_idx := avail_idx q + 1\<rparr>"
  have "vq_inv ?q fs C"
    by (rule vq_inv_same_links [OF inv])
      (use hd len c in \<open>auto simp: same_links_def nth_list_update word_unat_eq_iff [symmetric] split: if_splits\<close>)
  then show ?thesis using publish_run [OF len hd] by simp
qed

lemma take_used_ok:
  assumes inv: "vq_inv q fs C"
  shows "\<exists>r q'. take_used q slot = Some (r, q') \<and> vq_inv q' fs C \<and>
    (case r of None \<Rightarrow> q' = q
     | Some (h, l) \<Rightarrow> used_ring q ! (unat slot mod unat (size_q q)) = \<lparr>used_id = ucast h, used_len = l\<rparr> \<and>
         unat h < unat (size_q q) \<and> in_flight q ! unat h \<and> q' = q\<lparr>in_flight := (in_flight q)[unat h := False]\<rparr>)"
proof -
  have len: "length (in_flight q) = unat (size_q q)" "length (used_ring q) = unat (size_q q)" and pos: "0 < unat (size_q q)"
    using inv power_size by (auto simp: vq_inv_def)
  define e where "e = used_ring q ! (unat slot mod unat (size_q q))"
  define h :: u16 where "h = ucast (used_id e)"
  have e: "index (used_ring q) (unat (slot mod size_q q)) = Some e" "size_q q \<noteq> 0"
    using len pos by (auto simp: index_def e_def unat_mod_distrib)
  show ?thesis
  proof (cases "unat (used_id e) < unat (size_q q)")
    case False
    then show ?thesis using e inv by (simp add: take_used_def)
  next
    case True
    then have h: "unat h = unat (used_id e)"
      using unat_bound [of "size_q q"] by (simp add: h_def unsigned_ucast_eq take_bit_eq_mod)
    then have hl: "unat h < unat (size_q q)" "used_id e = ucast h"
      using True h unat_bound [of h] by (auto simp: word_unat_eq_iff unsigned_ucast_eq take_bit_eq_mod)
    show ?thesis
    proof (cases "in_flight q ! unat h")
      case False
      then show ?thesis
        using e inv True hl(1) len by (simp add: take_used_def index_def h_def [symmetric])
    next
      case live: True
      let ?q = "q\<lparr>in_flight := (in_flight q)[unat h := False]\<rparr>"
      have "take_used q slot = Some (Some (h, used_len e), ?q)"
        using e live True hl(1) len by (simp add: take_used_def index_def h_def [symmetric] set_in_flight_ok)
      moreover have "vq_inv ?q fs C"
        by (rule vq_inv_same_links [OF inv])
          (use hl len in \<open>auto simp: same_links_def nth_list_update split: if_splits\<close>)
      moreover have "e = \<lparr>used_id = ucast h, used_len = used_len e\<rparr>"
        using hl(2) by simp
      ultimately show ?thesis
        using live hl(1) unfolding e_def [symmetric]
        by (intro exI [of _ "Some (h, used_len e)"] exI [of _ ?q]) simp
    qed
  qed
qed

lemma vq_inv_used:
  "vq_inv q fs C \<Longrightarrow> length u = length (used_ring q) \<Longrightarrow> vq_inv (q\<lparr>used_ring := u\<rparr>) fs C"
  by (rule vq_inv_same_links) (auto simp: same_links_def)


lemma ingest_loop_ok:
  assumes "length bs \<ge> RING_HEADER + 8 * n" "length (used_ring q) = n" "\<forall>i \<in> set slots. i < n" "distinct slots"
  shows "\<exists>u. ingest_loop slots bs q = Some (q\<lparr>used_ring := u\<rparr>) \<and> length u = n \<and>
    (\<forall>i < n. u ! i = (if i \<in> set slots then used_of_bytes (take 8 (drop (RING_HEADER + i * 8) bs)) else used_ring q ! i))"
  using assms(2-4)
proof (induction slots arbitrary: q)
  case Nil
  then show ?case by (auto intro!: exI [of _ "used_ring q"])
next
  case (Cons i slots)
  let ?v = "used_of_bytes (take 8 (drop (RING_HEADER + i * 8) bs))"
  let ?q = "q\<lparr>used_ring := (used_ring q)[i := ?v]\<rparr>"
  have i: "i < n" "RING_HEADER + i * 8 + 8 \<le> length bs"
    using Cons.prems assms(1) by auto
  then have step: "ingest_loop (i # slots) bs q = ingest_loop slots bs ?q"
    using Cons.prems(1) by (simp add: slice_of_def index_def Let_def)
  obtain u where u: "ingest_loop slots bs ?q = Some (?q\<lparr>used_ring := u\<rparr>)" "length u = n"
    "\<forall>j < n. u ! j = (if j \<in> set slots then used_of_bytes (take 8 (drop (RING_HEADER + j * 8) bs)) else used_ring ?q ! j)"
    using Cons.IH [of ?q] Cons.prems by auto
  show ?case
    using step u Cons.prems i by (auto intro!: exI [of _ u] simp: nth_list_update)
qed

lemma ingest_used_ok:
  assumes "length (used_ring q) = unat (size_q q)"
  shows "\<exists>r u. ingest_used q bs idx = Some (r, q\<lparr>used_ring := u\<rparr>) \<and> length u = unat (size_q q) \<and>
    (case r of None \<Rightarrow> length bs < RING_HEADER + 8 * unat (size_q q) \<and> u = used_ring q
     | Some k \<Rightarrow> k = idx \<and> length bs \<ge> RING_HEADER + 8 * unat (size_q q) \<and>
         (\<forall>i < unat (size_q q). u ! i = used_of_bytes (take 8 (drop (RING_HEADER + i * 8) bs))))"
proof (cases "length bs < RING_HEADER + 8 * unat (size_q q)")
  case True
  then show ?thesis
    using assms by (intro exI [of _ None] exI [of _ "used_ring q"]) (simp add: ingest_used_def)
next
  case False
  obtain u where "ingest_loop [0..<unat (size_q q)] bs q = Some (q\<lparr>used_ring := u\<rparr>)" "length u = unat (size_q q)"
    "\<forall>i < unat (size_q q). u ! i = used_of_bytes (take 8 (drop (RING_HEADER + i * 8) bs))"
    using ingest_loop_ok [of "unat (size_q q)" bs q "[0..<unat (size_q q)]"] False assms by auto
  then show ?thesis
    using False by (intro exI [of _ "Some idx"] exI [of _ u]) (simp add: ingest_used_def)
qed

lemma ingest_used_slot_ok:
  assumes "length (used_ring q) = unat (size_q q)"
  shows "ingest_used_slot q slot bs =
    (if unat slot < unat (size_q q) then Some (True, q\<lparr>used_ring := (used_ring q)[unat slot := used_of_bytes bs]\<rparr>) else Some (False, q))"
  using assms by (simp add: ingest_used_slot_def index_def word_le_nat_alt)

interpretation vq: chain_allocator vq_inv "\<lambda>q. unat (size_q q)"
  "\<lambda>q n. if n < 2 ^ 16 then alloc_chain q (word_of_nat n) else Some (None, q)" free_chain
proof
  fix q fs C n
  assume inv: "vq_inv q fs C" and n: "0 < n" "n \<le> length fs"
  then have "n < 2 ^ 16"
    using vq_inv_total [OF inv] unat_bound [of "size_q q"] by simp
  then show "\<exists>q'. (if n < 2 ^ 16 then alloc_chain q (word_of_nat n) else Some (None, q)) = Some (Some (hd fs), q') \<and>
      vq_inv q' (drop n fs) (take n fs # C)"
    using alloc_chain_some [OF inv, of "word_of_nat n"] n by (auto simp: unat_of_nat)
next
  fix q fs C n
  assume inv: "vq_inv q fs C" and "n = 0 \<or> length fs < n"
  then show "(if n < 2 ^ 16 then alloc_chain q (word_of_nat n) else Some (None, q)) = Some (None, q)"
    using alloc_chain_none [OF inv, of "word_of_nat n"] by (auto simp: unat_of_nat)
next
  fix q fs C and c :: "u16 list"
  assume "vq_inv q fs C" "c \<in> set C"
  then show "\<exists>q'. free_chain q (hd c) = Some q' \<and> vq_inv q' (rev c @ fs) (remove1 c C)"
    using free_chain_ok by blast
qed (use vq_inv_total in \<open>auto simp: vq_inv_def\<close>)

section \<open>Every run of a driver\<close>

text \<open>The descriptors from \<open>head\<close> on, as a driver walks them with \<open>next_in_chain\<close>; the fuel is the queue size.\<close>

fun walk :: "nat \<Rightarrow> split_queue \<Rightarrow> u16 \<Rightarrow> u16 list run" where
  "walk 0 q i = None"
| "walk (Suc n) q i = do {
     r \<leftarrow> next_in_chain q i;
     (case r of None \<Rightarrow> Some [i] | Some j \<Rightarrow> do { c \<leftarrow> walk n q j; Some (i # c) }) }"

text \<open>\<open>vq_reach q C\<close>: \<open>q\<close> is reached by a driver that frees, describes and publishes only chains it holds, against
  a device that writes anything into the used ring; \<open>C\<close> are the chains held.\<close>

inductive vq_reach :: "split_queue \<Rightarrow> u16 list list \<Rightarrow> bool" where
  new: "queue_new sz = Some q \<Longrightarrow> vq_reach q []"
| alloc: "vq_reach q C \<Longrightarrow> alloc_chain q n = Some (Some h, q') \<Longrightarrow> walk (unat (size_q q')) q' h = Some c \<Longrightarrow> vq_reach q' (c # C)"
| describe: "vq_reach q C \<Longrightarrow> c \<in> set C \<Longrightarrow> i \<in> set c \<Longrightarrow> describe q i a l w = Some q' \<Longrightarrow> vq_reach q' C"
| publish: "vq_reach q C \<Longrightarrow> c \<in> set C \<Longrightarrow> publish q (hd c) = Some (k, q') \<Longrightarrow> vq_reach q' C"
| ingest: "vq_reach q C \<Longrightarrow> ingest_used q bs k = Some (r, q') \<Longrightarrow> vq_reach q' C"
| ingest_slot: "vq_reach q C \<Longrightarrow> ingest_used_slot q s bs = Some (r', q') \<Longrightarrow> vq_reach q' C"
| take: "vq_reach q C \<Longrightarrow> take_used q s = Some (u, q') \<Longrightarrow> vq_reach q' C"
| free: "vq_reach q C \<Longrightarrow> c \<in> set C \<Longrightarrow> free_chain q (hd c) = Some q' \<Longrightarrow> vq_reach q' (remove1 c C)"


lemma walk_chain:
  "chain q c \<Longrightarrow> \<forall>i \<in> set c. unat i < length (desc q) \<Longrightarrow> length c \<le> n \<Longrightarrow> walk n q (hd c) = Some c"
proof (induction n arbitrary: c)
  case 0
  then show ?case by (simp add: chain_def)
next
  case (Suc n)
  obtain x xs where c: "c = x # xs"
    using Suc.prems(1) by (cases c) (auto simp: chain_def)
  show ?case
  proof (cases xs)
    case Nil
    then show ?thesis
      using Suc.prems c by (simp add: chain_def next_in_chain_def get_desc_def index_def)
  next
    case (Cons y ys)
    then have "walk n q (hd xs) = Some xs"
      using Suc.prems c by (intro Suc.IH) (auto simp: chain_def)
    then show ?thesis
      using Suc.prems c Cons by (simp add: chain_def next_in_chain_def get_desc_def index_def)
  qed
qed

lemma vq_inv_walk:
  assumes inv: "vq_inv q fs C" and c: "c \<in> set C"
  shows "walk (unat (size_q q)) q (hd c) = Some c"
proof (rule walk_chain)
  show "chain q c" "\<forall>i \<in> set c. unat i < length (desc q)"
    using inv c vq_inv_lt [OF inv] by (auto simp: vq_inv_def)
  show "length c \<le> unat (size_q q)"
    using vq_inv_total [OF inv] arg_cong [OF mset_concat_remove1 [OF c], of size] by simp
qed

lemma vq_reach_inv: "vq_reach q C \<Longrightarrow> \<exists>fs. vq_inv q fs C"
proof (induction rule: vq_reach.induct)
  case (new sz q)
  then show ?case using queue_new_ok by blast
next
  case (alloc q C n h q' c)
  then obtain fs where inv: "vq_inv q fs C" by blast
  have "0 < unat n" "unat n \<le> length fs"
    using alloc_chain_none [OF inv, of n] alloc.hyps(2) by (auto simp: not_less [symmetric] unat_gt_0 unat_eq_zero)
  then have "h = hd (take (unat n) fs)" "vq_inv q' (drop (unat n) fs) (take (unat n) fs # C)"
    using alloc_chain_some [OF inv, of n] alloc.hyps(2) by (auto simp: hd_take)
  then show ?case
    using vq_inv_walk [of q' _ "take (unat n) fs # C" "take (unat n) fs"] alloc.hyps(3) by auto
next
  case (describe q C c i a l w q')
  then obtain fs where inv: "vq_inv q fs C" by blast
  moreover have "unat i < unat (size_q q)"
    using vq_inv_lt [OF inv] describe.hyps by blast
  ultimately show ?case
    using describe_ok [OF inv, of i a l w] describe.hyps(4) by auto
next
  case (publish q C c k q')
  then show ?case using publish_ok by fastforce
next
  case (ingest q C bs k r q')
  then obtain fs where inv: "vq_inv q fs C" by blast
  then have len: "length (used_ring q) = unat (size_q q)" by (simp add: vq_inv_def)
  show ?case
    using ingest_used_ok [OF len, of bs k] ingest.hyps(2) vq_inv_used [OF inv] len by auto
next
  case (ingest_slot q C s bs r' q')
  then obtain fs where inv: "vq_inv q fs C" by blast
  then have len: "length (used_ring q) = unat (size_q q)" by (simp add: vq_inv_def)
  show ?case
    using ingest_used_slot_ok [OF len, of s bs] ingest_slot.hyps(2) vq_inv_used [OF inv, of "(used_ring q)[unat s := used_of_bytes bs]"] inv
    by (auto split: if_splits)
next
  case (take q C s u q')
  then obtain fs where inv: "vq_inv q fs C" by blast
  show ?case using take_used_ok [OF inv, of s] take.hyps(2) by auto
next
  case (free q C c q')
  then show ?case using free_chain_ok by fastforce
qed

text \<open>C6: in every run, \<open>alloc_chain\<close> returns without panicking. It refuses, changing nothing, exactly when
  asked for no descriptor or for more than are free; otherwise walking from the returned head gives \<open>n\<close>
  distinct descriptors of the table, none of them in a chain already held, and every chain held is still
  walked as before.\<close>

theorem virtio_chains_exclusive:
  assumes "vq_reach q C"
  shows "case alloc_chain q n of
      None \<Rightarrow> False
    | Some (None, q') \<Rightarrow> q' = q \<and> (n = 0 \<or> free q < n)
    | Some (Some h, q') \<Rightarrow> unat (free q') + unat n = unat (free q) \<and>
        (\<exists>c. walk (unat (size_q q)) q' h = Some c \<and> length c = unat n \<and> distinct c \<and>
          (\<forall>i \<in> set c. unat i < unat (size_q q)) \<and> set c \<inter> set (concat C) = {}) \<and>
        (\<forall>d \<in> set C. walk (unat (size_q q)) q' (hd d) = Some d)"
proof -
  obtain fs where inv: "vq_inv q fs C"
    using vq_reach_inv [OF assms] by blast
  show ?thesis
  proof (cases "unat n = 0 \<or> length fs < unat n")
    case True
    then show ?thesis
      using alloc_chain_none [OF inv True] free_lt [OF inv, of n] by (auto simp: unat_eq_zero)
  next
    case False
    then obtain q' where q': "alloc_chain q n = Some (Some (hd fs), q')"
      "vq_inv q' (drop (unat n) fs) (take (unat n) fs # C)" "same_rings q q'"
      using alloc_chain_some [OF inv, of n] by auto
    have hd: "hd fs = hd (take (unat n) fs)" "length (take (unat n) fs) = unat n"
      using False by (auto simp: hd_take)
    have sz: "size_q q' = size_q q"
      using q'(3) by (simp add: same_rings_def)
    have "distinct (take (unat n) fs)" "set (take (unat n) fs) \<inter> set (concat C) = {}"
      using vq.wf_distinct [OF q'(2)] by auto
    moreover have "\<forall>i \<in> set (take (unat n) fs). unat i < unat (size_q q)"
      using vq_inv_lt [OF q'(2)] sz by auto
    moreover have "unat (free q') + unat n = unat (free q)"
      using q'(2) inv False by (simp add: vq_inv_def)
    moreover have "walk (unat (size_q q)) q' (hd d) = Some d" if "d \<in> set (take (unat n) fs # C)" for d
      using vq_inv_walk [OF q'(2) that] sz by simp
    ultimately show ?thesis
      using q'(1) hd by auto
  qed
qed


text \<open>C24: no descriptor leaks. In every run the free descriptors and those of the chains held make up the whole
  table, and \<open>free_chain\<close> on a held chain returns (its walk is bounded by the queue size, which is enough) and
  gives back exactly its descriptors.\<close>

theorem virtio_free_returns_all:
  assumes "vq_reach q C"
  shows "unat (free q) + length (concat C) = unat (size_q q) \<and>
    (\<forall>c \<in> set C. \<exists>q'. free_chain q (hd c) = Some q' \<and> unat (free q') = unat (free q) + length c \<and>
       (\<forall>d \<in> set (remove1 c C). walk (unat (size_q q)) q' (hd d) = Some d))"
proof -
  obtain fs where inv: "vq_inv q fs C"
    using vq_reach_inv [OF assms] by blast
  have "\<exists>q'. free_chain q (hd c) = Some q' \<and> unat (free q') = unat (free q) + length c \<and>
       (\<forall>d \<in> set (remove1 c C). walk (unat (size_q q)) q' (hd d) = Some d)" if c: "c \<in> set C" for c
  proof -
    obtain q' where q': "free_chain q (hd c) = Some q'" "vq_inv q' (rev c @ fs) (remove1 c C)" "size_q q' = size_q q"
      using free_chain_ok [OF inv c] by blast
    then have "unat (free q') = unat (free q) + length c"
      using inv by (simp add: vq_inv_def)
    moreover have "walk (unat (size_q q)) q' (hd d) = Some d" if "d \<in> set (remove1 c C)" for d
      using vq_inv_walk [OF q'(2) that] q'(3) by simp
    ultimately show ?thesis using q'(1) by blast
  qed
  moreover have "unat (free q) = length fs"
    using inv by (simp add: vq_inv_def)
  ultimately show ?thesis
    using vq_inv_total [OF inv] by simp
qed


text \<open>A driver publishing one chain after the other.\<close>

fun publish_all :: "split_queue \<Rightarrow> u16 list \<Rightarrow> split_queue run" where
  "publish_all q [] = Some q"
| "publish_all q (h # hs) = do { (_, q1) \<leftarrow> publish q h; publish_all q1 hs }"

lemma publish_all_append: "publish_all q (xs @ ys) = publish_all q xs \<bind> (\<lambda>q. publish_all q ys)"
  by (induction xs arbitrary: q) (auto split: Option.bind_split)

lemma mod_eq_window: "j < n \<Longrightarrow> n < j + m \<Longrightarrow> n mod m \<noteq> j mod (m :: nat)"
  by (metis add_less_cancel_left le_add_diff_inverse less_imp_le mod_eq_dvd_iff_nat nat_dvd_not_less zero_less_diff)

text \<open>C25: the free-running 16-bit index and the slot it selects stay in step, across any number of wrap-arounds.
  After publishing \<open>hs\<close> on a new queue the index is the number of entries modulo 65536, every slot written was
  inside the ring, and each of the last \<open>size\<close> entries is in the slot given by its ordinal modulo the size.\<close>

theorem virtio_publish_slots:
  assumes "queue_new sz = Some q0" "\<forall>h \<in> set hs. unat h < unat sz"
  shows "\<exists>q. publish_all q0 hs = Some q \<and> avail_idx q = word_of_nat (length hs) \<and> length (avail_ring q) = unat sz \<and>
    (\<forall>j < length hs. length hs \<le> j + unat sz \<longrightarrow> avail_ring q ! (j mod unat sz) = hs ! j) \<and>
    (hs \<noteq> [] \<longrightarrow> unat (last_slot q) = (length hs - 1) mod unat sz)"
proof -
  have new: "vq_inv q0 (map word_of_nat [0..<unat sz]) []" "size_q q0 = sz" "avail_idx q0 = 0"
    using queue_new_ok [OF assms(1)] by auto
  have pos: "0 < unat sz" and dvd: "unat sz dvd 2 ^ 16"
    using new power_size [of sz] by (auto simp: vq_inv_def)
  have wrap: "unat (word_of_nat n :: u16) mod unat sz = n mod unat sz" for n
    using dvd mod_mod_cancel [OF dvd, of n] by (simp add: unat_of_nat)
  have "\<exists>q. publish_all q0 hs = Some q \<and> avail_idx q = word_of_nat (length hs) \<and> size_q q = sz \<and>
      length (avail_ring q) = unat sz \<and> length (in_flight q) = unat sz \<and>
      (\<forall>j < length hs. length hs \<le> j + unat sz \<longrightarrow> avail_ring q ! (j mod unat sz) = hs ! j)"
    using assms(2)
  proof (induction hs rule: rev_induct)
    case Nil
    then show ?case using new by (simp add: vq_inv_def)
  next
    case (snoc h hs)
    then obtain q where q: "publish_all q0 hs = Some q" "avail_idx q = word_of_nat (length hs)" "size_q q = sz"
      "length (avail_ring q) = unat sz" "length (in_flight q) = unat sz"
      "\<forall>j < length hs. length hs \<le> j + unat sz \<longrightarrow> avail_ring q ! (j mod unat sz) = hs ! j"
      by auto
    have run: "publish q h = Some (avail_idx q + 1, q\<lparr>in_flight := (in_flight q)[unat h := True],
        avail_ring := (avail_ring q)[length hs mod unat sz := h], avail_idx := avail_idx q + 1\<rparr>)"
      using publish_run [of q h] q wrap [of "length hs"] snoc.prems by simp
    have "(avail_ring q)[length hs mod unat sz := h] ! (j mod unat sz) = (hs @ [h]) ! j"
      if "j < length (hs @ [h])" "length (hs @ [h]) \<le> j + unat sz" for j
      using that q(4,6) pos mod_eq_window [of j "length hs" "unat sz"]
      by (cases "j = length hs") (auto simp: nth_append nth_list_update)
    then show ?case
      using q run by (simp add: publish_all_append add.commute)
  qed
  then obtain q where q: "publish_all q0 hs = Some q" "avail_idx q = word_of_nat (length hs)" "size_q q = sz"
      "length (avail_ring q) = unat sz"
      "\<forall>j < length hs. length hs \<le> j + unat sz \<longrightarrow> avail_ring q ! (j mod unat sz) = hs ! j"
    by blast
  moreover have "unat (last_slot q) = (length hs - 1) mod unat sz" if "hs \<noteq> []"
  proof -
    have "avail_idx q - 1 = word_of_nat (length hs - 1)"
      using q(2) that by (cases hs) auto
    then show ?thesis
      using wrap [of "length hs - 1"] q(3) by (simp add: last_slot_def unat_mod_distrib)
  qed
  ultimately show ?thesis by blast
qed


text \<open>The used ring read one entry at a time, as the kernel driver does.\<close>

fun ingest_each :: "nat list \<Rightarrow> bytes \<Rightarrow> split_queue \<Rightarrow> split_queue run" where
  "ingest_each [] bs q = Some q"
| "ingest_each (slot # slots) bs q = do {
     b \<leftarrow> slice_of (RING_HEADER + 8 * slot) (RING_HEADER + 8 * slot + 8) bs;
     (_, q1) \<leftarrow> ingest_used_slot q (word_of_nat slot) b;
     ingest_each slots bs q1 }"

lemma ingest_loop_each:
  assumes "length (used_ring q) = unat (size_q q)" "\<forall>i \<in> set slots. i < unat (size_q q)"
  shows "ingest_loop slots bs q = ingest_each slots bs q"
  using assms
proof (induction slots arbitrary: q)
  case Nil
  then show ?case by simp
next
  case (Cons i slots)
  have "unat (word_of_nat i :: u16) = i"
    using Cons.prems(2) unat_bound [of "size_q q"] by (simp add: unat_of_nat)
  then have "ingest_used_slot q (word_of_nat i) b = Some (True, q\<lparr>used_ring := (used_ring q)[i := used_of_bytes b]\<rparr>)" for b
    using ingest_used_slot_ok [OF Cons.prems(1), of "word_of_nat i" b] Cons.prems(2) by simp
  then show ?case
    using Cons by (auto simp: Let_def index_def mult.commute split: Option.bind_split)
qed

text \<open>C26: reading the whole used ring and reading its entries one at a time leave the same queue, in every
  run and for every ring of sufficient length.\<close>

theorem virtio_ingest_agree:
  assumes "vq_reach q C" "RING_HEADER + 8 * unat (size_q q) \<le> length bs"
  shows "\<exists>q'. ingest_used q bs k = Some (Some k, q') \<and> ingest_each [0..<unat (size_q q)] bs q = Some q'"
proof -
  have len: "length (used_ring q) = unat (size_q q)"
    using vq_reach_inv [OF assms(1)] by (auto simp: vq_inv_def)
  obtain u where "ingest_loop [0..<unat (size_q q)] bs q = Some (q\<lparr>used_ring := u\<rparr>)"
    using ingest_loop_ok [of "unat (size_q q)" bs q "[0..<unat (size_q q)]"] assms(2) len by auto
  then show ?thesis
    using assms(2) ingest_loop_each [OF len, of "[0..<unat (size_q q)]" bs] by (simp add: ingest_used_def)
qed

lemma descriptor_to_bytes_length [simp]: "length (descriptor_to_bytes d) = descriptor_BYTES"
  by (simp add: descriptor_to_bytes_def descriptor_BYTES_def)

text \<open>C27: every byte the driver and the device exchange stays in its own part of the ring allocation. The three
  parts are aligned as the device assumes and do not overlap; the bytes of a descriptor and of an available slot,
  written one at a time, are those of the whole table at the entry's offset; a queue of the driver's size fits in a page.\<close>

theorem virtio_ring_regions:
  assumes "vq_reach q C" "unat i < unat (size_q q)"
  shows "let L = ring_layout (size_q q) in
    16 dvd l_desc L \<and> 2 dvd l_avail L \<and> 4 dvd l_used L \<and>
    l_desc L + descriptor_BYTES * unat i + descriptor_BYTES \<le> l_avail L \<and>
    l_avail L + AVAIL_SLOTS_OFFSET + 2 * unat i + 2 + RING_FOOTER \<le> l_used L \<and>
    l_used L + RING_HEADER + 8 * unat i + 8 + RING_FOOTER \<le> ring_bytes q \<and>
    descriptor_bytes q i = slice_of (descriptor_BYTES * unat i) (descriptor_BYTES * unat i + descriptor_BYTES) (desc_bytes q) \<and>
    avail_slot_bytes q i = slice_of (2 * unat i) (2 * unat i + 2) (avail_slots_bytes q) \<and>
    (size_q q = QUEUE_SIZE \<longrightarrow> ring_bytes q \<le> 4096)"
proof -
  obtain fs where inv: "vq_inv q fs C"
    using vq_reach_inv [OF assms(1)] by blast
  have i: "unat i < length (desc q)" "unat i < length (avail_ring q)"
    using inv assms(2) by (auto simp: vq_inv_def)
  have up: "a \<le> align_up a 4" "4 dvd align_up a 4" "align_up a 4 < a + 4" for a
    by (auto simp: align_up_def)
  have "descriptor_bytes q i = slice_of (descriptor_BYTES * unat i) (descriptor_BYTES * unat i + descriptor_BYTES) (desc_bytes q)"
    using concat_slice [of descriptor_to_bytes descriptor_BYTES "unat i" "desc q" "[]"] i(1)
    by (simp add: descriptor_bytes_def desc_bytes_def index_def)
  moreover have "avail_slot_bytes q i = slice_of (2 * unat i) (2 * unat i + 2) (avail_slots_bytes q)"
    using concat_slice [of u16_to_le_bytes 2 "unat i" "avail_ring q" "u16_to_le_bytes 0"] i(2)
    by (simp add: avail_slot_bytes_def avail_slots_bytes_def index_def)
  moreover have "l_avail L + AVAIL_SLOTS_OFFSET + 2 * unat i + 2 + RING_FOOTER \<le> l_used L" if "L = ring_layout (size_q q)" for L
    using up(1) [of "l_avail L + RING_HEADER + 2 * unat (size_q q) + RING_FOOTER"] that assms(2)
    by (simp add: ring_layout_def Let_def AVAIL_SLOTS_OFFSET_def)
  moreover have "size_q q = QUEUE_SIZE \<longrightarrow> ring_bytes q \<le> 4096"
    by (simp add: ring_bytes_def ring_layout_def QUEUE_SIZE_def descriptor_BYTES_def RING_HEADER_def RING_FOOTER_def align_up_def)
  ultimately show ?thesis
    using assms(2) up(2) by (simp add: ring_layout_def Let_def ring_bytes_def descriptor_BYTES_def)
qed

section \<open>A concrete run\<close>

definition ex_new :: split_queue where
  "ex_new = the (queue_new 4)"

definition ex_held :: split_queue where
  "ex_held = snd (the (alloc_chain ex_new 3))"

definition ex_published :: split_queue where
  "ex_published = snd (the (publish ex_held 0))"

definition ex_used :: split_queue where
  "ex_used = snd (the (ingest_used_slot ex_published 1 [0,0,0,0,7,0,0,0]))"

lemma ex_steps:
  "queue_new 4 = Some ex_new" "alloc_chain ex_new 3 = Some (Some 0, ex_held)" "walk (unat (size_q ex_held)) ex_held 0 = Some [0, 1, 2]"
  "publish ex_held 0 = Some (1, ex_published)" "ingest_used_slot ex_published 1 [0,0,0,0,7,0,0,0] = Some (True, ex_used)"
  by code_simp+

lemma ex_held_reach: "vq_reach ex_held [[0, 1, 2]]"
  using vq_reach.alloc [OF vq_reach.new [OF ex_steps(1)] ex_steps(2,3)] .



theorem virtio_chains_exclusive_witness:
  "vq_reach ex_held [[0, 1, 2]] \<and>
   (\<exists>q' c. alloc_chain ex_held 1 = Some (Some 3, q') \<and> walk (unat (size_q ex_held)) q' 3 = Some c \<and>
      set c \<inter> set (concat [[0, 1, 2]]) = {})"
proof -
  have "map_option fst (alloc_chain ex_held 1) = Some (Some 3)"
    by code_simp
  then obtain q' where q': "alloc_chain ex_held 1 = Some (Some 3, q')" by auto
  show ?thesis
    using virtio_chains_exclusive [OF ex_held_reach, of 1] q' ex_held_reach by auto
qed

theorem virtio_free_returns_all_witness:
  "vq_reach ex_held [[0, 1, 2]] \<and> (\<exists>q'. free_chain ex_held 0 = Some q' \<and> unat (free q') = unat (free ex_held) + 3)"
  using virtio_free_returns_all [OF ex_held_reach, THEN conjunct2] ex_held_reach by (simp add: numeral_3_eq_3)


theorem virtio_publish_slots_witness:
  "\<exists>q. publish_all ex_new [0, 1, 2, 3, 1] = Some q \<and> avail_ring q ! 0 = 1 \<and> avail_idx q = 5"
proof -
  have "queue_new 4 = Some ex_new" "\<forall>h \<in> set [0, 1, 2, 3, 1 :: u16]. unat h < unat (4 :: u16)"
    using ex_steps(1) by (simp_all)
  from virtio_publish_slots [OF this] show ?thesis
    by (elim exE conjE) (intro exI conjI, assumption, drule spec [of _ "4 :: nat"], simp_all)
qed

theorem virtio_ingest_agree_witness:
  "vq_reach ex_held [[0, 1, 2]] \<and>
   (\<exists>q'. ingest_used ex_held (replicate 36 1) 5 = Some (Some 5, q') \<and> ingest_each [0..<unat (size_q ex_held)] (replicate 36 1) ex_held = Some q')"
proof -
  have "RING_HEADER + 8 * unat (size_q ex_held) \<le> length (replicate 36 (1 :: u8))"
    by code_simp
  from virtio_ingest_agree [OF ex_held_reach this] ex_held_reach show ?thesis by blast
qed

theorem virtio_ring_regions_witness:
  "vq_reach ex_held [[0, 1, 2]] \<and> descriptor_bytes ex_held 2 = slice_of 32 48 (desc_bytes ex_held) \<and> 4 dvd l_used (ring_layout (size_q ex_held))"
proof -
  have "unat (2 :: u16) < unat (size_q ex_held)"
    by code_simp
  from virtio_ring_regions [OF ex_held_reach this] ex_held_reach show ?thesis
    by (simp add: Let_def descriptor_BYTES_def)
qed

end
