(* ===== verification/Pci.thy ===== *)
theory Pci
  imports Qunix_Prelude
begin

text \<open>
  PCI configuration space, \<open>crates/qunix-hal-x86_64/src/pci.rs\<close>: addressing through the legacy ports, the bus scan, the
  capability list and MSI-X. The ports are a parameter \<open>inl\<close>, what a read returns after the port operations so far, and
  volatile stores are the sequence of writes.
\<close>

section \<open>Model\<close>

definition CONFIG_ADDRESS :: u16 where "CONFIG_ADDRESS = 0xcf8"
definition CONFIG_DATA :: u16 where "CONFIG_DATA = 0xcfc"

record bdf =
  bus :: u8
  device :: u8
  function_no :: u8

definition bdf_new :: "u8 \<Rightarrow> u8 \<Rightarrow> u8 \<Rightarrow> bdf option" where
  "bdf_new b d f = (if d > 31 \<or> f > 7 then None else Some \<lparr>bus = b, device = d, function_no = f\<rparr>)"

definition config_address :: "bdf \<Rightarrow> u8 \<Rightarrow> u32" where
  "config_address a offset =
     push_bit 31 1 OR push_bit 16 (ucast (bus a)) OR push_bit 11 (ucast (device a)) OR push_bit 8 (ucast (function_no a))
       OR (ucast offset AND 0xfc)"

datatype port_op = Outl u16 u32 | Inl_from u16

type_synonym ports = "port_op list \<Rightarrow> u16 \<Rightarrow> u32"

definition config_read32 :: "ports \<Rightarrow> bdf \<Rightarrow> u8 \<Rightarrow> port_op list \<Rightarrow> u32 \<times> port_op list" where
  "config_read32 inl a offset h =
     (let h = h @ [Outl CONFIG_ADDRESS (config_address a offset)] in (inl h CONFIG_DATA, h @ [Inl_from CONFIG_DATA]))"

definition config_write32 :: "bdf \<Rightarrow> u8 \<Rightarrow> u32 \<Rightarrow> port_op list \<Rightarrow> port_op list" where
  "config_write32 a offset value h = h @ [Outl CONFIG_ADDRESS (config_address a offset), Outl CONFIG_DATA value]"

fun snapshot_from :: "ports \<Rightarrow> bdf \<Rightarrow> nat list \<Rightarrow> port_op list \<Rightarrow> bytes \<times> port_op list" where
  "snapshot_from inl a [] h = ([], h)"
| "snapshot_from inl a (dword # ds) h =
     (let (value, h) = config_read32 inl a (word_of_nat (dword * 4)) h; (cfg, h) = snapshot_from inl a ds h in
      (u32_to_le_bytes value @ cfg, h))"

definition config_snapshot :: "ports \<Rightarrow> bdf \<Rightarrow> port_op list \<Rightarrow> bytes \<times> port_op list" where
  "config_snapshot inl a h = snapshot_from inl a [0..<64] h"

definition NO_VENDOR :: u16 where "NO_VENDOR = 0xffff"

text \<open>The scan: the loop over functions ends with the device, with the end of the slot, or by the \<open>?\<close> on \<open>Bdf::new\<close>.\<close>

datatype scan_step = Found "bdf option" | Next_slot

fun scan_functions :: "u16 \<Rightarrow> u16 \<Rightarrow> (bdf \<Rightarrow> u32) \<Rightarrow> u8 \<Rightarrow> u8 list \<Rightarrow> scan_step" where
  "scan_functions vendor dev read_id slot [] = Next_slot"
| "scan_functions vendor dev read_id slot (f # fs) =
     (case bdf_new 0 slot f of
        None \<Rightarrow> Found None
      | Some a \<Rightarrow>
          (let v = read_id a; got_vendor = ucast (v AND 0xffff) :: u16; got_device = ucast (drop_bit 16 v) :: u16 in
           if got_vendor = NO_VENDOR then (if f = 0 then Next_slot else scan_functions vendor dev read_id slot fs)
           else if got_vendor = vendor \<and> got_device = dev then Found (Some a)
           else scan_functions vendor dev read_id slot fs))"

fun scan_slots :: "u16 \<Rightarrow> u16 \<Rightarrow> (bdf \<Rightarrow> u32) \<Rightarrow> u8 list \<Rightarrow> bdf option" where
  "scan_slots vendor dev read_id [] = None"
| "scan_slots vendor dev read_id (s # ss) =
     (case scan_functions vendor dev read_id s (map word_of_nat [0..<8]) of
        Found r \<Rightarrow> r | Next_slot \<Rightarrow> scan_slots vendor dev read_id ss)"

definition scan_for :: "u16 \<Rightarrow> u16 \<Rightarrow> (bdf \<Rightarrow> u32) \<Rightarrow> bdf option" where
  "scan_for vendor dev read_id = scan_slots vendor dev read_id (map word_of_nat [0..<32])"

section \<open>Capabilities\<close>

datatype cap_error = Unaligned u8 | OutOfRange u8 | Cycle

record capability =
  cap_id :: u8
  cap_offset :: u8

definition CAP_POINTER :: usize where "CAP_POINTER = 0x34"

fun walk_loop :: "nat \<Rightarrow> bytes \<Rightarrow> u8 \<Rightarrow> capability list \<Rightarrow> (cap_error + capability list) run" where
  "walk_loop 0 cfg offset caps = Some (Inl Cycle)"
| "walk_loop (Suc n) cfg offset caps =
     (if offset = 0 then Some (Inr caps)
      else if offset AND 3 \<noteq> 0 then Some (Inl (Unaligned offset))
      else do {
        i \<leftarrow> index cfg (unat offset);
        nxt \<leftarrow> index cfg (unat offset + 1);
        walk_loop n cfg nxt (caps @ [\<lparr>cap_id = i, cap_offset = offset\<rparr>]) })"

definition walk_capabilities :: "bytes \<Rightarrow> (cap_error + capability list) run" where
  "walk_capabilities cfg = do { offset \<leftarrow> index cfg CAP_POINTER; walk_loop 64 cfg offset [] }"

definition capability_body :: "bytes \<Rightarrow> capability \<Rightarrow> usize \<Rightarrow> (cap_error + bytes) run" where
  "capability_body cfg cap len = do {
     e \<leftarrow> usize_checked_add (unat (cap_offset cap)) len;
     if e > length cfg then Some (Inl (OutOfRange (cap_offset cap)))
     else do { b \<leftarrow> slice_of (unat (cap_offset cap)) e cfg; Some (Inr b) } }"

section \<open>MSI-X\<close>

datatype msix_error = NoSuchEntry u16

definition msix_message_address :: "u64 \<Rightarrow> u8 \<Rightarrow> u64" where
  "msix_message_address lapic_base apic_id = lapic_base OR push_bit 12 (ucast apic_id)"

definition msix_message_data :: "u8 \<Rightarrow> u32" where
  "msix_message_data vector = ucast vector"

record msix_table =
  base :: u64
  entries :: u16

definition MSIX_ENTRY_BYTES :: nat where "MSIX_ENTRY_BYTES = 16"

definition msix_program :: "msix_table \<Rightarrow> u16 \<Rightarrow> u64 \<Rightarrow> u32 \<Rightarrow> (msix_error + (nat \<times> u32) list) run" where
  "msix_program t entry address data =
     (if entry \<ge> entries t then Some (Inl (NoSuchEntry entry))
      else do {
        at \<leftarrow> usize_checked_add (unat (base t)) (unat entry * MSIX_ENTRY_BYTES);
        control \<leftarrow> usize_checked_add at 12;
        Some (Inr [(control, 1), (at, ucast address), (at + 4, ucast (drop_bit 32 address)), (at + 8, data), (control, 0)]) })"

record msix_capability =
  mc_entries :: u16
  mc_bar :: u8
  mc_offset :: u32
  mc_control_offset :: u8

definition parse_msix :: "bytes \<Rightarrow> capability \<Rightarrow> msix_capability option run" where
  "parse_msix cfg cap = do {
     r \<leftarrow> capability_body cfg cap 12;
     (case r of
        Inl _ \<Rightarrow> Some None
      | Inr body \<Rightarrow> do {
          c \<leftarrow> slice_of 2 4 body;
          let control = (from_le_bytes c :: u16);
          n \<leftarrow> checked_add (control AND 0x7ff) 1;
          t \<leftarrow> slice_of 4 8 body;
          let table = (from_le_bytes t :: u32);
          co \<leftarrow> checked_add (cap_offset cap) 2;
          Some (Some \<lparr>mc_entries = n, mc_bar = ucast (table AND 7), mc_offset = table AND NOT 7, mc_control_offset = co\<rparr>) }) }"

section \<open>The capability list\<close>

text \<open>The offsets a list visits: the pointer in the header, then the second byte of each capability.\<close>

fun chain :: "bytes \<Rightarrow> nat \<Rightarrow> u8" where
  "chain cfg 0 = cfg ! CAP_POINTER"
| "chain cfg (Suc n) = cfg ! (unat (chain cfg n) + 1)"

definition linked :: "bytes \<Rightarrow> nat \<Rightarrow> bool" where
  "linked cfg n \<longleftrightarrow> chain cfg n \<noteq> 0 \<and> 4 dvd unat (chain cfg n)"

definition caps_of :: "bytes \<Rightarrow> nat \<Rightarrow> capability list" where
  "caps_of cfg n = map (\<lambda>i. \<lparr>cap_id = cfg ! unat (chain cfg i), cap_offset = chain cfg i\<rparr>) [0..<n]"

lemma low_bits: "w AND 3 = 0 \<longleftrightarrow> 4 dvd unat (w :: u8)"
proof -
  have "w AND 3 = take_bit 2 w"
    by (simp add: take_bit_eq_mask mask_eq_exp_minus_1)
  also have "\<dots> = 0 \<longleftrightarrow> take_bit 2 (unat w) = 0"
    by (metis unsigned_take_bit_eq unsigned_0 unsigned_eq_0_iff)
  finally show ?thesis
    by (simp add: take_bit_eq_mod dvd_eq_mod_eq_0)
qed

lemma linked_bound: "linked cfg n \<Longrightarrow> unat (chain cfg n) + 1 < 256"
  using unat_u8_less [of "chain cfg n"] by (auto simp: linked_def elim!: dvdE)

text \<open>Two equal offsets make the list periodic, so a list that visits 64 offsets never ends.\<close>

lemma chain_shift: "chain cfg i = chain cfg j \<Longrightarrow> chain cfg (i + k) = chain cfg (j + k)"
  by (induction k) auto

lemma linked_forever:
  assumes "\<forall>i < 64. linked cfg i"
  shows "linked cfg n"
proof -
  let ?S = "(\<lambda>k. word_of_nat (4 * k) :: u8) ` {1..<64}"
  have "chain cfg i \<in> ?S" if "i < 64" for i
  proof -
    have l: "linked cfg i" using assms that by blast
    then obtain k where k: "unat (chain cfg i) = 4 * k" by (auto simp: linked_def elim!: dvdE)
    moreover have "unat (chain cfg i) \<noteq> 0" using l by (simp add: linked_def unat_eq_zero)
    then have "k \<noteq> 0" using k by simp
    moreover have "k < 64" using k unat_u8_less [of "chain cfg i"] by simp
    ultimately have "chain cfg i = word_of_nat (4 * k)" "k \<in> {1..<64}"
      by (auto simp flip: k)
    then show ?thesis by blast
  qed
  then have sub: "chain cfg ` {..<64} \<subseteq> ?S" by blast
  have "card ?S \<le> card {1..<64 :: nat}" by (rule card_image_le) simp
  then have "card ?S < 64" by simp
  then have "card (chain cfg ` {..<64}) < 64"
    using card_mono [OF _ sub] by simp
  then have "\<not> inj_on (chain cfg) {..<64}"
    by (metis card_image card_lessThan nat_neq_iff)
  then obtain i j where ij: "i < j" "j < 64" "chain cfg i = chain cfg j"
    unfolding inj_on_def by (metis lessThan_iff nat_neq_iff)
  show ?thesis
  proof (induction n rule: less_induct)
    case (less n)
    show ?case
    proof (cases "n < 64")
      case True
      then show ?thesis using assms by blast
    next
      case False
      then have "chain cfg n = chain cfg (i + (n - j))"
        using ij chain_shift [OF ij(3), of "n - j"] by simp
      moreover have "linked cfg (i + (n - j))"
        using less False ij by simp
      ultimately show ?thesis by (simp add: linked_def)
    qed
  qed
qed

lemma walk_loop_chain:
  assumes "length cfg = 256" "\<forall>j < i. linked cfg j" "i + n = 64"
  shows "walk_loop n cfg (chain cfg i) (caps_of cfg i) =
    (if \<exists>k < 64. \<not> linked cfg k then
       let k = (LEAST k. \<not> linked cfg k) in
       Some (if chain cfg k = 0 then Inr (caps_of cfg k) else Inl (Unaligned (chain cfg k)))
     else Some (Inl Cycle))"
  using assms(2,3)
proof (induction n arbitrary: i)
  case 0
  then show ?case by auto
next
  case (Suc n)
  show ?case
  proof (cases "linked cfg i")
    case True
    then have l: "\<forall>j < Suc i. linked cfg j" using Suc.prems by (auto simp: less_Suc_eq)
    have ix: "index cfg (unat (chain cfg i)) = Some (cfg ! unat (chain cfg i))"
      "index cfg (unat (chain cfg i) + 1) = Some (chain cfg (Suc i))"
      using linked_bound [OF True] assms(1) by (simp_all add: index_def)
    have "walk_loop (Suc n) cfg (chain cfg i) (caps_of cfg i) = walk_loop n cfg (chain cfg (Suc i)) (caps_of cfg (Suc i))"
      using True by (simp add: ix [simplified] low_bits linked_def caps_of_def)
    then show ?thesis
      using Suc.IH [OF l] Suc.prems by simp
  next
    case False
    then have "(LEAST k. \<not> linked cfg k) = i"
      using Suc.prems(1) by (intro Least_equality) (auto simp: linorder_not_less intro: leI)
    moreover have "\<exists>k < 64. \<not> linked cfg k"
      using False Suc.prems(2) by (intro exI [of _ i]) simp
    ultimately show ?thesis
      using False by (auto simp: low_bits linked_def Let_def)
  qed
qed

text \<open>A list that ends visits no offset twice.\<close>

lemma chain_distinct:
  assumes "chain cfg n = 0" "\<forall>i < n. linked cfg i"
  shows "distinct (map cap_offset (caps_of cfg n))"
proof -
  have "chain cfg i \<noteq> chain cfg j" if "i < j" "j < n" for i j
  proof
    assume "chain cfg i = chain cfg j"
    then have "chain cfg (i + (n - j)) = 0"
      using chain_shift [of cfg i j "n - j"] assms(1) that by simp
    moreover have "linked cfg (i + (n - j))" using assms(2) that by simp
    ultimately show False by (simp add: linked_def)
  qed
  then have "inj_on (chain cfg) {0..<n}"
    by (intro linorder_inj_onI) auto
  then show ?thesis
    by (simp add: caps_of_def comp_def distinct_map)
qed

text \<open>C39: the walk of a capability list ends within its 64 steps and never reads outside the window, whatever the device
  holds, and the bound costs nothing: it returns the whole list exactly when the list ends, refuses the first unaligned
  offset, and reports a cycle only for a list that goes on for ever. No capability is returned twice.\<close>

theorem capability_walk_complete:
  assumes "length cfg = 256"
  shows "\<exists>r. walk_capabilities cfg = Some r \<and>
    (case r of
       Inr caps \<Rightarrow> \<exists>n < 64. chain cfg n = 0 \<and> (\<forall>i < n. linked cfg i) \<and> caps = caps_of cfg n \<and> distinct (map cap_offset caps)
     | Inl (Unaligned off) \<Rightarrow> \<exists>n < 64. chain cfg n = off \<and> \<not> 4 dvd unat off \<and> (\<forall>i < n. linked cfg i)
     | Inl Cycle \<Rightarrow> \<forall>n. linked cfg n
     | Inl (OutOfRange _) \<Rightarrow> False)"
proof -
  have w: "walk_capabilities cfg = walk_loop 64 cfg (chain cfg 0) (caps_of cfg 0)"
    using assms by (simp add: walk_capabilities_def index_def CAP_POINTER_def caps_of_def del: walk_loop.simps)
  show ?thesis
  proof (cases "\<exists>k < 64. \<not> linked cfg k")
    case False
    then have "\<forall>n. linked cfg n" using linked_forever by blast
    then show ?thesis
      using walk_loop_chain [OF assms, of 0 64] False by (simp add: w del: walk_loop.simps chain.simps)
  next
    case True
    define k where "k = (LEAST k. \<not> linked cfg k)"
    have k: "\<not> linked cfg k" "k < 64" "\<forall>i < k. linked cfg i"
      using True LeastI_ex [of "\<lambda>k. \<not> linked cfg k"] Least_le [of "\<lambda>k. \<not> linked cfg k"] not_less_Least [of _ "\<lambda>k. \<not> linked cfg k"]
      unfolding k_def by (blast intro: le_less_trans)+
    have r: "walk_capabilities cfg = Some (if chain cfg k = 0 then Inr (caps_of cfg k) else Inl (Unaligned (chain cfg k)))"
      using walk_loop_chain [OF assms, of 0 64] True by (simp add: w k_def Let_def del: walk_loop.simps chain.simps)
    show ?thesis
    proof (cases "chain cfg k = 0")
      case True
      then show ?thesis using r k chain_distinct by auto
    next
      case False
      then have "\<not> 4 dvd unat (chain cfg k)" using k by (simp add: linked_def)
      then show ?thesis using r k False by auto
    qed
  qed
qed

definition ex_cfg :: bytes where
  "ex_cfg = (replicate 256 0)[0x34 := 0x40, 0x40 := 9, 0x41 := 0x50, 0x50 := 0x11, 0x52 := 3]"

theorem capability_walk_complete_witness:
  "length ex_cfg = 256 \<and> walk_capabilities ex_cfg = Some (Inr (caps_of ex_cfg 2)) \<and>
   map cap_offset (caps_of ex_cfg 2) = [0x40, 0x50] \<and> distinct (map cap_offset (caps_of ex_cfg 2))"
proof -
  have len: "length ex_cfg = 256" by (simp add: ex_cfg_def)
  have c0: "chain ex_cfg 0 = 0x40"
    by (simp add: ex_cfg_def CAP_POINTER_def)
  have c1: "chain ex_cfg (Suc 0) = 0x50"
    unfolding chain.simps(2) c0 by (simp add: ex_cfg_def)
  have "chain ex_cfg (Suc (Suc 0)) = 0"
    unfolding chain.simps(2) [of _ "Suc 0"] c1 by (simp add: ex_cfg_def)
  then have c: "chain ex_cfg 0 = 0x40" "chain ex_cfg 1 = 0x50" "chain ex_cfg 2 = 0"
    using c0 c1 by (simp_all add: numeral_2_eq_2)
  have l: "linked ex_cfg 0" "linked ex_cfg 1" "\<not> linked ex_cfg 2"
    using c by (simp_all add: linked_def)
  have lt: "\<forall>i < n. linked ex_cfg i \<Longrightarrow> n \<le> 2" for n
    using l(3) by (meson linorder_not_le)
  have two: "n = 2" if "chain ex_cfg n = 0" "n \<le> 2" for n
    using that c by (auto simp: le_less less_2_cases_iff simp del: chain.simps)
  obtain r where r: "walk_capabilities ex_cfg = Some r"
    "case r of
       Inr caps \<Rightarrow> \<exists>n < 64. chain ex_cfg n = 0 \<and> (\<forall>i < n. linked ex_cfg i) \<and> caps = caps_of ex_cfg n \<and> distinct (map cap_offset caps)
     | Inl (Unaligned off) \<Rightarrow> \<exists>n < 64. chain ex_cfg n = off \<and> \<not> 4 dvd unat off \<and> (\<forall>i < n. linked ex_cfg i)
     | Inl Cycle \<Rightarrow> \<forall>n. linked ex_cfg n
     | Inl (OutOfRange _) \<Rightarrow> False"
    using capability_walk_complete [OF len] by blast
  have "4 dvd unat (chain ex_cfg n)" if "n \<le> 2" for n
    using that c by (auto simp: le_less less_2_cases_iff simp del: chain.simps)
  then have "r = Inr (caps_of ex_cfg 2)" "distinct (map cap_offset (caps_of ex_cfg 2))"
    using r(2) lt two l(3) by (auto split: sum.splits cap_error.splits)
  then show ?thesis
    using r(1) len c by (simp add: caps_of_def numeral_2_eq_2 del: chain.simps)
qed

section \<open>Addressing and the bus scan\<close>

lemma small_bits:
  assumes "unat w < 2 ^ n" "bit w m"
  shows "m < n"
proof (rule ccontr)
  assume "\<not> m < n"
  then have "unat w < 2 ^ m"
    by (intro order_less_le_trans [OF assms(1)] power_increasing) simp_all
  moreover have "bit (unat w) m"
    using assms(2) by (simp add: bit_unsigned_iff)
  ultimately show False
    by (simp add: bit_iff_odd)
qed

lemma register_bits: "bit (ucast offset AND 0xfc :: u32) n \<longleftrightarrow> 2 \<le> n \<and> n < 8 \<and> bit (offset :: u8) n"
proof -
  have "(0xfc :: u32) = push_bit 2 (mask 6)" by (simp add: mask_eq_exp_minus_1 push_bit_eq_mult)
  moreover have "bit (ucast offset AND push_bit 2 (mask 6) :: u32) n \<longleftrightarrow> 2 \<le> n \<and> n < 8 \<and> bit offset n"
    by (auto simp: bit_simps)
  ultimately show ?thesis by simp
qed

lemma config_address_bits:
  assumes "bdf_new b d f = Some a"
  shows "bit (config_address a offset) n \<longleftrightarrow>
    (if n < 8 then 2 \<le> n \<and> bit offset n else if n < 11 then bit f (n - 8) else if n < 16 then bit d (n - 11)
     else if n < 24 then bit b (n - 16) else n = 31)"
proof -
  have a: "a = \<lparr>bus = b, device = d, function_no = f\<rparr>" "unat d < 2 ^ 5" "unat f < 2 ^ 3"
    using assms by (auto simp: bdf_new_def word_less_nat_alt not_less split: if_splits)
  have "bit d m \<Longrightarrow> m < 5" "bit f m \<Longrightarrow> m < 3" "bit b m \<Longrightarrow> m < 8" for m
    using small_bits [OF a(2)] small_bits [OF a(3)] bit_imp_le_length [of b m] by auto
  note small = this
  have "bit (push_bit 31 1 :: u32) n \<longleftrightarrow> n = 31" by (subst bit_push_bit_iff) (auto simp: bit_1_iff)
  moreover have "bit (push_bit 16 (ucast b) :: u32) n \<longleftrightarrow> 16 \<le> n \<and> n < 24 \<and> bit b (n - 16)"
    using small(3) [of "n - 16"] by (auto simp: bit_simps)
  moreover have "bit (push_bit 11 (ucast d) :: u32) n \<longleftrightarrow> 11 \<le> n \<and> n < 16 \<and> bit d (n - 11)"
    using small(1) [of "n - 11"] by (auto simp: bit_simps)
  moreover have "bit (push_bit 8 (ucast f) :: u32) n \<longleftrightarrow> 8 \<le> n \<and> n < 11 \<and> bit f (n - 8)"
    using small(2) [of "n - 8"] by (auto simp: bit_simps)
  ultimately show ?thesis
    by (simp only: config_address_def a(1) bdf.simps bit_or_iff register_bits) auto
qed

text \<open>Registers that differ have different addresses.\<close>

lemma config_address_inj:
  assumes "bdf_new b d f = Some a" "bdf_new b' d' f' = Some a'" "4 dvd unat off" "4 dvd unat off'"
    "config_address a off = config_address a' off'"
  shows "a = a' \<and> off = off'"
proof -
  have eq: "bit (config_address a off) n = bit (config_address a' off') n" for n using assms(5) by simp
  note bits = eq [unfolded config_address_bits [OF assms(1)] config_address_bits [OF assms(2)]]
  have a: "a = \<lparr>bus = b, device = d, function_no = f\<rparr>" "unat d < 2 ^ 5" "unat f < 2 ^ 3"
    "a' = \<lparr>bus = b', device = d', function_no = f'\<rparr>" "unat d' < 2 ^ 5" "unat f' < 2 ^ 3"
    using assms(1,2) by (auto simp: bdf_new_def word_less_nat_alt not_less split: if_splits)
  have "bit b n = bit b' n" if "n < 8" for n using bits [of "n + 16"] that by simp
  then have "b = b'" by (intro bit_word_eqI) simp
  moreover have "bit d n = bit d' n" for n
    using bits [of "n + 11"] small_bits [OF a(2), of n] small_bits [OF a(5), of n] by (cases "n < 5") auto
  then have "d = d'" by (intro bit_word_eqI) simp
  moreover have "bit f n = bit f' n" for n
    using bits [of "n + 8"] small_bits [OF a(3), of n] small_bits [OF a(6), of n] by (cases "n < 3") auto
  then have "f = f'" by (intro bit_word_eqI) simp
  moreover have "bit off n = bit off' n" if "n < 8" for n
  proof (cases "n < 2")
    case True
    have "\<not> bit w n" if "4 dvd unat w" for w :: u8
    proof
      assume "bit w n"
      then have "bit (unat w) n" by (simp add: bit_unsigned_iff)
      then show False using that True by (auto simp: bit_iff_odd less_2_cases_iff elim!: dvdE)
    qed
    then show ?thesis using assms(3,4) by blast
  next
    case False
    then show ?thesis using bits [of n] that by simp
  qed
  then have "off = off'" by (intro bit_word_eqI) simp
  ultimately show ?thesis using a by simp
qed

text \<open>On ports that answer with the register selected last, the snapshot is the 64 registers in order.\<close>

lemma config_snapshot_ok:
  assumes "\<forall>h v. inl (h @ [Outl CONFIG_ADDRESS v]) CONFIG_DATA = space v"
  shows "fst (config_snapshot inl a h) = concat (map (\<lambda>d. u32_to_le_bytes (space (config_address a (word_of_nat (d * 4))))) [0..<64])"
    "length (fst (config_snapshot inl a h)) = 256"
proof -
  have "fst (snapshot_from inl a ds h) = concat (map (\<lambda>d. u32_to_le_bytes (space (config_address a (word_of_nat (d * 4))))) ds)" for ds h
  proof (induction ds arbitrary: h)
    case Nil
    then show ?case by simp
  next
    case (Cons d ds)
    show ?case
      using assms Cons [of "h @ [Outl CONFIG_ADDRESS (config_address a (word_of_nat (d * 4))), Inl_from CONFIG_DATA]"]
      by (auto simp: config_read32_def split: prod.splits)
  qed
  then show eq: "fst (config_snapshot inl a h) = concat (map (\<lambda>d. u32_to_le_bytes (space (config_address a (word_of_nat (d * 4))))) [0..<64])"
    by (simp only: config_snapshot_def)
  have "length (concat (map (\<lambda>d. u32_to_le_bytes (g d)) ds)) = 4 * length ds" for g and ds :: "nat list"
    by (induction ds) (auto simp: u32_to_le_bytes_def)
  then show "length (fst (config_snapshot inl a h)) = 256"
    unfolding eq by simp
qed

text \<open>The functions of bus 0 that can exist, slot by slot: none in a slot whose function 0 is absent. The scan is a search of
  them.\<close>

definition fn_at :: "u8 \<Rightarrow> u8 \<Rightarrow> bdf" where
  "fn_at slot f = \<lparr>bus = 0, device = slot, function_no = f\<rparr>"

definition vendor_of :: "u32 \<Rightarrow> u16" where "vendor_of v = ucast (v AND 0xffff)"
definition device_of :: "u32 \<Rightarrow> u16" where "device_of v = ucast (drop_bit 16 v)"

definition slot_functions :: "(bdf \<Rightarrow> u32) \<Rightarrow> u8 \<Rightarrow> bdf list" where
  "slot_functions read_id slot =
     (if vendor_of (read_id (fn_at slot 0)) = NO_VENDOR then [] else map (fn_at slot) (map word_of_nat [0..<8]))"

definition is_device :: "u16 \<Rightarrow> u16 \<Rightarrow> (bdf \<Rightarrow> u32) \<Rightarrow> bdf \<Rightarrow> bool" where
  "is_device vendor dev read_id a \<longleftrightarrow>
     vendor_of (read_id a) \<noteq> NO_VENDOR \<and> vendor_of (read_id a) = vendor \<and> device_of (read_id a) = dev"

lemma find_append: "find P (xs @ ys) = (case find P xs of None \<Rightarrow> find P ys | Some x \<Rightarrow> Some x)"
  by (induction xs) auto

lemma scan_functions_find:
  assumes "slot \<le> 31" "\<forall>f \<in> set fs. f \<le> 7" "0 \<in> set fs \<longrightarrow> vendor_of (read_id (fn_at slot 0)) \<noteq> NO_VENDOR"
  shows "scan_functions vendor dev read_id slot fs =
    (case find (is_device vendor dev read_id) (map (fn_at slot) fs) of None \<Rightarrow> Next_slot | Some a \<Rightarrow> Found (Some a))"
  using assms(2,3)
proof (induction fs)
  case Nil
  then show ?case by simp
next
  case (Cons f fs)
  have "bdf_new 0 slot f = Some (fn_at slot f)"
    using assms(1) Cons.prems by (simp add: bdf_new_def fn_at_def not_less)
  then show ?case
    using Cons by (auto simp: is_device_def vendor_of_def [symmetric] device_of_def [symmetric] Let_def)
qed

lemma eight_functions: "\<forall>f \<in> set (map word_of_nat [0..<8]). f \<le> (7 :: u8)" "map word_of_nat [0..<8] = 0 # map word_of_nat [1..<8 :: nat]"
  by (auto simp: word_le_nat_alt unat_of_nat take_bit_eq_mod upt_rec)

lemma scan_slots_find:
  assumes "\<forall>s \<in> set ss. s \<le> 31"
  shows "scan_slots vendor dev read_id ss = find (is_device vendor dev read_id) (concat (map (slot_functions read_id) ss))"
  using assms
proof (induction ss)
  case Nil
  then show ?case by simp
next
  case (Cons s ss)
  show ?case
  proof (cases "vendor_of (read_id (fn_at s 0)) = NO_VENDOR")
    case True
    have "bdf_new 0 s 0 = Some (fn_at s 0)"
      using Cons.prems by (simp add: bdf_new_def fn_at_def not_less)
    then have "scan_functions vendor dev read_id s (map word_of_nat [0..<8]) = Next_slot"
      unfolding eight_functions(2) using True by (simp add: vendor_of_def Let_def)
    then show ?thesis
      using Cons True by (simp add: slot_functions_def)
  next
    case False
    have "scan_functions vendor dev read_id s (map word_of_nat [0..<8]) =
      (case find (is_device vendor dev read_id) (slot_functions read_id s) of None \<Rightarrow> Next_slot | Some a \<Rightarrow> Found (Some a))"
      using scan_functions_find [of s "map word_of_nat [0..<8]"] eight_functions(1) False Cons.prems
      by (simp only: slot_functions_def if_False) simp
    then show ?thesis
      using Cons by (auto simp: find_append split: option.splits)
  qed
qed

lemma scan_for_find:
  "scan_for vendor dev read_id = find (is_device vendor dev read_id) (concat (map (slot_functions read_id) (map word_of_nat [0..<32])))"
proof -
  have "\<forall>s \<in> set (map word_of_nat [0..<32]). s \<le> (31 :: u8)"
    by (auto simp: word_le_nat_alt unat_of_nat take_bit_eq_mod)
  then show ?thesis
    unfolding scan_for_def by (rule scan_slots_find)
qed

section \<open>MSI-X entries\<close>

text \<open>Parsing never panics, for any capability, and a table has between 1 and 2048 entries.\<close>

lemma parse_msix_total:
  assumes "length cfg = 256"
  shows "\<exists>r. parse_msix cfg cap = Some r \<and> (r = None \<longleftrightarrow> unat (cap_offset cap) > 244) \<and>
    (\<forall>m. r = Some m \<longrightarrow> 1 \<le> unat (mc_entries m) \<and> unat (mc_entries m) \<le> 2048)"
proof (cases "unat (cap_offset cap) > 244")
  case True
  then show ?thesis
    using assms unat_u8_less [of "cap_offset cap"] by (simp add: parse_msix_def capability_body_def usize_checked_add_def)
next
  case False
  obtain body where body: "capability_body cfg cap 12 = Some (Inr body)" "length body = 12"
    using False assms by (auto simp: capability_body_def usize_checked_add_def slice_of_def)
  define control where "control = (from_le_bytes (take 2 (drop 2 body)) :: u16)"
  define table where "table = (from_le_bytes (take 4 (drop 4 body)) :: u32)"
  have "control AND 0x7ff = take_bit 11 control" by (simp add: take_bit_eq_mask mask_eq_exp_minus_1)
  then have c: "unat (control AND 0x7ff) < 2 ^ 11"
    by (simp only: unsigned_take_bit_eq take_bit_nat_less_exp)
  then have n: "checked_add (control AND 0x7ff) 1 = Some ((control AND 0x7ff) + 1)" "unat ((control AND 0x7ff) + 1) = unat (control AND 0x7ff) + 1"
    by (simp_all add: checked_add_def unat_word_ariths)
  have co: "checked_add (cap_offset cap) 2 = Some (cap_offset cap + 2)"
    using False by (simp add: checked_add_def)
  have "slice_of 2 4 body = Some (take 2 (drop 2 body))" "slice_of 4 8 body = Some (take 4 (drop 4 body))"
    using body(2) by (simp_all add: slice_of_def)
  then show ?thesis
    using body(1) n co c False by (simp add: parse_msix_def control_def [symmetric] Let_def)
qed

text \<open>While an entry is being written it is masked, and in the end it holds the address and data asked for.\<close>

definition apply_writes :: "(nat \<times> u32) list \<Rightarrow> (nat \<Rightarrow> u32) \<Rightarrow> nat \<Rightarrow> u32" where
  "apply_writes ws m = fold (\<lambda>(a, v) m. m(a := v)) ws m"

lemma msix_program_masked:
  assumes "msix_program t entry address data = Some (Inr ws)" "at = unat (base t) + 16 * unat entry"
  shows "entry < entries t" "0 < k \<Longrightarrow> k < length ws \<Longrightarrow> apply_writes (take k ws) m (at + 12) = 1"
    "apply_writes ws m = m(at := ucast address, at + 4 := ucast (drop_bit 32 address), at + 8 := data, at + 12 := 0)"
proof -
  have ws: "ws = [(at + 12, 1), (at, ucast address), (at + 4, ucast (drop_bit 32 address)), (at + 8, data), (at + 12, 0)]" "entry < entries t"
    using assms by (auto simp: msix_program_def usize_checked_add_def MSIX_ENTRY_BYTES_def not_le mult.commute split: if_splits option.splits
        elim!: bind_eq_Some_conv [THEN iffD1, THEN exE])
  show "entry < entries t" by (rule ws)
  show "apply_writes ws m = m(at := ucast address, at + 4 := ucast (drop_bit 32 address), at + 8 := data, at + 12 := 0)"
    by (auto simp: ws apply_writes_def)
  assume k: "0 < k" "k < length ws"
  then have "k \<in> {1, 2, 3, 4}" by (auto simp: ws)
  then show "apply_writes (take k ws) m (at + 12) = 1"
    by (auto simp: ws apply_writes_def)
qed

end
