(* ===== verification/Block_Driver.thy ===== *)
theory Block_Driver
  imports Virtio_Queue Pci
begin

text \<open>
  The errors of the block driver, \<open>kernel/src/block.rs\<close>, and of probing its device, \<open>kernel/src/virtio.rs\<close>.
\<close>

datatype probe_error =
    NotFound | LegacyOnly | Probe_Capabilities cap_error | MissingStructure u8 | BadBar u8 | NoVersion1 | BadNotifyOffset u16
  | WindowTooLarge u32 | MapFailed u64 | ResetTimeout | QueueTooSmall u16 | FeaturesRejected | DeviceFailed

datatype block_error =
    Blk_Unaligned | Short | TooLarge | QueueFull | NoDevice | Probe probe_error | OutOfMemory | Capabilities cap_error | NoMsix
  | MsixOutsideBar | Blk_Device blk_status | Timeout

end
