(* ===== verification/Bit_Count.thy ===== *)
theory Bit_Count
  imports Qunix_Prelude
begin

unbundle bit_operations_syntax

text \<open>
  The counting and rounding operations of the standard library that both allocators use: \<open>trailing_zeros\<close>, \<open>ilog2\<close>,
  \<open>next_power_of_two\<close>, rounding down to a power of two, and additions that panic on overflow.
\<close>

text \<open>\<open>trailing_zeros\<close> of a \<open>w\<close>-bit value, \<open>ilog2\<close>, \<open>v & !(to - 1)\<close> for a power of two, checked addition and
  subtraction.\<close>

definition trailing_zeros :: "nat \<Rightarrow> 'a::semiring_bits \<Rightarrow> nat" where
  "trailing_zeros w m = length (takeWhile (\<lambda>i. \<not> bit m i) [0..<w])"

fun ilog2 :: "nat \<Rightarrow> nat" where
  "ilog2 n = (if n < 2 then 0 else Suc (ilog2 (n div 2)))"

declare ilog2.simps [simp del]

definition align_down :: "nat \<Rightarrow> nat \<Rightarrow> nat" where
  "align_down v to = v - v mod to"

definition add64 :: "nat \<Rightarrow> nat \<Rightarrow> nat run" where
  "add64 a b = (if a + b < 2 ^ 64 then Some (a + b) else None)"

definition sub64 :: "nat \<Rightarrow> nat \<Rightarrow> nat run" where
  "sub64 a b = (if b \<le> a then Some (a - b) else None)"

text \<open>\<open>next_power_of_two\<close>: the least power of two that is not smaller.\<close>

definition next_power_of_two :: "nat \<Rightarrow> nat" where
  "next_power_of_two n = (if n \<le> 1 then 1 else 2 ^ Suc (ilog2 (n - 1)))"

lemma unat_clear_lowest: "m \<noteq> 0 \<Longrightarrow> unat (m AND (m - 1)) < unat (m :: 'a::len word)"
proof -
  assume m: "m \<noteq> 0"
  have "unat (m AND (m - 1)) \<le> unat (m - 1)"
    using word_and_le1 by (simp add: word_le_nat_alt)
  also have "\<dots> < unat m"
    using m by (simp add: unat_minus_one unat_gt_0)
  finally show ?thesis .
qed

lemma trailing_zeros_least:
  assumes "bit m i" "i < w"
  shows "bit m (trailing_zeros w m)" "trailing_zeros w m \<le> i" "j < trailing_zeros w m \<Longrightarrow> \<not> bit m j"
proof -
  let ?P = "\<lambda>i. \<not> bit m i"
  let ?n = "length (takeWhile ?P [0..<w])"
  have below: "\<not> bit m j" if "j < ?n" for j
  proof -
    have "[0..<w] ! j \<in> set (takeWhile ?P [0..<w])"
      using that by (metis nth_mem takeWhile_nth)
    then have "?P ([0..<w] ! j)"
      by (rule set_takeWhileD [THEN conjunct2])
    moreover have "j < w"
      using that length_takeWhile_le [of ?P "[0..<w]"] by simp
    ultimately show ?thesis by simp
  qed
  have le: "?n \<le> i"
    using below [of i] assms(1) by (metis not_less)
  then have "bit m ([0..<w] ! ?n)"
    using assms(2) nth_length_takeWhile [of ?P "[0..<w]"] by simp
  then show "bit m (trailing_zeros w m)"
    using le assms(2) by (simp add: trailing_zeros_def)
  show "trailing_zeros w m \<le> i" "j < trailing_zeros w m \<Longrightarrow> \<not> bit m j"
    using le below by (auto simp: trailing_zeros_def)
qed

lemma bit_clear_lowest:
  fixes m :: "'a::len word"
  assumes "bit m t" "\<And>j. j < t \<Longrightarrow> \<not> bit m j"
  shows "bit (m AND (m - 1)) i \<longleftrightarrow> bit m i \<and> i \<noteq> t"
proof -
  define m' where "m' = unset_bit t m"
  have t: "t < LENGTH('a)"
    using assms(1) by (rule bit_imp_le_length)
  have "m = m' OR push_bit t 1"
    using assms(1) t by (auto intro!: bit_word_eqI simp: m'_def bit_simps)
  also have "\<dots> = m' + push_bit t 1"
    by (rule disjunctive_add [symmetric]) (auto simp: m'_def bit_simps)
  finally have "m - 1 = m' + mask t"
    by (simp add: mask_eq_exp_minus_1 push_bit_of_1)
  also have "\<dots> = m' OR mask t"
    using assms(2) by (intro disjunctive_add) (auto simp: m'_def bit_simps)
  finally show ?thesis
    using assms(2) by (auto simp: m'_def bit_simps)
qed

lemma word_zero_bits: "m = 0 \<longleftrightarrow> (\<forall>i < LENGTH('a). \<not> bit (m :: 'a::len word) i)"
  by (auto simp: bit_eq_iff dest: bit_imp_le_length)

lemma ilog2_bounds: "0 < n \<Longrightarrow> 2 ^ ilog2 n \<le> n \<and> n < 2 ^ Suc (ilog2 n)"
proof (induction n rule: ilog2.induct)
  case (1 n)
  show ?case
  proof (cases "n < 2")
    case True
    then show ?thesis using 1(2) by (simp add: ilog2.simps [of n])
  next
    case False
    then show ?thesis
      using 1(1) by (subst (1 2) ilog2.simps) auto
  qed
qed

lemma trailing_zeros_ge:
  assumes "m \<le> w"
  shows "m \<le> trailing_zeros w a \<longleftrightarrow> 2 ^ m dvd (a :: nat)"
proof -
  let ?P = "\<lambda>i. \<not> bit a i"
  let ?n = "length (takeWhile ?P [0..<w])"
  have "2 ^ m dvd a \<longleftrightarrow> (\<forall>i < m. \<not> bit a i)"
    by (auto simp: take_bit_eq_0_iff [symmetric] bit_eq_iff bit_take_bit_iff)
  moreover have "(\<forall>i < m. \<not> bit a i) \<longleftrightarrow> m \<le> ?n"
  proof
    assume all: "\<forall>i < m. \<not> bit a i"
    show "m \<le> ?n"
    proof (rule ccontr)
      assume "\<not> m \<le> ?n"
      then show False
        using nth_length_takeWhile [of ?P "[0..<w]"] all assms by simp
    qed
  next
    assume le: "m \<le> ?n"
    show "\<forall>i < m. \<not> bit a i"
    proof (intro allI impI notI)
      fix i assume "i < m" "bit a i"
      moreover have "?n \<le> i" if "i < w"
        using trailing_zeros_least(2) [OF \<open>bit a i\<close> that] by (simp add: trailing_zeros_def)
      ultimately show False using le assms by linarith
    qed
  qed
  ultimately show ?thesis by (simp add: trailing_zeros_def)
qed

lemma align_down_div: "align_down a s = s * (a div s)"
  by (simp add: align_down_def minus_mod_eq_mult_div)

lemma align_down_le: "align_down a s \<le> a"
  by (simp add: align_down_def)

lemma next_power_of_two_bounds: "n \<le> next_power_of_two n" "1 < n \<Longrightarrow> next_power_of_two n < 2 * n"
proof -
  have b: "2 ^ ilog2 (n - 1) \<le> n - 1 \<and> n - 1 < 2 ^ Suc (ilog2 (n - 1))" if "1 < n"
    by (rule ilog2_bounds) (use that in simp)
  show "n \<le> next_power_of_two n"
    using b by (auto simp: next_power_of_two_def)
  show "next_power_of_two n < 2 * n" if "1 < n"
    using b that by (auto simp: next_power_of_two_def)
qed

lemma next_power_of_two_power: "\<exists>k. next_power_of_two n = 2 ^ k"
  unfolding next_power_of_two_def by (metis power_0)

lemma next_power_of_two_least: "n \<le> 2 ^ k \<Longrightarrow> next_power_of_two n \<le> 2 ^ k"
proof (cases "1 < n")
  case True
  assume n: "n \<le> 2 ^ k"
  have "(2 :: nat) ^ ilog2 (n - 1) < 2 ^ k"
    using ilog2_bounds [of "n - 1"] n True by linarith
  then have "ilog2 (n - 1) < k"
    by simp
  then have "(2 :: nat) ^ Suc (ilog2 (n - 1)) \<le> 2 ^ k"
    by (intro power_increasing) auto
  then show ?thesis
    using True by (simp add: next_power_of_two_def)
qed (simp add: next_power_of_two_def)

lemma trailing_zeros_power: "k < w \<Longrightarrow> trailing_zeros w (2 ^ k :: nat) = k"
  using trailing_zeros_ge [of k w "2 ^ k"] trailing_zeros_ge [of "Suc k" w "2 ^ k"]
  by (auto simp: dvd_power_iff_le le_Suc_eq dest: power_dvd_imp_le)

end
