(* ===== verification/Kernel_Bcache.thy ===== *)
theory Kernel_Bcache
  imports Bcache_Table Block_Driver Bit_Count
begin

text \<open>
  The buffer cache of the kernel, \<open>kernel/src/bcache.rs\<close>: what it does with the slot table of \<open>Bcache_Table\<close>, the slots'
  frames and the disk. Each critical section under the \<open>CACHE\<close> lock is one definition; the asynchronous \<open>read_block\<close>,
  \<open>write_block\<close> and \<open>sync\<close> are activities (\<open>bc_pc\<close>) that go from one critical section or device request to the next and
  interleave freely. A slot's frame is named by the slot, as the frames are reserved once, one for each.
\<close>

section \<open>Critical sections\<close>

definition SLOTS :: usize where "SLOTS = 32"
definition BLOCK_BYTES :: usize where "BLOCK_BYTES = 4096"
definition SECTORS_PER_BLOCK :: u64 where "SECTORS_PER_BLOCK = 8"
definition FILL_WAIT_TICKS_LIMIT :: nat where "FILL_WAIT_TICKS_LIMIT = 600"
definition PIN_WAIT_TICKS_LIMIT :: nat where "PIN_WAIT_TICKS_LIMIT = 32"
definition SYNC_ROUND_LIMIT :: nat where "SYNC_ROUND_LIMIT = 600"
definition ONLY_DEVICE :: u32 where "ONLY_DEVICE = 0"

datatype bcache_error =
    NoFrames | Uninitialised | Device block_error | Exhausted | FillStalled | Err_OutOfRange | WritebackStalled | Err_Pinned
  | PartialBlock | UnknownDevice

definition lba_of :: "block_key \<Rightarrow> bcache_error + u64" where
  "lba_of k = (case checked_mul (block k) SECTORS_PER_BLOCK of Some lba \<Rightarrow> Inr lba | None \<Rightarrow> Inl Err_OutOfRange)"

record bcache =
  table :: cache
  frame :: "usize \<Rightarrow> bytes"
  filling :: "usize \<Rightarrow> bool"
  writeback_failed :: "usize \<Rightarrow> bool"

record block_ref =
  ref_slot :: usize

record fill =
  fill_token :: "io_token option"

datatype claim_result = Hit block_ref | Fill fill | Wait

definition drop_ref :: "block_ref \<Rightarrow> bcache option \<Rightarrow> bcache option run" where
  "drop_ref b g = do {
     cache \<leftarrow> g;
     t \<leftarrow> unpin (table cache) (ref_slot b);
     Some (Some (cache\<lparr>table := t\<rparr>)) }"

definition drop_fill :: "fill \<Rightarrow> bcache option \<Rightarrow> bcache option run" where
  "drop_fill f g =
     (case fill_token f of
        None \<Rightarrow> Some g
      | Some token \<Rightarrow>
          (case g of
             None \<Rightarrow> Some g
           | Some cache \<Rightarrow> do {
               let i = tok_slot token;
               t \<leftarrow> end_io (table cache) token Clean;
               (r, t) \<leftarrow> evict t i;
               check (\<not> isl r);
               Some (Some (cache\<lparr>table := t, filling := (filling cache)(i := False)\<rparr>)) }))"

definition claim_free_slot :: "block_key \<Rightarrow> bcache \<Rightarrow> ((bcache_error + io_token) \<times> bcache) run" where
  "claim_free_slot k cache =
     (case insert_block (table cache) k of
        (Inr token, t) \<Rightarrow> Some (Inr token, cache\<lparr>table := t\<rparr>)
      | (Inl (AlreadyResident _), _) \<Rightarrow> None
      | (Inl Full, _) \<Rightarrow>
          (case victim (table cache) of
             None \<Rightarrow> Some (Inl Exhausted, cache)
           | Some v \<Rightarrow> do {
               (r, t) \<leftarrow> evict (table cache) v;
               check (\<not> isl r);
               let cache = cache\<lparr>table := t, writeback_failed := (writeback_failed cache)(v := False)\<rparr>;
               Some (case insert_block (table cache) k of
                  (Inr token, t) \<Rightarrow> (Inr token, cache\<lparr>table := t\<rparr>)
                | (Inl _, t) \<Rightarrow> (Inl Exhausted, cache\<lparr>table := t\<rparr>)) }))"

definition claim :: "block_key \<Rightarrow> bcache option \<Rightarrow> ((bcache_error + claim_result) \<times> bcache option) run" where
  "claim k g =
     (case g of
        None \<Rightarrow> Some (Inl Uninitialised, g)
      | Some cache \<Rightarrow>
          (case lookup (table cache) k of
             Some i \<Rightarrow>
               if state_of (table cache) i = Some InFlight \<and> filling cache i then Some (Inr Wait, g)
               else do {
                 t \<leftarrow> pin (table cache) i;
                 Some (Inr (Hit \<lparr>ref_slot = i\<rparr>), Some (cache\<lparr>table := t\<rparr>)) }
           | None \<Rightarrow> do {
               (r, cache) \<leftarrow> claim_free_slot k cache;
               Some (case r of
                  Inl e \<Rightarrow> (Inl e, Some cache)
                | Inr token \<Rightarrow>
                    (Inr (Fill \<lparr>fill_token = Some token\<rparr>), Some (cache\<lparr>filling := (filling cache)(tok_slot token := True)\<rparr>))) }))"

definition finish_fill :: "fill \<Rightarrow> bool \<Rightarrow> bcache option \<Rightarrow> (block_ref option \<times> bcache option) run" where
  "finish_fill f ok g = do {
     token \<leftarrow> fill_token f;
     let i = tok_slot token;
     cache \<leftarrow> g;
     let cache = cache\<lparr>filling := (filling cache)(i := False)\<rparr>;
     t \<leftarrow> end_io (table cache) token Clean;
     if \<not> ok then do {
       check (state_of t i = Some Clean);
       (r, t) \<leftarrow> evict t i;
       check (\<not> isl r);
       Some (None, Some (cache\<lparr>table := t\<rparr>)) }
     else do {
       t \<leftarrow> pin t i;
       Some (Some \<lparr>ref_slot = i\<rparr>, Some (cache\<lparr>table := t\<rparr>)) } }"

record writeback =
  wb_token :: "io_token option"
  wb_key :: block_key

definition drop_writeback :: "writeback \<Rightarrow> bcache option \<Rightarrow> bcache option run" where
  "drop_writeback w g =
     (case wb_token w of
        None \<Rightarrow> Some g
      | Some token \<Rightarrow>
          (case g of
             None \<Rightarrow> Some g
           | Some cache \<Rightarrow> do {
               t \<leftarrow> end_io (table cache) token Dirty;
               Some (Some (cache\<lparr>table := t\<rparr>)) }))"

datatype blocked = Filling | WritingBack | Reader

definition store :: "block_key \<Rightarrow> bytes \<Rightarrow> bcache option \<Rightarrow> ((bcache_error + blocked + unit) \<times> bcache option) run" where
  "store k data g =
     (case g of
        None \<Rightarrow> Some (Inl Uninitialised, g)
      | Some cache \<Rightarrow> do {
          (r, cache) \<leftarrow>
            (case lookup (table cache) k of
               Some i \<Rightarrow>
                 Some (if state_of (table cache) i = Some InFlight then
                         (Inr (Inl (if filling cache i then Filling else WritingBack)), cache)
                       else if pins_of (table cache) i \<noteq> Some 0 then (Inr (Inl Reader), cache)
                       else (Inr (Inr i), cache))
             | None \<Rightarrow> do {
                 (r, cache) \<leftarrow> claim_free_slot k cache;
                 (case r of
                    Inl e \<Rightarrow> Some (Inl e, cache)
                  | Inr token \<Rightarrow> do {
                      t \<leftarrow> end_io (table cache) token Clean;
                      Some (Inr (Inr (tok_slot token)), cache\<lparr>table := t\<rparr>) }) });
          (case r of
             Inl e \<Rightarrow> Some (Inl e, Some cache)
           | Inr (Inl b) \<Rightarrow> Some (Inr (Inl b), Some cache)
           | Inr (Inr i) \<Rightarrow> do {
               let cache = cache\<lparr>frame := (frame cache)(i := data)\<rparr>;
               t \<leftarrow> mark_dirty (table cache) i;
               Some (Inr (Inr ()), Some (cache\<lparr>table := t, writeback_failed := (writeback_failed cache)(i := False)\<rparr>)) }) })"

definition mask_where :: "(usize \<Rightarrow> bool) \<Rightarrow> u32" where
  "mask_where P = fold (\<lambda>i m. m OR push_bit i 1) (filter P [0..<SLOTS]) 0"

definition unsynced_mask :: "bcache option \<Rightarrow> bcache_error + u32" where
  "unsynced_mask g =
     (case g of
        None \<Rightarrow> Inl Uninitialised
      | Some cache \<Rightarrow> Inr (mask_where (\<lambda>i.
          case state_of (table cache) i of
            Some Dirty \<Rightarrow> True | Some InFlight \<Rightarrow> \<not> filling cache i | _ \<Rightarrow> False)))"

definition begin_writeback :: "usize \<Rightarrow> bcache option \<Rightarrow> (writeback option \<times> bcache option) run" where
  "begin_writeback i g =
     (case g of
        None \<Rightarrow> Some (None, g)
      | Some cache \<Rightarrow>
          if state_of (table cache) i \<noteq> Some Dirty then Some (None, g)
          else
            (case key_of (table cache) i of
               None \<Rightarrow> Some (None, g)
             | Some k \<Rightarrow> do {
                 check (\<not> filling cache i);
                 (token, t) \<leftarrow> begin_io (table cache) i;
                 check (prior token = Dirty);
                 Some (Some \<lparr>wb_token = Some token, wb_key = k\<rparr>, Some (cache\<lparr>table := t\<rparr>)) }))"

definition finish_writeback :: "writeback \<Rightarrow> bool \<Rightarrow> bcache option \<Rightarrow> bcache option run" where
  "finish_writeback w ok g = do {
     token \<leftarrow> wb_token w;
     cache \<leftarrow> g;
     t \<leftarrow> end_io (table cache) token (if ok then Clean else Dirty);
     Some (Some (cache\<lparr>table := t, writeback_failed := (writeback_failed cache)(tok_slot token := \<not> ok)\<rparr>)) }"

definition flushable_slot :: "bcache option \<Rightarrow> usize option" where
  "flushable_slot g =
     (case g of
        None \<Rightarrow> None
      | Some cache \<Rightarrow>
          let unpinned = (\<lambda>i. pins_of (table cache) i = Some 0) in
          case find (\<lambda>i. unpinned i \<and> \<not> writeback_failed cache i) (dirty_slots (table cache)) of
            Some i \<Rightarrow> Some i
          | None \<Rightarrow> find unpinned (dirty_slots (table cache)))"

definition past_deadline :: "nat \<Rightarrow> nat \<Rightarrow> nat \<Rightarrow> bool" where
  "past_deadline now started limit \<longleftrightarrow> now - started > limit"

section \<open>Activities\<close>

text \<open>Where an activity stands. \<open>Held k b\<close> is a finished read of \<open>k\<close> whose \<open>BlockRef\<close> is alive. A device request carries the
  driver's bounce buffer: what the device has read, or what it is to write and whether it has. The last two
  arguments of \<open>Sync_round\<close> are what the round has still to visit and whether it resolved anything.\<close>

datatype bc_pc =
    Returned "bcache_error + unit"
  | Held block_key block_ref
  | Dropped
  | Reading block_key nat nat
  | Fill_io block_key fill "bytes option"
  | Writing block_key bytes "nat option" "nat option" nat
  | Making_room bc_pc
  | Syncing u32 u32 "bcache_error option" nat
  | Sync_round u32 u32 "bcache_error option" nat u32 bool
  | Write_back usize bc_pc
  | Wb_submit writeback bc_pc
  | Wb_io writeback bytes bool bc_pc

definition read_block :: "nat \<Rightarrow> block_key \<Rightarrow> bc_pc" where
  "read_block now k =
     (if dev k \<noteq> ONLY_DEVICE then Returned (Inl UnknownDevice)
      else case lba_of k of Inl e \<Rightarrow> Returned (Inl e) | Inr _ \<Rightarrow> Reading k now 0)"

definition write_block :: "block_key \<Rightarrow> bytes \<Rightarrow> bc_pc" where
  "write_block k data =
     (if dev k \<noteq> ONLY_DEVICE then Returned (Inl UnknownDevice)
      else if length data \<noteq> BLOCK_BYTES then Returned (Inl PartialBlock)
      else case lba_of k of Inl e \<Rightarrow> Returned (Inl e) | Inr _ \<Rightarrow> Writing k data None None 0)"

definition sync :: "bcache option \<Rightarrow> bc_pc" where
  "sync g = (case unsynced_mask g of Inl e \<Rightarrow> Returned (Inl e) | Inr owed \<Rightarrow> Syncing owed 0 None 0)"

text \<open>What \<open>write_back\<close> returns to: \<open>make_room\<close>, which retries the caller, or the round of \<open>sync\<close>.\<close>

fun resume :: "bc_pc \<Rightarrow> usize \<Rightarrow> (block_error + unit) option \<Rightarrow> bc_pc" where
  "resume (Making_room p) i r = (case r of Some (Inl e) \<Rightarrow> Returned (Inl (Device e)) | _ \<Rightarrow> p)"
| "resume (Sync_round owed failed failure idle pend acted) i r =
     (case r of
        Some (Inr _) \<Rightarrow> Sync_round owed failed failure idle pend True
      | Some (Inl e) \<Rightarrow>
          Sync_round owed (failed OR push_bit i 1) (if failure = None then Some (Device e) else failure) idle pend True
      | None \<Rightarrow> Sync_round owed failed failure idle pend acted)"
| "resume p i r = p"

fun bc_step :: "nat \<Rightarrow> bc_pc \<Rightarrow> bcache option \<Rightarrow> (bc_pc \<times> bcache option) run" where
  "bc_step now (Reading k started flushed) g = do {
     (r, g) \<leftarrow> claim k g;
     (case r of
        Inl Exhausted \<Rightarrow>
          Some (let flushed = flushed + 1 in
            if flushed > SLOTS then Returned (Inl Exhausted) else Making_room (Reading k started flushed), g)
      | Inl e \<Rightarrow> Some (Returned (Inl e), g)
      | Inr (Hit b) \<Rightarrow> Some (Held k b, g)
      | Inr Wait \<Rightarrow>
          Some (if past_deadline now started FILL_WAIT_TICKS_LIMIT then Returned (Inl FillStalled) else Reading k started flushed, g)
      | Inr (Fill f) \<Rightarrow> do { check (\<not> isl (lba_of k)); Some (Fill_io k f None, g) }) }"
| "bc_step now (Writing k data io_started pin_started flushed) g = do {
     (r, g) \<leftarrow> store k data g;
     Some (case r of
        Inl Exhausted \<Rightarrow>
          let flushed = flushed + 1 in
          if flushed > SLOTS then Returned (Inl Exhausted) else Making_room (Writing k data io_started pin_started flushed)
      | Inl e \<Rightarrow> Returned (Inl e)
      | Inr (Inr _) \<Rightarrow> Returned (Inr ())
      | Inr (Inl Reader) \<Rightarrow>
          let began = (case pin_started of None \<Rightarrow> now | Some t \<Rightarrow> t) in
          if past_deadline now began PIN_WAIT_TICKS_LIMIT then Returned (Inl Err_Pinned)
          else Writing k data io_started (Some began) flushed
      | Inr (Inl b) \<Rightarrow>
          let began = (case io_started of None \<Rightarrow> now | Some t \<Rightarrow> t) in
          if past_deadline now began FILL_WAIT_TICKS_LIMIT
          then Returned (Inl (if b = Filling then FillStalled else WritebackStalled))
          else Writing k data (Some began) pin_started flushed, g) }"
| "bc_step now (Making_room p) g =
     Some (case flushable_slot g of None \<Rightarrow> Returned (Inl Exhausted) | Some i \<Rightarrow> Write_back i (Making_room p), g)"
| "bc_step now (Write_back i p) g = do {
     (w, g) \<leftarrow> begin_writeback i g;
     Some (case w of None \<Rightarrow> resume p i None | Some w \<Rightarrow> Wb_submit w p, g) }"
| "bc_step now (Wb_submit w p) g = do {
     token \<leftarrow> wb_token w;
     check (\<not> isl (lba_of (wb_key w)));
     cache \<leftarrow> g;
     Some (Wb_io w (frame cache (tok_slot token)) False p, g) }"
| "bc_step now (Syncing owed failed failure idle) g =
     Some (case unsynced_mask g of
        Inl e \<Rightarrow> Returned (Inl e)
      | Inr m \<Rightarrow>
          let pend = owed AND m AND NOT failed in
          if pend = 0 then Returned (case failure of Some e \<Rightarrow> Inl e | None \<Rightarrow> Inr ())
          else Sync_round owed failed failure idle pend False, g)"
| "bc_step now (Sync_round owed failed failure idle pend acted) g =
     Some (if pend \<noteq> 0 then
             let i = trailing_zeros 32 pend in Write_back i (Sync_round owed failed failure idle (pend AND NOT (push_bit i 1)) acted)
           else if acted then Syncing owed failed failure 0
           else if idle + 1 > SYNC_ROUND_LIMIT then Returned (Inl WritebackStalled)
           else Syncing owed failed failure (idle + 1), g)"
| "bc_step now p g = Some (p, g)"

section \<open>The machine\<close>

text \<open>The cache, the disk by sector address, and the activities. Two ghosts: the bytes last written to each block by an
  acknowledged \<open>write_block\<close>, and for each \<open>sync\<close> the blocks whose latest bytes were on the disk at some moment since it
  was called.\<close>

record bmachine =
  guard :: "bcache option"
  disk :: "u64 \<Rightarrow> bytes"
  acts :: "nat \<Rightarrow> bc_pc"
  latest :: "block_key \<Rightarrow> bytes"
  reached :: "nat \<Rightarrow> block_key set"
  abandoned :: "(u64 \<times> bytes) set"

definition valid :: "block_key \<Rightarrow> bool" where
  "valid k \<longleftrightarrow> dev k = ONLY_DEVICE \<and> \<not> isl (lba_of k)"

definition on_disk :: "bmachine \<Rightarrow> block_key \<Rightarrow> bytes" where
  "on_disk m k = disk m (projr (lba_of k))"

definition written :: "bmachine \<Rightarrow> block_key set" where
  "written m = {k. valid k \<and> on_disk m k = latest m k}"

definition observe :: "bmachine \<Rightarrow> bmachine" where
  "observe m = m\<lparr>reached := (\<lambda>a. reached m a \<union> written m)\<rparr>"

text \<open>The cache after \<open>init\<close>, with whatever bytes its frames held.\<close>

definition bcache_new :: "(usize \<Rightarrow> bytes) \<Rightarrow> bcache" where
  "bcache_new bytes0 = \<lparr>table = cache_new SLOTS, frame = bytes0, filling = (\<lambda>_. False), writeback_failed = (\<lambda>_. False)\<rparr>"

definition bmachine_new :: "(u64 \<Rightarrow> bytes) \<Rightarrow> (usize \<Rightarrow> bytes) \<Rightarrow> bmachine" where
  "bmachine_new d bytes0 = \<lparr>guard = Some (bcache_new bytes0), disk = d, acts = (\<lambda>_. Dropped), latest = (\<lambda>k. d (projr (lba_of k))), reached = (\<lambda>_. {}), abandoned = {}\<rparr>"

fun is_idle :: "bc_pc \<Rightarrow> bool" where
  "is_idle (Returned r) = True"
| "is_idle Dropped = True"
| "is_idle p = False"

text \<open>What a write changes for the readers to come.\<close>

fun acknowledge :: "bc_pc \<Rightarrow> bc_pc \<Rightarrow> (block_key \<Rightarrow> bytes) \<Rightarrow> block_key \<Rightarrow> bytes" where
  "acknowledge (Writing k data io pn fl) (Returned (Inr _)) l = l(k := data)"
| "acknowledge p q l = l"

text \<open>What dropping the future of an activity does.\<close>

fun drop_pc :: "bc_pc \<Rightarrow> bcache option \<Rightarrow> bcache option run" where
  "drop_pc (Held k b) g = drop_ref b g"
| "drop_pc (Fill_io k f got) g = drop_fill f g"
| "drop_pc (Wb_submit w p) g = drop_writeback w g"
| "drop_pc (Wb_io w bs landed p) g = drop_writeback w g"
| "drop_pc p g = Some g"

text \<open>The end of a fill and of a writeback. A read that failed may have copied anything into the frame.\<close>

definition fill_done :: "block_key \<Rightarrow> fill \<Rightarrow> block_error + unit \<Rightarrow> bytes \<Rightarrow> bcache option \<Rightarrow> (bc_pc \<times> bcache option) run" where
  "fill_done k f outcome bs g = do {
     token \<leftarrow> fill_token f;
     cache \<leftarrow> g;
     (b, g) \<leftarrow> finish_fill f (\<not> isl outcome) (Some (cache\<lparr>frame := (frame cache)(tok_slot token := bs)\<rparr>));
     Some (case b of Some b \<Rightarrow> Held k b | None \<Rightarrow> Returned (Inl (Device (projl outcome))), g) }"

definition wb_done :: "writeback \<Rightarrow> block_error + unit \<Rightarrow> bc_pc \<Rightarrow> bcache option \<Rightarrow> (bc_pc \<times> bcache option) run" where
  "wb_done w outcome p g = do {
     token \<leftarrow> wb_token w;
     g \<leftarrow> finish_writeback w (\<not> isl outcome) g;
     Some (resume p (tok_slot token) (Some outcome), g) }"

text \<open>The write an activity leaves to the device when it stops waiting for it.\<close>

fun left_behind :: "bc_pc \<Rightarrow> (u64 \<times> bytes) set" where
  "left_behind (Wb_io w bs landed p) = {(projr (lba_of (wb_key w)), bs)}"
| "left_behind p = {}"

text \<open>The steps of \<open>N\<close> activities and the device. The device reads or writes a block at some moment of the request, and a write
  that fails may leave anything in the block. The driver keeps the buffer of a request that timed out or was dropped,
  as the device may still have it; with \<open>late\<close> the device then writes it at any later time.\<close>

inductive bm_step :: "nat \<Rightarrow> bool \<Rightarrow> bmachine \<Rightarrow> bmachine \<Rightarrow> bool" for N late where
  Read: "a < N \<Longrightarrow> is_idle (acts m a) \<Longrightarrow> bm_step N late m (m\<lparr>acts := (acts m)(a := read_block now k)\<rparr>)"
| Write: "a < N \<Longrightarrow> is_idle (acts m a) \<Longrightarrow> bm_step N late m (m\<lparr>acts := (acts m)(a := write_block k data)\<rparr>)"
| Sync: "a < N \<Longrightarrow> is_idle (acts m a) \<Longrightarrow>
     bm_step N late m (m\<lparr>acts := (acts m)(a := sync (guard m)), reached := (reached m)(a := written m)\<rparr>)"
| Run: "a < N \<Longrightarrow> bc_step now (acts m a) (guard m) = Some (p, g) \<Longrightarrow>
     bm_step N late m (observe (m\<lparr>guard := g, acts := (acts m)(a := p), latest := acknowledge (acts m a) p (latest m)\<rparr>))"
| Device_read: "a < N \<Longrightarrow> acts m a = Fill_io k f got \<Longrightarrow>
     bm_step N late m (m\<lparr>acts := (acts m)(a := Fill_io k f (Some (on_disk m k)))\<rparr>)"
| Filled: "a < N \<Longrightarrow> acts m a = Fill_io k f got \<Longrightarrow> isl outcome \<or> got = Some bs \<Longrightarrow> fill_done k f outcome bs (guard m) = Some (p, g) \<Longrightarrow>
     bm_step N late m (observe (m\<lparr>guard := g, acts := (acts m)(a := p)\<rparr>))"
| Device_write: "a < N \<Longrightarrow> acts m a = Wb_io w bs landed p \<Longrightarrow>
     bm_step N late m (observe (m\<lparr>disk := (disk m)(projr (lba_of (wb_key w)) := bs), acts := (acts m)(a := Wb_io w bs True p)\<rparr>))"
| Device_tear: "a < N \<Longrightarrow> acts m a = Wb_io w bs landed p \<Longrightarrow>
     bm_step N late m (observe (m\<lparr>disk := (disk m)(projr (lba_of (wb_key w)) := garbage), acts := (acts m)(a := Wb_io w bs False p)\<rparr>))"
| Wrote: "a < N \<Longrightarrow> acts m a = Wb_io w bs landed q \<Longrightarrow> isl outcome \<or> landed \<Longrightarrow> wb_done w outcome q (guard m) = Some (p, g) \<Longrightarrow>
     bm_step N late m (observe (m\<lparr>guard := g, acts := (acts m)(a := p),
       abandoned := abandoned m \<union> (if outcome = Inl Timeout then left_behind (acts m a) else {})\<rparr>))"
| Drop: "a < N \<Longrightarrow> drop_pc (acts m a) (guard m) = Some g \<Longrightarrow>
     bm_step N late m (observe (m\<lparr>guard := g, acts := (acts m)(a := Dropped), abandoned := abandoned m \<union> left_behind (acts m a)\<rparr>))"
| Late_write: "late \<Longrightarrow> (lba, bs) \<in> abandoned m \<Longrightarrow> bm_step N late m (observe (m\<lparr>disk := (disk m)(lba := bs)\<rparr>))"

inductive bm_reach :: "nat \<Rightarrow> bool \<Rightarrow> bmachine \<Rightarrow> bool" for N late where
  New: "bm_reach N late (bmachine_new d bytes0)"
| Step: "bm_reach N late m \<Longrightarrow> bm_step N late m m' \<Longrightarrow> bm_reach N late m'"

end
