(* ===== verification/Kernel_Bcache_Inv.thy ===== *)
theory Kernel_Bcache_Inv
  imports Kernel_Bcache
begin

text \<open>
  The buffer cache's invariant and its preservation. Every critical section replaces one slot of the table, so the
  invariant is stated slot by slot and activity by activity.
\<close>

section \<open>Critical sections change one slot\<close>

definition put :: "bcache \<Rightarrow> usize \<Rightarrow> slot \<Rightarrow> bcache" where
  "put c i s = c\<lparr>table := (table c)\<lparr>slots := (slots (table c))[i := s]\<rparr>\<rparr>"

abbreviation sl :: "bcache \<Rightarrow> usize \<Rightarrow> slot" where
  "sl c i \<equiv> slots (table c) ! i"

definition new_slot :: "block_key \<Rightarrow> slot" where
  "new_slot k = \<lparr>key = k, state = InFlight, pins = 0, dirtied_during_io = False\<rparr>"

definition btable_ok :: "bcache \<Rightarrow> bool" where
  "btable_ok c \<longleftrightarrow> cache_inv (table c) \<and> length (slots (table c)) = SLOTS"

lemma put_fields [simp]:
  "frame (put c i s) = frame c" "filling (put c i s) = filling c" "writeback_failed (put c i s) = writeback_failed c"
  "length (slots (table (put c i s))) = length (slots (table c))"
  by (simp_all add: put_def)

lemma put_sl: "j < length (slots (table c)) \<Longrightarrow> sl (put c i s) j = (if j = i then s else sl c j)"
  by (auto simp: put_def nth_list_update)

lemma insert_evicted:
  assumes "\<forall>j < length (slots t). state (slots t ! j) \<noteq> Free" "i < length (slots t)" "lookup t k = None"
  shows "insert_block (t\<lparr>slots := (slots t)[i := slot_empty]\<rparr>) k =
    (Inr \<lparr>tok_slot = i, prior = Free\<rparr>, t\<lparr>slots := (slots t)[i := \<lparr>key = k, state = InFlight, pins = 0, dirtied_during_io = False\<rparr>]\<rparr>)"
proof -
  have "position (\<lambda>s. state s = Free) ((slots t)[i := slot_empty]) = Some i"
    using assms(1,2) by (auto simp: position_Some nth_list_update)
  moreover have "lookup (t\<lparr>slots := (slots t)[i := slot_empty]\<rparr>) k = None"
    using assms(2,3) by (auto simp: lookup_def position_None_nth nth_list_update)
  ultimately show ?thesis
    by (simp add: insert_block_def)
qed

lemma free_pins: "btable_ok c \<Longrightarrow> i < SLOTS \<Longrightarrow> state (sl c i) = Free \<Longrightarrow> sl c i = slot_empty"
  using inv_slot_ok [of "table c" i] by (auto simp: btable_ok_def slot_ok_def)

lemma claim_free_slot_cases:
  assumes "btable_ok c" "lookup (table c) k = None"
  obtains "claim_free_slot k c = Some (Inl Exhausted, c)"
  | i wbf where "i < SLOTS" "reusable (sl c i)"
      "claim_free_slot k c = Some (Inr \<lparr>tok_slot = i, prior = Free\<rparr>, put (c\<lparr>writeback_failed := wbf\<rparr>) i (new_slot k))"
proof (cases "position (\<lambda>s. state s = Free) (slots (table c))")
  case (Some i)
  then have "i < SLOTS" "state (sl c i) = Free"
    using assms(1) by (auto simp: position_Some btable_ok_def)
  then have "i < SLOTS" "sl c i = slot_empty"
    using free_pins [OF assms(1)] by blast+
  then have "i < SLOTS" "reusable (sl c i)"
    by (simp_all add: reusable_def slot_empty_def)
  moreover have "claim_free_slot k c = Some (Inr \<lparr>tok_slot = i, prior = Free\<rparr>, put (c\<lparr>writeback_failed := writeback_failed c\<rparr>) i (new_slot k))"
    using Some assms(2) by (simp add: claim_free_slot_def insert_block_def put_def new_slot_def)
  ultimately show thesis by (rule that(2))
next
  case None
  then have full: "insert_block (table c) k = (Inl Full, table c)" "\<forall>j < length (slots (table c)). state (sl c j) \<noteq> Free"
    using assms(2) None by (simp add: insert_block_def, simp add: position_None_nth)
  show thesis
  proof (cases "victim (table c)")
    case None
    then show thesis using full that(1) by (simp add: claim_free_slot_def)
  next
    case (Some v)
    then have v: "v < length (slots (table c))" "reusable (sl c v)"
      using \<open>position _ _ = None\<close> by (auto simp: victim_def position_Some)
    then have "evict (table c) v = Some (Inr (), (table c)\<lparr>slots := (slots (table c))[v := slot_empty]\<rparr>)"
      by (simp add: evict_ok_Some)
    then have "claim_free_slot k c = Some (Inr \<lparr>tok_slot = v, prior = Free\<rparr>, put (c\<lparr>writeback_failed := (writeback_failed c)(v := False)\<rparr>) v (new_slot k))"
      using full Some insert_evicted [OF full(2) v(1) assms(2)] by (simp add: claim_free_slot_def put_def new_slot_def)
    then show thesis using that(2) v assms(1) by (simp add: btable_ok_def)
  qed
qed

lemma put_claimed:
  assumes "btable_ok c" "lookup (table c) k = None" "i < SLOTS" "reusable (sl c i)"
  shows "btable_ok (put c i (new_slot k))"
proof -
  have ev: "evict (table c) i = Some (Inr (), (table c)\<lparr>slots := (slots (table c))[i := slot_empty]\<rparr>)"
    using assms by (simp add: evict_ok_Some btable_ok_def)
  have "cache_inv (table (put c i (new_slot k)))"
    unfolding cache_inv_def
  proof (intro conjI ballI allI impI)
    fix s
    assume "s \<in> set (slots (table (put c i (new_slot k))))"
    then show "slot_ok s"
      using assms(1) set_update_subset_insert [of "slots (table c)" i "new_slot k"]
      by (auto simp: put_def btable_ok_def cache_inv_def slot_ok_def new_slot_def)
  next
    fix x y q
    assume q: "key_of (table (put c i (new_slot k))) x = Some q" "key_of (table (put c i (new_slot k))) y = Some q"
    have absent: "key_of (table c) z \<noteq> Some k" for z
      using assms(1,2) lookup_iff [of "table c" k z] by (simp add: btable_ok_def)
    have "key_of (table (put c i (new_slot k))) z = (if z = i then Some k else key_of (table c) z)" for z
      using assms by (simp add: put_def key_of_update btable_ok_def new_slot_def)
    then show "x = y"
      using q absent assms(1) by (auto simp: btable_ok_def cache_inv_def split: if_splits)
  qed
  then show ?thesis using assms(1) by (simp add: btable_ok_def)
qed

lemma put_same_key:
  assumes "btable_ok c" "i < SLOTS" "slot_ok s" "key s = key (sl c i)" "state s \<noteq> Free" "state (sl c i) \<noteq> Free"
  shows "btable_ok (put c i s)"
  using inv_same_key [of "table c" i s] assms by (simp add: btable_ok_def put_def)

lemma put_released:
  assumes "btable_ok c" "i < SLOTS"
  shows "btable_ok (put c i slot_empty)"
proof -
  have keys: "key_of (table (put c i slot_empty)) z = (if z = i then None else key_of (table c) z)" for z
    using assms by (simp add: put_def key_of_update btable_ok_def)
  have "slot_ok s" if "s \<in> set (slots (table (put c i slot_empty)))" for s
    using that assms(1) set_update_subset_insert [of "slots (table c)" i slot_empty] by (auto simp: put_def btable_ok_def cache_inv_def)
  then show ?thesis
    using assms(1) by (auto simp: btable_ok_def cache_inv_def keys split: if_splits)
qed

section \<open>The invariant\<close>

text \<open>A slot: what it holds is the latest data of its block unless it is being filled, and a clean block is on the disk.\<close>

definition slot_good :: "bmachine \<Rightarrow> bcache \<Rightarrow> usize \<Rightarrow> bool" where
  "slot_good m c i \<longleftrightarrow>
     \<not> dirtied_during_io (sl c i) \<and> (filling c i \<longrightarrow> state (sl c i) = InFlight) \<and>
     (state (sl c i) \<noteq> Free \<longrightarrow> valid (key (sl c i)) \<and>
        (\<not> filling c i \<longrightarrow> frame c i = latest m (key (sl c i))) \<and>
        (state (sl c i) = Clean \<or> filling c i \<longrightarrow> on_disk m (key (sl c i)) = latest m (key (sl c i))))"

text \<open>The slot an activity has a device request for, and the slot it has a reference into.\<close>

fun owned :: "bc_pc \<Rightarrow> usize option" where
  "owned (Fill_io k f got) = map_option tok_slot (fill_token f)"
| "owned (Wb_submit w p) = map_option tok_slot (wb_token w)"
| "owned (Wb_io w bs landed p) = map_option tok_slot (wb_token w)"
| "owned p = None"

fun ref_of :: "bc_pc \<Rightarrow> usize option" where
  "ref_of (Held k b) = Some (ref_slot b)"
| "ref_of p = None"

fun caller_good :: "bc_pc \<Rightarrow> bool" where
  "caller_good (Reading k st fl) = valid k"
| "caller_good (Writing k data io pn fl) = valid k"
| "caller_good p = False"

fun cont_good :: "bc_pc \<Rightarrow> bool" where
  "cont_good (Making_room p) = caller_good p"
| "cont_good (Sync_round owed failed failure idle pend acted) = True"
| "cont_good p = False"

definition wb_good :: "bcache \<Rightarrow> writeback \<Rightarrow> bool" where
  "wb_good c w \<longleftrightarrow> (\<exists>token. wb_token w = Some token \<and> tok_slot token < SLOTS \<and> state (sl c (tok_slot token)) = InFlight \<and>
     key (sl c (tok_slot token)) = wb_key w \<and> \<not> filling c (tok_slot token))"

fun pc_good :: "bmachine \<Rightarrow> bcache \<Rightarrow> bc_pc \<Rightarrow> bool" where
  "pc_good m c (Fill_io k f got) \<longleftrightarrow>
     (\<exists>token. fill_token f = Some token \<and> tok_slot token < SLOTS \<and> state (sl c (tok_slot token)) = InFlight \<and>
        key (sl c (tok_slot token)) = k \<and> filling c (tok_slot token)) \<and> (\<forall>bs. got = Some bs \<longrightarrow> bs = latest m k)"
| "pc_good m c (Wb_submit w p) \<longleftrightarrow> wb_good c w \<and> cont_good p"
| "pc_good m c (Wb_io w bs landed p) \<longleftrightarrow>
     wb_good c w \<and> cont_good p \<and> bs = latest m (wb_key w) \<and> (landed \<longrightarrow> on_disk m (wb_key w) = latest m (wb_key w))"
| "pc_good m c (Held k b) \<longleftrightarrow> ref_slot b < SLOTS \<and> state (sl c (ref_slot b)) \<noteq> Free \<and> key (sl c (ref_slot b)) = k \<and> \<not> filling c (ref_slot b)"
| "pc_good m c (Reading k st fl) \<longleftrightarrow> valid k"
| "pc_good m c (Writing k data io pn fl) \<longleftrightarrow> valid k"
| "pc_good m c (Making_room p) \<longleftrightarrow> caller_good p"
| "pc_good m c (Write_back i p) \<longleftrightarrow> cont_good p"
| "pc_good m c p \<longleftrightarrow> True"

definition holders :: "nat \<Rightarrow> (nat \<Rightarrow> bc_pc) \<Rightarrow> usize \<Rightarrow> nat set" where
  "holders N f i = {a. a < N \<and> ref_of (f a) = Some i}"

definition bm_inv :: "nat \<Rightarrow> bmachine \<Rightarrow> bcache \<Rightarrow> bool" where
  "bm_inv N m c \<longleftrightarrow> guard m = Some c \<and> btable_ok c \<and> (\<forall>i < SLOTS. slot_good m c i) \<and>
     (\<forall>k. valid k \<longrightarrow> lookup (table c) k = None \<longrightarrow> on_disk m k = latest m k) \<and>
     (\<forall>a < N. pc_good m c (acts m a)) \<and>
     (\<forall>a b i. a < N \<longrightarrow> b < N \<longrightarrow> owned (acts m a) = Some i \<longrightarrow> owned (acts m b) = Some i \<longrightarrow> a = b) \<and>
     (\<forall>i < SLOTS. unat (pins (sl c i)) = card (holders N (acts m) i))"

lemma bm_invD:
  assumes "bm_inv N m c"
  shows "guard m = Some c" "btable_ok c" "\<And>i. i < SLOTS \<Longrightarrow> slot_good m c i"
    "\<And>k. valid k \<Longrightarrow> lookup (table c) k = None \<Longrightarrow> on_disk m k = latest m k" "\<And>a. a < N \<Longrightarrow> pc_good m c (acts m a)"
    "\<And>a b i. a < N \<Longrightarrow> b < N \<Longrightarrow> owned (acts m a) = Some i \<Longrightarrow> owned (acts m b) = Some i \<Longrightarrow> a = b"
    "\<And>i. i < SLOTS \<Longrightarrow> unat (pins (sl c i)) = card (holders N (acts m) i)"
  using assms unfolding bm_inv_def by blast+

lemma bm_invI:
  assumes "guard m = Some c" "btable_ok c" "\<And>i. i < SLOTS \<Longrightarrow> slot_good m c i"
    "\<And>k. valid k \<Longrightarrow> lookup (table c) k = None \<Longrightarrow> on_disk m k = latest m k" "\<And>a. a < N \<Longrightarrow> pc_good m c (acts m a)"
    "\<And>a b i. a < N \<Longrightarrow> b < N \<Longrightarrow> owned (acts m a) = Some i \<Longrightarrow> owned (acts m b) = Some i \<Longrightarrow> a = b"
    "\<And>i. i < SLOTS \<Longrightarrow> unat (pins (sl c i)) = card (holders N (acts m) i)"
  shows "bm_inv N m c"
  using assms unfolding bm_inv_def by blast

lemma lookup_slot:
  assumes "btable_ok c"
  shows "lookup (table c) k = Some i \<longleftrightarrow> i < SLOTS \<and> state (sl c i) \<noteq> Free \<and> key (sl c i) = k"
  using assms lookup_iff [of "table c" k i] by (simp add: btable_ok_def key_of_Some)

lemma lookup_absent: "btable_ok c \<Longrightarrow> lookup (table c) k = None \<longleftrightarrow> (\<forall>i < SLOTS. state (sl c i) \<noteq> Free \<longrightarrow> key (sl c i) \<noteq> k)"
  using lookup_slot [of c k] by (metis not_None_eq)

lemma one_slot: "btable_ok c \<Longrightarrow> i < SLOTS \<Longrightarrow> j < SLOTS \<Longrightarrow> state (sl c i) \<noteq> Free \<Longrightarrow> state (sl c j) \<noteq> Free \<Longrightarrow> key (sl c i) = key (sl c j) \<Longrightarrow> i = j"
  using lookup_slot [of c "key (sl c i)"] by (metis option.inject)

lemma owned_good: "pc_good m c p \<Longrightarrow> owned p = Some i \<Longrightarrow> i < SLOTS \<and> state (sl c i) = InFlight"
  by (cases p) (auto simp: wb_good_def)

lemma bm_inv_observe [simp]: "bm_inv N (observe m) c = bm_inv N m c"
proof -
  have "pc_good (observe m) c p = pc_good m c p" for p
    by (cases p) (auto simp: observe_def on_disk_def)
  then show ?thesis
    by (simp add: bm_inv_def observe_def slot_good_def on_disk_def)
qed

text \<open>A step of an activity that leaves the cache, the disk and the data alone.\<close>

lemma holders_upd:
  assumes "a < N"
  shows "card (holders N (f(a := p)) i) + (if ref_of (f a) = Some i then 1 else 0) = card (holders N f i) + (if ref_of p = Some i then 1 else 0)"
proof -
  have fin: "finite (holders N f i)" "finite (holders N f i - {a})" by (auto simp: holders_def)
  have old: "card (holders N f i) = card (holders N f i - {a}) + (if ref_of (f a) = Some i then 1 else 0)"
  proof (cases "ref_of (f a) = Some i")
    case True
    then have "a \<in> holders N f i" using assms by (simp add: holders_def)
    then show ?thesis using True card_Suc_Diff1 [OF fin(1)] by simp
  next
    case False
    then have "holders N f i - {a} = holders N f i" by (auto simp: holders_def)
    then show ?thesis using False by simp
  qed
  have "holders N (f(a := p)) i = (if ref_of p = Some i then insert a (holders N f i - {a}) else holders N f i - {a})"
    using assms by (auto simp: holders_def)
  then have "card (holders N (f(a := p)) i) = card (holders N f i - {a}) + (if ref_of p = Some i then 1 else 0)"
    using fin by (auto simp: card.insert_remove)
  then show ?thesis using old by simp
qed

lemma bm_inv_act:
  assumes inv: "bm_inv N m c" and "a < N" "guard m' = Some c" "acts m' = (acts m)(a := p)" "disk m' = disk m" "latest m' = latest m"
    and p: "pc_good m' c p" "owned p = owned (acts m a) \<or> owned p = None" "ref_of p = ref_of (acts m a)"
  shows "bm_inv N m' c"
proof -
  have same: "pc_good m' c q = pc_good m c q" for q
    using assms(5,6) by (cases q) (auto simp: on_disk_def)
  have "card (holders N (acts m') i) = card (holders N (acts m) i)" for i
    using holders_upd [OF assms(2), of "acts m" p i] p(3) assms(4) by (simp split: if_splits)
  note cards = this
  have own: "owned (acts m' b) = Some i \<Longrightarrow> owned (acts m b) = Some i" for b i
    using p(2) by (auto simp: assms(4) split: if_splits)
  show ?thesis
  proof (rule bm_invI)
    show "b < N \<Longrightarrow> pc_good m' c (acts m' b)" for b
      using bm_invD(5) [OF inv, of b] p(1) by (simp add: assms(4) same [symmetric])
    show "x < N \<Longrightarrow> y < N \<Longrightarrow> owned (acts m' x) = Some i \<Longrightarrow> owned (acts m' y) = Some i \<Longrightarrow> x = y" for x y i
      using bm_invD(6) [OF inv, of x y i] own by blast
    show "i < SLOTS \<Longrightarrow> slot_good m' c i" for i
      using bm_invD(3) [OF inv, of i] assms(5,6) by (simp add: slot_good_def on_disk_def)
  qed (use bm_invD [OF inv] assms(3,5,6) cards in \<open>auto simp: on_disk_def\<close>)
qed

text \<open>A step of activity \<open>a\<close> that changes slot \<open>i\<close> and the data of one block \<open>k\<close>, which no other slot has.\<close>

lemma bm_inv_slot:
  assumes inv: "bm_inv N m c" and a: "a < N" and i: "i < SLOTS" and m': "guard m' = Some c'" "acts m' = (acts m)(a := p)"
    and c': "btable_ok c'" "\<And>j. j < SLOTS \<Longrightarrow> j \<noteq> i \<Longrightarrow> sl c' j = sl c j \<and> filling c' j = filling c j \<and> frame c' j = frame c j"
    and k: "\<And>q. valid q \<Longrightarrow> q \<noteq> k \<Longrightarrow> on_disk m' q = on_disk m q \<and> latest m' q = latest m q"
      "state (sl c i) \<noteq> Free \<and> key (sl c i) = k \<or> lookup (table c) k = None"
      "state (sl c i) \<noteq> Free \<Longrightarrow> key (sl c i) \<noteq> k \<Longrightarrow> state (sl c i) = Clean"
      "valid k \<Longrightarrow> lookup (table c') k = None \<Longrightarrow> on_disk m' k = latest m' k"
      "state (sl c' i) \<noteq> Free \<Longrightarrow> key (sl c' i) = k"
    and good: "slot_good m' c' i" "pc_good m' c' p"
    and others: "\<And>b. b < N \<Longrightarrow> b \<noteq> a \<Longrightarrow> owned (acts m b) \<noteq> Some i"
      "\<And>b. b < N \<Longrightarrow> b \<noteq> a \<Longrightarrow> ref_of (acts m b) = Some i \<Longrightarrow> state (sl c' i) \<noteq> Free \<and> key (sl c i) = k \<and> \<not> filling c' i"
    and p: "\<And>j. owned p = Some j \<Longrightarrow> j = i" "\<And>j. j \<noteq> i \<Longrightarrow> ref_of p = Some j \<longleftrightarrow> ref_of (acts m a) = Some j"
      "unat (pins (sl c' i)) + (if ref_of (acts m a) = Some i then 1 else 0) = unat (pins (sl c i)) + (if ref_of p = Some i then 1 else 0)"
  shows "bm_inv N m' c'"
proof (rule bm_invI)
  note D = bm_invD [OF inv]
  have other_key: "key (sl c j) \<noteq> k" if "j < SLOTS" "j \<noteq> i" "state (sl c j) \<noteq> Free" for j
    using k(2) one_slot [OF D(2) that(1) i that(3)] lookup_absent [OF D(2)] that by auto
  show "guard m' = Some c'" "btable_ok c'" by fact+
  show "slot_good m' c' j" if j: "j < SLOTS" for j
  proof (cases "j = i")
    case False
    have "slot_good m c j" by (rule D(3) [OF j])
    then show ?thesis
      using other_key [OF j False] c'(2) [OF j False] k(1) by (auto simp: slot_good_def)
  qed (use good in simp)
  show "on_disk m' q = latest m' q" if q: "valid q" "lookup (table c') q = None" for q
  proof (cases "q = k")
    case False
    have "on_disk m q = latest m q"
    proof (cases "lookup (table c) q")
      case None
      then show ?thesis using D(4) q by blast
    next
      case (Some j)
      then have j: "j < SLOTS" "state (sl c j) \<noteq> Free" "key (sl c j) = q" using lookup_slot [OF D(2)] by auto
      then have "j = i" using q(2) c'(2) lookup_absent [OF c'(1)] by metis
      then show ?thesis using j k(3) False D(3) [OF i] by (auto simp: slot_good_def)
    qed
    then show ?thesis using k(1) [OF q(1) False] by simp
  qed (use k(4) q in simp)
  show "pc_good m' c' (acts m' b)" if b: "b < N" for b
  proof (cases "b = a")
    case True
    then show ?thesis using good(2) m' by simp
  next
    case False
    have g: "pc_good m c (acts m b)" by (rule D(5) [OF b])
    have o: "j \<noteq> i \<and> state (sl c j) = InFlight \<and> j < SLOTS" if "owned (acts m b) = Some j" for j
      using others(1) [OF b False] owned_good [OF g that] that by blast
    have vk: "key (sl c j) \<noteq> k \<and> valid (key (sl c j))" if "owned (acts m b) = Some j" for j
      using o [OF that] other_key [of j] D(3) [of j] by (auto simp: slot_good_def)
    show ?thesis
    proof (cases "acts m b")
      case (Fill_io q f got)
      then show ?thesis using g o vk c'(2) k(1) False by (auto simp: m')
    next
      case (Wb_submit w r)
      then show ?thesis using g o c'(2) False by (auto simp: m' wb_good_def)
    next
      case (Wb_io w bs landed r)
      then show ?thesis using g o vk c'(2) k(1) False by (auto simp: m' wb_good_def)
    next
      case (Held q r)
      then show ?thesis
        using g others(2) [OF b False] c'(2) [of "ref_slot r"] k(5) False by (cases "ref_slot r = i") (auto simp: m')
    qed (use g False in \<open>auto simp: m'\<close>)
  qed
  show "x = y" if "x < N" "y < N" "owned (acts m' x) = Some j" "owned (acts m' y) = Some j" for x y j
    using that others(1) p(1) D(6) [of x y j] by (auto simp: m' split: if_splits)
  show "unat (pins (sl c' j)) = card (holders N (acts m') j)" if j: "j < SLOTS" for j
    using holders_upd [OF a, of "acts m" p j] D(7) [OF j] p(2,3) c'(2) [OF j] by (cases "j = i") (auto simp: m' split: if_splits)
qed

text \<open>A step of activity \<open>a\<close> that only pins or unpins slot \<open>i\<close>.\<close>

lemma bm_inv_pins:
  assumes inv: "bm_inv N m c" and a: "a < N" and i: "i < SLOTS" "state (sl c i) \<noteq> Free"
    and m': "guard m' = Some (put c i ((sl c i)\<lparr>pins := n\<rparr>))" "acts m' = (acts m)(a := p)" "disk m' = disk m" "latest m' = latest m"
    and p: "pc_good m c p" "owned p = None" "\<And>j. j \<noteq> i \<Longrightarrow> ref_of p = Some j \<longleftrightarrow> ref_of (acts m a) = Some j"
      "unat n + (if ref_of (acts m a) = Some i then 1 else 0) = unat (pins (sl c i)) + (if ref_of p = Some i then 1 else 0)"
  shows "bm_inv N m' (put c i ((sl c i)\<lparr>pins := n\<rparr>))"
proof (rule bm_invI)
  let ?c = "put c i ((sl c i)\<lparr>pins := n\<rparr>)"
  note D = bm_invD [OF inv]
  have len: "length (slots (table c)) = SLOTS" using D(2) by (simp add: btable_ok_def)
  have sl: "state (sl ?c j) = state (sl c j)" "key (sl ?c j) = key (sl c j)" "dirtied_during_io (sl ?c j) = dirtied_during_io (sl c j)" if "j < SLOTS" for j
    using that by (auto simp: put_sl len)
  show ok: "btable_ok ?c"
    using i inv_slot_ok [of "table c" i] D(2) by (intro put_same_key) (auto simp: btable_ok_def slot_ok_def)
  show "guard m' = Some ?c" by fact
  show "slot_good m' ?c j" if "j < SLOTS" for j
    using D(3) [OF that] sl [OF that] m'(3,4) by (simp add: slot_good_def on_disk_def)
  show "on_disk m' k = latest m' k" if "valid k" "lookup (table ?c) k = None" for k
  proof -
    have "lookup (table c) k = None"
      using that(2) sl unfolding lookup_absent [OF ok] lookup_absent [OF D(2)] by metis
    then show ?thesis using D(4) that(1) m'(3,4) by (simp add: on_disk_def)
  qed
  have good: "pc_good m' ?c q \<longleftrightarrow> pc_good m c q" for q
    using sl m'(3,4) by (cases q) (auto simp: on_disk_def wb_good_def)
  show "pc_good m' ?c (acts m' b)" if "b < N" for b
    using D(5) [OF that] p(1) by (simp add: m'(2) good)
  show "x = y" if "x < N" "y < N" "owned (acts m' x) = Some j" "owned (acts m' y) = Some j" for x y j
    using that D(6) [of x y j] p(2) by (auto simp: m'(2) split: if_splits)
  show "unat (pins (sl ?c j)) = card (holders N (acts m') j)" if j: "j < SLOTS" for j
    using holders_upd [OF a, of "acts m" p j] D(7) [OF j] p(3,4) j by (cases "j = i") (auto simp: m'(2) put_sl len split: if_splits)
qed

section \<open>Preservation\<close>

text \<open>A step keeps the invariant and changes at most one slot.\<close>

definition step_good :: "nat \<Rightarrow> bmachine \<Rightarrow> bcache \<Rightarrow> bool" where
  "step_good N m c \<longleftrightarrow> (\<exists>c' i. bm_inv N m c' \<and> (\<forall>j < SLOTS. j \<noteq> i \<longrightarrow> sl c' j = sl c j))"

definition run_to :: "bmachine \<Rightarrow> nat \<Rightarrow> bc_pc \<Rightarrow> bcache option \<Rightarrow> bmachine" where
  "run_to m a p g = m\<lparr>guard := g, acts := (acts m)(a := p), latest := acknowledge (acts m a) p (latest m)\<rparr>"

lemma run_to_fields [simp]:
  "guard (run_to m a p g) = g" "acts (run_to m a p g) = (acts m)(a := p)" "disk (run_to m a p g) = disk m"
  "latest (run_to m a p g) = acknowledge (acts m a) p (latest m)"
  by (simp_all add: run_to_def)

lemma step_goodI: "bm_inv N m c' \<Longrightarrow> (\<And>j. j < SLOTS \<Longrightarrow> j \<noteq> i \<Longrightarrow> sl c' j = sl c j) \<Longrightarrow> step_good N m c"
  unfolding step_good_def by blast

lemma step_act:
  assumes "bm_inv N m c" "a < N" "pc_good m c p" "owned p = owned (acts m a) \<or> owned p = None" "ref_of p = ref_of (acts m a)"
    "acknowledge (acts m a) p (latest m) = latest m"
  shows "step_good N (run_to m a p (Some c)) c"
proof -
  have "pc_good (run_to m a p (Some c)) c p"
    using assms(3,6) by (cases p) (auto simp: on_disk_def)
  then have "bm_inv N (run_to m a p (Some c)) c"
    using assms by (intro bm_inv_act [OF assms(1,2), of _ p]) auto
  then show ?thesis by (rule step_goodI) simp
qed

lemma unused_slot:
  assumes "bm_inv N m c" "i < SLOTS" "reusable (sl c i)" "b < N"
  shows "owned (acts m b) \<noteq> Some i" "ref_of (acts m b) \<noteq> Some i"
proof -
  note D = bm_invD [OF assms(1)]
  show "owned (acts m b) \<noteq> Some i"
    using owned_good [OF D(5) [OF assms(4)], of i] assms(3) by (auto simp: reusable_def)
  have "card (holders N (acts m) i) = 0"
    using D(7) [OF assms(2)] assms(3) by (simp add: reusable_def)
  moreover have "finite (holders N (acts m) i)" by (simp add: holders_def)
  ultimately show "ref_of (acts m b) \<noteq> Some i"
    using assms(4) by (auto simp: holders_def)
qed

lemma unreferenced:
  assumes "bm_inv N m c" "i < SLOTS" "pins (sl c i) = 0" "b < N"
  shows "ref_of (acts m b) \<noteq> Some i"
proof -
  have "card (holders N (acts m) i) = 0"
    using bm_invD(7) [OF assms(1,2)] assms(3) by simp
  moreover have "finite (holders N (acts m) i)" by (simp add: holders_def)
  ultimately show ?thesis using assms(4) by (auto simp: holders_def)
qed

lemma pin_bound:
  assumes "bm_inv N m c" "a < N" "i < SLOTS" "ref_of (acts m a) \<noteq> Some i" "N < 2 ^ 32"
  shows "unat (pins (sl c i) + 1) = unat (pins (sl c i)) + 1"
proof -
  have "holders N (acts m) i \<subseteq> {..<N} - {a}" using assms(4) by (auto simp: holders_def)
  then have "card (holders N (acts m) i) \<le> N - 1"
    using card_mono [of "{..<N} - {a}" "holders N (acts m) i"] assms(2) by simp
  then have "unat (pins (sl c i)) + 1 < 2 ^ 32"
    using bm_invD(7) [OF assms(1,3)] assms(2,5) by simp
  then show ?thesis by (simp add: unat_word_ariths)
qed

lemma state_of_sl: "btable_ok c \<Longrightarrow> i < SLOTS \<Longrightarrow> state_of (table c) i = Some (state (sl c i))"
  "btable_ok c \<Longrightarrow> i < SLOTS \<Longrightarrow> pins_of (table c) i = Some (pins (sl c i))"
  by (simp_all add: state_of_def pins_of_def slot_get_def btable_ok_def)

lemma pin_put: "btable_ok c \<Longrightarrow> i < SLOTS \<Longrightarrow> state (sl c i) \<noteq> Free \<Longrightarrow>
    pin (table c) i = Some (table (put c i ((sl c i)\<lparr>pins := pins (sl c i) + 1\<rparr>)))"
  by (simp add: pin_Some put_def btable_ok_def)

text \<open>The claim of an absent block: the slot it takes and what the machine is left with.\<close>

lemma claimed_slot:
  assumes "bm_inv N m c" "a < N" "i < SLOTS" "reusable (sl c i)" "lookup (table c) k = None" "valid k"
    and own: "owned (acts m a) = None" "ref_of (acts m a) = None"
    and m': "guard m' = Some c'" "acts m' = (acts m)(a := p)" "disk m' = disk m" "\<And>q. q \<noteq> k \<Longrightarrow> latest m' q = latest m q"
    and c': "btable_ok c'" "\<And>j. j < SLOTS \<Longrightarrow> j \<noteq> i \<Longrightarrow> sl c' j = sl c j \<and> filling c' j = filling c j \<and> frame c' j = frame c j"
      "state (sl c' i) \<noteq> Free" "key (sl c' i) = k" "pins (sl c' i) = 0"
    and good: "slot_good m' c' i" "pc_good m' c' p" "\<And>j. owned p = Some j \<Longrightarrow> j = i" "ref_of p = None"
  shows "step_good N m' c"
proof -
  note D = bm_invD [OF assms(1)]
  have "bm_inv N m' c'"
  proof (rule bm_inv_slot [OF assms(1,2,3) m'(1,2) c'(1), of k])
    show "state (sl c i) \<noteq> Free \<Longrightarrow> state (sl c i) = Clean"
      using assms(4) by (auto simp: reusable_def)
    have "lookup (table c') k = Some i"
      using lookup_slot [OF c'(1)] assms(3) c'(3,4) by blast
    then show "lookup (table c') k = None \<Longrightarrow> on_disk m' k = latest m' k" by simp
    show "unat (pins (sl c' i)) + (if ref_of (acts m a) = Some i then 1 else 0) = unat (pins (sl c i)) + (if ref_of p = Some i then 1 else 0)"
      using c'(5) own good(4) assms(4) by (simp add: reusable_def)
    show "owned (acts m b) \<noteq> Some i" if "b < N" for b
      using unused_slot(1) [OF assms(1,3,4) that] .
    show "state (sl c' i) \<noteq> Free \<and> key (sl c i) = k \<and> \<not> filling c' i" if "b < N" "ref_of (acts m b) = Some i" for b
      using unused_slot(2) [OF assms(1,3,4) that(1)] that(2) by blast
  qed (use assms(5) c' m' good own in \<open>auto simp: on_disk_def\<close>)
  then show ?thesis by (rule step_goodI) (use c'(2) in auto)
qed

lemma run_reading:
  assumes inv: "bm_inv N m c" and a: "a < N" "N < 2 ^ 32" "acts m a = Reading k st fl"
  shows "\<exists>p g. bc_step now (acts m a) (guard m) = Some (p, g) \<and> step_good N (run_to m a p g) c"
proof -
  note D = bm_invD [OF inv]
  have v: "valid k" using D(5) [OF a(1)] a(3) by simp
  have act: "step_good N (run_to m a p (Some c)) c" if "pc_good m c p" "owned p = None" "ref_of p = None" for p
    using step_act [OF inv a(1) that(1)] that a(3) by simp
  show ?thesis
  proof (cases "lookup (table c) k")
    case (Some i)
    then have i: "i < SLOTS" "state (sl c i) \<noteq> Free" "key (sl c i) = k"
      using lookup_slot [OF D(2)] by auto
    show ?thesis
    proof (cases "state (sl c i) = InFlight \<and> filling c i")
      case True
      then have "claim k (Some c) = Some (Inr Wait, Some c)"
        using Some i state_of_sl [OF D(2) i(1)] by (simp add: claim_def)
      then show ?thesis
        using a(3) D(1) v by (auto intro!: act)
    next
      case False
      let ?c = "put c i ((sl c i)\<lparr>pins := pins (sl c i) + 1\<rparr>)"
      have nf: "\<not> filling c i" using False D(3) [OF i(1)] by (auto simp: slot_good_def)
      have cl: "claim k (Some c) = Some (Inr (Hit \<lparr>ref_slot = i\<rparr>), Some ?c)"
        using Some i False state_of_sl [OF D(2) i(1)] pin_put [OF D(2) i(1,2)] by (simp add: claim_def put_def)
      have "bm_inv N (run_to m a (Held k \<lparr>ref_slot = i\<rparr>) (Some ?c)) ?c"
        by (rule bm_inv_pins [OF inv a(1) i(1,2)]) (use a(3) i nf pin_bound [OF inv a(1) i(1) _ a(2)] in auto)
      then have "step_good N (run_to m a (Held k \<lparr>ref_slot = i\<rparr>) (Some ?c)) c"
        by (rule step_goodI [of _ _ _ i]) (use D(2) in \<open>auto simp: put_sl btable_ok_def\<close>)
      then show ?thesis using a(3) D(1) cl by simp
    qed
  next
    case None
    show ?thesis
    proof (rule claim_free_slot_cases [OF D(2) None])
      assume "claim_free_slot k c = Some (Inl Exhausted, c)"
      then have "claim k (Some c) = Some (Inl Exhausted, Some c)"
        using None by (simp add: claim_def)
      then show ?thesis
        using a(3) D(1) v by (auto simp: Let_def intro!: act)
    next
      fix i wbf
      assume i: "i < SLOTS" "reusable (sl c i)"
        "claim_free_slot k c = Some (Inr \<lparr>tok_slot = i, prior = Free\<rparr>, put (c\<lparr>writeback_failed := wbf\<rparr>) i (new_slot k))"
      let ?c0 = "put (c\<lparr>writeback_failed := wbf\<rparr>) i (new_slot k)"
      let ?c = "?c0\<lparr>filling := (filling ?c0)(i := True)\<rparr>" and ?f = "\<lparr>fill_token = Some \<lparr>tok_slot = i, prior = Free\<rparr>\<rparr>"
      have cl: "claim k (Some c) = Some (Inr (Fill ?f), Some ?c)"
        using None i(3) by (simp add: claim_def)
      have ok: "btable_ok ?c"
        using put_claimed [OF D(2) None i(1,2)] by (simp add: btable_ok_def put_def)
      have sl: "sl ?c j = (if j = i then new_slot k else sl c j)" if "j < SLOTS" for j
        using that D(2) by (simp add: put_def btable_ok_def nth_list_update)
      have "step_good N (run_to m a (Fill_io k ?f None) (Some ?c)) c"
        by (rule claimed_slot [OF inv a(1) i(1,2) None v _ _ _ _ _ _ ok])
          (use a(3) i(1) v sl D(4) [OF v None] in \<open>auto simp: slot_good_def new_slot_def on_disk_def\<close>)
      moreover have "\<not> isl (lba_of k)" using v by (simp add: valid_def)
      ultimately show ?thesis using a(3) D(1) cl by simp
    qed
  qed
qed

definition store_result :: "bcache \<Rightarrow> (usize \<Rightarrow> bool) \<Rightarrow> usize \<Rightarrow> slot \<Rightarrow> bytes \<Rightarrow> bcache" where
  "store_result c wbf i s data = c\<lparr>frame := (frame c)(i := data), table := table (put c i s), writeback_failed := wbf\<rparr>"

lemma store_result_fields [simp]:
  "frame (store_result c wbf i s data) = (frame c)(i := data)" "filling (store_result c wbf i s data) = filling c"
  "table (store_result c wbf i s data) = table (put c i s)"
  by (simp_all add: store_result_def put_def)

lemma store_resident:
  assumes "btable_ok c" "lookup (table c) k = Some i" "state (sl c i) \<noteq> InFlight" "pins (sl c i) = 0"
  shows "\<exists>wbf. store k data (Some c) = Some (Inr (Inr ()), Some (store_result c wbf i ((sl c i)\<lparr>state := Dirty\<rparr>) data))"
proof -
  have i: "i < SLOTS" "state (sl c i) \<noteq> Free" using assms(2) lookup_slot [OF assms(1)] by auto
  then have "mark_dirty (table c) i = Some (table (put c i ((sl c i)\<lparr>state := Dirty\<rparr>)))"
    using assms(1,3) by (simp add: mark_dirty_Some put_def btable_ok_def)
  then show ?thesis
    using assms(2-4) state_of_sl [OF assms(1) i(1)]
    by (intro exI [of _ "(writeback_failed c)(i := False)"]) (simp add: store_def store_result_def put_def)
qed

lemma store_absent:
  assumes "btable_ok c" "lookup (table c) k = None" "i < SLOTS" "claim_free_slot k c = Some (Inr \<lparr>tok_slot = i, prior = Free\<rparr>, put (c\<lparr>writeback_failed := wbf\<rparr>) i (new_slot k))"
  shows "\<exists>wbf. store k data (Some c) = Some (Inr (Inr ()), Some (store_result c wbf i ((new_slot k)\<lparr>state := Dirty\<rparr>) data))"
proof -
  let ?c = "put (c\<lparr>writeback_failed := wbf\<rparr>) i (new_slot k)"
  have len: "i < length (slots (table c))" using assms(1,3) by (simp add: btable_ok_def)
  have "end_io (table ?c) \<lparr>tok_slot = i, prior = Free\<rparr> Clean = Some (table (put c i ((new_slot k)\<lparr>state := Clean\<rparr>)))"
    using len by (simp add: end_io_Some put_def new_slot_def)
  moreover have "mark_dirty (table (put c i ((new_slot k)\<lparr>state := Clean\<rparr>))) i = Some (table (put c i ((new_slot k)\<lparr>state := Dirty\<rparr>)))"
    using len by (simp add: mark_dirty_Some put_def new_slot_def)
  ultimately show ?thesis
    using assms(2,4) by (intro exI [of _ "wbf(i := False)"]) (simp add: store_def store_result_def put_def)
qed

lemma run_writing:
  assumes inv: "bm_inv N m c" and a: "a < N" "acts m a = Writing k data io pn fl"
  shows "\<exists>p g. bc_step now (acts m a) (guard m) = Some (p, g) \<and> step_good N (run_to m a p g) c"
proof -
  note D = bm_invD [OF inv]
  have v: "valid k" using D(5) [OF a(1)] a(2) by simp
  have act: "step_good N (run_to m a p (Some c)) c" if "pc_good m c p" "owned p = None" "ref_of p = None" "p \<noteq> Returned (Inr ())" for p
  proof -
    have "acknowledge (Writing k data io pn fl) p (latest m) = latest m"
      using that(4) by (cases "(Writing k data io pn fl, p, latest m)" rule: acknowledge.cases) auto
    then show ?thesis using step_act [OF inv a(1) that(1)] that a(2) by simp
  qed
  have blocked: ?thesis if "store k data (Some c) = Some (Inr (Inl b), Some c)" for b
    using a(2) D(1) v that by (cases b) (auto simp: Let_def intro!: act)
  have stored: ?thesis if "store k data (Some c) = Some (Inr (Inr ()), Some c')" "step_good N (run_to m a (Returned (Inr ())) (Some c')) c" for c'
    using a(2) D(1) that by simp
  have len: "length (slots (table c)) = SLOTS" using D(2) by (simp add: btable_ok_def)
  have sl: "sl (store_result c wbf i s data) j = (if j = i then s else sl c j)" if "j < SLOTS" for wbf i s j
    using that by (simp add: put_sl len)
  show ?thesis
  proof (cases "lookup (table c) k")
    case (Some i)
    then have i: "i < SLOTS" "state (sl c i) \<noteq> Free" "key (sl c i) = k"
      using lookup_slot [OF D(2)] by auto
    consider "state (sl c i) = InFlight" | "state (sl c i) \<noteq> InFlight" "pins (sl c i) \<noteq> 0" | "state (sl c i) \<noteq> InFlight" "pins (sl c i) = 0"
      by blast
    then show ?thesis
    proof cases
      case 1
      then show ?thesis
        using Some state_of_sl [OF D(2) i(1)] by (intro blocked) (simp add: store_def)
    next
      case 2
      then show ?thesis
        using Some state_of_sl [OF D(2) i(1)] by (intro blocked) (simp add: store_def)
    next
      case 3
      obtain wbf where st: "store k data (Some c) = Some (Inr (Inr ()), Some (store_result c wbf i ((sl c i)\<lparr>state := Dirty\<rparr>) data))"
        using store_resident [OF D(2) Some 3] by blast
      let ?c = "store_result c wbf i ((sl c i)\<lparr>state := Dirty\<rparr>) data" and ?m = "run_to m a (Returned (Inr ())) (Some (store_result c wbf i ((sl c i)\<lparr>state := Dirty\<rparr>) data))"
      have g: "\<not> dirtied_during_io (sl c i)" "\<not> filling c i"
        using D(3) [OF i(1)] 3 by (auto simp: slot_good_def)
      have ok: "btable_ok ?c"
        using put_same_key [OF D(2) i(1), of "(sl c i)\<lparr>state := Dirty\<rparr>"] i(2) g by (simp add: btable_ok_def slot_ok_def)
      have "bm_inv N ?m ?c"
      proof (rule bm_inv_slot [OF inv a(1) i(1), of _ _ "Returned (Inr ())" k])
        have "lookup (table ?c) k = Some i"
          using lookup_slot [OF ok] i sl [OF i(1)] by simp
        then show "lookup (table ?c) k = None \<Longrightarrow> on_disk ?m k = latest ?m k" by simp
        show "owned (acts m b) \<noteq> Some i" if "b < N" for b
          using owned_good [OF D(5) [OF that], of i] 3 by blast
        show "state (sl ?c i) \<noteq> Free \<and> key (sl c i) = k \<and> \<not> filling ?c i" if "b < N" "ref_of (acts m b) = Some i" for b
          using unreferenced [OF inv i(1) 3(2) that(1)] that(2) by blast
      qed (use ok a(2) i g v sl 3 in \<open>auto simp: on_disk_def slot_good_def\<close>)
      then have "step_good N ?m c" by (rule step_goodI [of _ _ _ i]) (use sl in auto)
      then show ?thesis using stored [OF st] by blast
    qed
  next
    case None
    show ?thesis
    proof (rule claim_free_slot_cases [OF D(2) None])
      assume "claim_free_slot k c = Some (Inl Exhausted, c)"
      then have "store k data (Some c) = Some (Inl Exhausted, Some c)"
        using None by (simp add: store_def)
      then show ?thesis
        using a(2) D(1) v by (auto simp: Let_def intro!: act)
    next
      fix i wbf
      assume i: "i < SLOTS" "reusable (sl c i)"
        "claim_free_slot k c = Some (Inr \<lparr>tok_slot = i, prior = Free\<rparr>, put (c\<lparr>writeback_failed := wbf\<rparr>) i (new_slot k))"
      obtain wbf where st: "store k data (Some c) = Some (Inr (Inr ()), Some (store_result c wbf i ((new_slot k)\<lparr>state := Dirty\<rparr>) data))"
        using store_absent [OF D(2) None i(1,3)] by blast
      let ?c = "store_result c wbf i ((new_slot k)\<lparr>state := Dirty\<rparr>) data"
      have nf: "\<not> filling c i" using D(3) [OF i(1)] i(2) by (auto simp: slot_good_def reusable_def)
      have ok1: "btable_ok (put c i (new_slot k))" by (rule put_claimed [OF D(2) None i(1,2)])
      have "put (put c i (new_slot k)) i ((new_slot k)\<lparr>state := Dirty\<rparr>) = put c i ((new_slot k)\<lparr>state := Dirty\<rparr>)"
        by (simp add: put_def)
      then have ok: "btable_ok ?c"
        using put_same_key [OF ok1 i(1), of "(new_slot k)\<lparr>state := Dirty\<rparr>"] i(1)
        by (simp add: put_sl len btable_ok_def slot_ok_def new_slot_def)
      have "step_good N (run_to m a (Returned (Inr ())) (Some ?c)) c"
        by (rule claimed_slot [OF inv a(1) i(1,2) None v _ _ _ _ _ _ ok])
          (use a(2) i(1) v sl nf in \<open>auto simp: slot_good_def new_slot_def on_disk_def\<close>)
      then show ?thesis using stored [OF st] by blast
    qed
  qed
qed

lemma cont_resume: "cont_good p \<Longrightarrow> pc_good m c (resume p i r) \<and> owned (resume p i r) = None \<and> ref_of (resume p i r) = None"
proof (cases p)
  case (Making_room q)
  then show "cont_good p \<Longrightarrow> ?thesis" by (cases q) (auto split: option.splits sum.splits)
next
  case (Sync_round owed failed failure idle pend acted)
  then show ?thesis by (auto split: option.splits sum.splits)
qed auto

lemma ack_same: "(\<And>k data io pn fl. p \<noteq> Writing k data io pn fl) \<Longrightarrow> acknowledge p q l = l"
  by (cases "(p, q, l)" rule: acknowledge.cases) auto

lemma step_act':
  assumes "bm_inv N m c" "a < N" "\<And>k data io pn fl. acts m a \<noteq> Writing k data io pn fl"
    "pc_good m c p" "owned p = owned (acts m a) \<or> owned p = None" "ref_of p = ref_of (acts m a)"
  shows "step_good N (run_to m a p (Some c)) c"
  using step_act [OF assms(1,2,4-6)] ack_same [OF assms(3)] by simp

lemma begin_io_put: "btable_ok c \<Longrightarrow> i < SLOTS \<Longrightarrow> state (sl c i) = Dirty \<Longrightarrow>
    begin_io (table c) i = Some (\<lparr>tok_slot = i, prior = Dirty\<rparr>, table (put c i ((sl c i)\<lparr>state := InFlight\<rparr>)))"
  by (simp add: begin_io_Some put_def btable_ok_def)

lemma run_write_back:
  assumes inv: "bm_inv N m c" and a: "a < N" "acts m a = Write_back i q"
  shows "\<exists>p g. bc_step now (acts m a) (guard m) = Some (p, g) \<and> step_good N (run_to m a p g) c"
proof -
  note D = bm_invD [OF inv]
  have q: "cont_good q" using D(5) [OF a(1)] a(2) by simp
  have len: "length (slots (table c)) = SLOTS" using D(2) by (simp add: btable_ok_def)
  show ?thesis
  proof (cases "state_of (table c) i = Some Dirty")
    case False
    then have "begin_writeback i (Some c) = Some (None, Some c)" by (simp add: begin_writeback_def)
    then show ?thesis
      using a(2) D(1) cont_resume [OF q, of m c i None] by (auto intro!: step_act' [OF inv a(1)])
  next
    case True
    then have i: "i < SLOTS" "state (sl c i) = Dirty"
      by (auto simp: state_of_def slot_get_def len split: if_splits)
    let ?k = "key (sl c i)" and ?c = "put c i ((sl c i)\<lparr>state := InFlight\<rparr>)"
    let ?p = "Wb_submit \<lparr>wb_token = Some \<lparr>tok_slot = i, prior = Dirty\<rparr>, wb_key = ?k\<rparr> q"
    have g: "\<not> filling c i" "\<not> dirtied_during_io (sl c i)" "valid ?k" "frame c i = latest m ?k"
      using D(3) [OF i(1)] i(2) by (auto simp: slot_good_def)
    have "key_of (table c) i = Some ?k" using i len by (simp add: key_of_Some)
    then have bw: "begin_writeback i (Some c) = Some (Some \<lparr>wb_token = Some \<lparr>tok_slot = i, prior = Dirty\<rparr>, wb_key = ?k\<rparr>, Some ?c)"
      using True g(1) begin_io_put [OF D(2) i] by (simp add: begin_writeback_def put_def)
    have sl: "sl ?c j = (if j = i then (sl c i)\<lparr>state := InFlight\<rparr> else sl c j)" if "j < SLOTS" for j
      using that by (simp add: put_sl len)
    have ok: "btable_ok ?c"
      using put_same_key [OF D(2) i(1), of "(sl c i)\<lparr>state := InFlight\<rparr>"] i(2) by (simp add: slot_ok_def)
    have ack: "acknowledge (acts m a) ?p (latest m) = latest m" using a(2) by simp
    have "bm_inv N (run_to m a ?p (Some ?c)) ?c"
    proof (rule bm_inv_slot [OF inv a(1) i(1), of _ _ ?p ?k])
      have "lookup (table ?c) ?k = Some i"
        using lookup_slot [OF ok] i sl [OF i(1)] by simp
      then show "lookup (table ?c) ?k = None \<Longrightarrow> on_disk (run_to m a ?p (Some ?c)) ?k = latest (run_to m a ?p (Some ?c)) ?k" by simp
      show "owned (acts m b) \<noteq> Some i" if "b < N" for b
        using owned_good [OF D(5) [OF that], of i] i(2) by auto
    qed (use ok a(2) i g q sl ack in \<open>auto simp: on_disk_def slot_good_def wb_good_def\<close>)
    then have "step_good N (run_to m a ?p (Some ?c)) c" by (rule step_goodI [of _ _ _ i]) (use sl in auto)
    then show ?thesis using a(2) D(1) bw by simp
  qed
qed

lemma run_other:
  assumes inv: "bm_inv N m c" and a: "a < N"
    and p: "\<And>k st fl. acts m a \<noteq> Reading k st fl" "\<And>k data io pn fl. acts m a \<noteq> Writing k data io pn fl" "\<And>i q. acts m a \<noteq> Write_back i q"
  shows "\<exists>p g. bc_step now (acts m a) (guard m) = Some (p, g) \<and> step_good N (run_to m a p g) c"
proof -
  note D = bm_invD [OF inv] and act = step_act' [OF inv a p(2)]
  have good: "pc_good m c (acts m a)" by (rule D(5) [OF a])
  show ?thesis
  proof (cases "acts m a")
    case (Making_room q)
    then show ?thesis using D(1) good act by (auto split: option.splits)
  next
    case (Wb_submit w q)
    then obtain token where t: "wb_token w = Some token" "tok_slot token < SLOTS" "state (sl c (tok_slot token)) = InFlight"
      "key (sl c (tok_slot token)) = wb_key w" "\<not> filling c (tok_slot token)" "cont_good q"
      using good by (auto simp: wb_good_def)
    then have "valid (wb_key w)" "frame c (tok_slot token) = latest m (wb_key w)"
      using D(3) [OF t(2)] by (auto simp: slot_good_def)
    then show ?thesis
      using Wb_submit D(1) t good by (auto simp: valid_def intro!: act)
  next
    case (Syncing owed failed failure idle)
    then show ?thesis using D(1) by (auto simp: unsynced_mask_def Let_def intro!: act)
  next
    case (Sync_round owed failed failure idle pend acted)
    then show ?thesis using D(1) by (auto simp: Let_def intro!: act)
  qed (use p D(1) good act [OF good] in auto)
qed

lemma run_good:
  assumes "bm_inv N m c" "a < N" "N < 2 ^ 32"
  shows "\<exists>p g. bc_step now (acts m a) (guard m) = Some (p, g) \<and> step_good N (run_to m a p g) c"
  using run_reading [OF assms(1,2,3)] run_writing [OF assms(1,2)] run_write_back [OF assms(1,2)] run_other [OF assms(1,2)] by metis

text \<open>The end of a device request, by the activity that owns the slot.\<close>

lemma owned_ref: "owned p = Some i \<Longrightarrow> ref_of p = None"
  by (cases p) auto

lemma owner_step:
  assumes inv: "bm_inv N m c" and a: "a < N" "owned (acts m a) = Some i"
    and m': "guard m' = Some c'" "acts m' = (acts m)(a := p)" "latest m' = latest m"
      "\<And>q. valid q \<Longrightarrow> q \<noteq> key (sl c i) \<Longrightarrow> on_disk m' q = on_disk m q"
    and c': "btable_ok c'" "\<And>j. j < SLOTS \<Longrightarrow> j \<noteq> i \<Longrightarrow> sl c' j = sl c j \<and> filling c' j = filling c j \<and> frame c' j = frame c j"
      "state (sl c' i) \<noteq> Free \<Longrightarrow> key (sl c' i) = key (sl c i)" "state (sl c' i) = Free \<Longrightarrow> on_disk m' (key (sl c i)) = latest m (key (sl c i))"
    and fills: "filling c i \<or> state (sl c' i) \<noteq> Free \<and> \<not> filling c' i"
    and p: "slot_good m' c' i" "pc_good m' c' p" "\<And>j. owned p = Some j \<Longrightarrow> j = i" "\<And>j. ref_of p = Some j \<Longrightarrow> j = i"
      "unat (pins (sl c' i)) = unat (pins (sl c i)) + (if ref_of p = Some i then 1 else 0)"
  shows "step_good N m' c"
proof -
  note D = bm_invD [OF inv]
  have i: "i < SLOTS" "state (sl c i) = InFlight"
    using owned_good [OF D(5) [OF a(1)] a(2)] by auto
  have r: "ref_of (acts m a) = None" by (rule owned_ref [OF a(2)])
  have "bm_inv N m' c'"
  proof (rule bm_inv_slot [OF inv a(1) i(1) m'(1,2) c'(1), of "key (sl c i)"])
    show "lookup (table c') (key (sl c i)) = None \<Longrightarrow> on_disk m' (key (sl c i)) = latest m' (key (sl c i))"
      using lookup_absent [OF c'(1)] i(1) c'(3,4) m'(3) by metis
    show "owned (acts m b) \<noteq> Some i" if "b < N" "b \<noteq> a" for b
      using D(6) [OF that(1) a(1)] a(2) that(2) by blast
    show "state (sl c' i) \<noteq> Free \<and> key (sl c i) = key (sl c i) \<and> \<not> filling c' i" if "b < N" "ref_of (acts m b) = Some i" for b
      using D(5) [OF that(1)] that(2) fills by (cases "acts m b") auto
    show "ref_of p = Some j \<longleftrightarrow> ref_of (acts m a) = Some j" if "j \<noteq> i" for j
      using that p(4) r by (cases p) auto
  qed (use i m' c'(2,3) p r in auto)
  then show ?thesis by (rule step_goodI [of _ _ _ i]) (use c'(2) in auto)
qed

lemma end_io_put:
  assumes "btable_ok c" "tok_slot t < SLOTS" "state (sl c (tok_slot t)) = InFlight" "\<not> dirtied_during_io (sl c (tok_slot t))" "st \<noteq> Free"
  shows "end_io (table c) t st = Some (table (put c (tok_slot t) ((sl c (tok_slot t))\<lparr>state := st\<rparr>)))"
proof -
  have eq: "(sl c (tok_slot t))\<lparr>dirtied_during_io := False, state := st\<rparr> = (sl c (tok_slot t))\<lparr>state := st\<rparr>"
    using assms(4) by (cases "sl c (tok_slot t)") simp
  show ?thesis using assms by (simp add: end_io_Some put_def btable_ok_def eq)
qed

lemma evict_put:
  assumes "btable_ok c" "i < SLOTS" "reusable (sl c i)"
  shows "evict (table c) i = Some (Inr (), table (put c i slot_empty))"
  using assms by (simp add: evict_ok_Some put_def btable_ok_def)

lemma put_put [simp]: "put (put c i s) i s' = put c i s'"
  by (simp add: put_def)

lemma fill_unpinned:
  assumes "bm_inv N m c" "i < SLOTS" "filling c i"
  shows "pins (sl c i) = 0"
proof -
  have "ref_of (acts m b) \<noteq> Some i" if "b < N" for b
    using bm_invD(5) [OF assms(1) that] assms(3) by (cases "acts m b") auto
  then have "holders N (acts m) i = {}" by (auto simp: holders_def)
  then show ?thesis using bm_invD(7) [OF assms(1,2)] by (simp add: unat_eq_zero)
qed

text \<open>What a fill knows of its slot.\<close>

lemma fill_slot:
  assumes "bm_inv N m c" "a < N" "acts m a = Fill_io k f got"
  obtains t where "fill_token f = Some t" "tok_slot t < SLOTS" "state (sl c (tok_slot t)) = InFlight" "key (sl c (tok_slot t)) = k"
    "filling c (tok_slot t)" "valid k" "on_disk m k = latest m k" "\<not> dirtied_during_io (sl c (tok_slot t))" "pins (sl c (tok_slot t)) = 0"
    "owned (acts m a) = Some (tok_slot t)" "\<forall>bs. got = Some bs \<longrightarrow> bs = latest m k"
proof -
  note D = bm_invD [OF assms(1)]
  obtain t where t: "fill_token f = Some t" "tok_slot t < SLOTS" "state (sl c (tok_slot t)) = InFlight" "key (sl c (tok_slot t)) = k"
    "filling c (tok_slot t)" "\<forall>bs. got = Some bs \<longrightarrow> bs = latest m k"
    using D(5) [OF assms(2)] assms(3) by auto
  have g: "valid k" "on_disk m k = latest m k" "\<not> dirtied_during_io (sl c (tok_slot t))"
    using D(3) [OF t(2)] t(3-5) by (auto simp: slot_good_def)
  show thesis
    by (rule that [OF t(1-5) g fill_unpinned [OF assms(1) t(2,5)] _ t(6)]) (use assms(3) t(1) in auto)
qed

lemma wb_slot:
  assumes "bm_inv N m c" "a < N" "acts m a = Wb_submit w p \<or> acts m a = Wb_io w bs landed p"
  obtains t where "wb_token w = Some t" "tok_slot t < SLOTS" "state (sl c (tok_slot t)) = InFlight" "key (sl c (tok_slot t)) = wb_key w"
    "\<not> filling c (tok_slot t)" "valid (wb_key w)" "frame c (tok_slot t) = latest m (wb_key w)" "\<not> dirtied_during_io (sl c (tok_slot t))"
    "owned (acts m a) = Some (tok_slot t)" "cont_good p"
proof -
  note D = bm_invD [OF assms(1)]
  have w: "wb_good c w" "cont_good p" using D(5) [OF assms(2)] assms(3) by auto
  then obtain t where t: "wb_token w = Some t" "tok_slot t < SLOTS" "state (sl c (tok_slot t)) = InFlight" "key (sl c (tok_slot t)) = wb_key w"
    "\<not> filling c (tok_slot t)"
    by (auto simp: wb_good_def)
  have g: "valid (wb_key w)" "frame c (tok_slot t) = latest m (wb_key w)" "\<not> dirtied_during_io (sl c (tok_slot t))"
    using D(3) [OF t(2)] t(3-5) by (auto simp: slot_good_def)
  show thesis
    by (rule that [OF t g _ w(2)]) (use assms(3) t(1) in auto)
qed

definition goes :: "bmachine \<Rightarrow> nat \<Rightarrow> bc_pc \<Rightarrow> bcache option \<Rightarrow> bmachine" where
  "goes m a p g = m\<lparr>guard := g, acts := (acts m)(a := p)\<rparr>"

lemma goes_fields [simp]:
  "guard (goes m a p g) = g" "acts (goes m a p g) = (acts m)(a := p)" "disk (goes m a p g) = disk m" "latest (goes m a p g) = latest m"
  "on_disk (goes m a p g) k = on_disk m k"
  by (simp_all add: goes_def on_disk_def)

text \<open>What the end of a fill leaves.\<close>

definition fill_end :: "bcache \<Rightarrow> usize \<Rightarrow> slot \<Rightarrow> bytes \<Rightarrow> bcache" where
  "fill_end c i s bs = c\<lparr>frame := (frame c)(i := bs), filling := (filling c)(i := False), table := table (put c i s)\<rparr>"

lemma fill_end_fields [simp]:
  "frame (fill_end c i s bs) = (frame c)(i := bs)" "filling (fill_end c i s bs) = (filling c)(i := False)"
  "table (fill_end c i s bs) = table (put c i s)"
  by (simp_all add: fill_end_def)

text \<open>A slot given up by its fill is free again, and the block is still on the disk.\<close>

lemma released_fill:
  assumes inv: "bm_inv N m c" and a: "a < N" "acts m a = Fill_io k f got" "fill_token f = Some t"
    and p: "owned p = None" "ref_of p = None" "\<And>m' c'. pc_good m' c' p"
  shows "step_good N (goes m a p (Some (fill_end c (tok_slot t) slot_empty bs))) c"
proof -
  note D = bm_invD [OF inv]
  obtain t' where t': "fill_token f = Some t'" "tok_slot t' < SLOTS" "state (sl c (tok_slot t')) = InFlight" "key (sl c (tok_slot t')) = k"
    "filling c (tok_slot t')" "valid k" "on_disk m k = latest m k" "pins (sl c (tok_slot t')) = 0" "owned (acts m a) = Some (tok_slot t')"
    by (rule fill_slot [OF inv a(1,2)])
  have t: "t' = t" using t'(1) a(3) by simp
  let ?i = "tok_slot t"
  let ?c = "fill_end c ?i slot_empty bs"
  have ok: "btable_ok ?c" using put_released [OF D(2), of ?i] t'(2) t by (simp add: btable_ok_def)
  have sl: "sl ?c j = (if j = ?i then slot_empty else sl c j)" if "j < SLOTS" for j
    using that D(2) by (simp add: put_sl btable_ok_def)
  show ?thesis
    by (rule owner_step [OF inv a(1), of ?i _ ?c p])
      (use t' t ok sl p in \<open>auto simp: slot_good_def slot_empty_def\<close>)
qed

lemma filled_good:
  assumes inv: "bm_inv N m c" and a: "a < N" "N < 2 ^ 32" "acts m a = Fill_io k f got" "isl outcome \<or> got = Some bs"
  shows "\<exists>p g. fill_done k f outcome bs (guard m) = Some (p, g) \<and> step_good N (goes m a p g) c"
proof -
  note D = bm_invD [OF inv]
  obtain t where t: "fill_token f = Some t" "tok_slot t < SLOTS" "state (sl c (tok_slot t)) = InFlight" "key (sl c (tok_slot t)) = k"
    "filling c (tok_slot t)" "valid k" "on_disk m k = latest m k" "\<not> dirtied_during_io (sl c (tok_slot t))" "pins (sl c (tok_slot t)) = 0"
    "owned (acts m a) = Some (tok_slot t)" "\<forall>bs. got = Some bs \<longrightarrow> bs = latest m k"
    by (rule fill_slot [OF inv a(1,3)])
  let ?i = "tok_slot t" and ?s = "(sl c (tok_slot t))\<lparr>state := Clean\<rparr>"
  have len: "length (slots (table c)) = SLOTS" using D(2) by (simp add: btable_ok_def)
  have ok: "btable_ok (put c ?i ?s)"
    using t(3,8) by (intro put_same_key [OF D(2) t(2)]) (auto simp: slot_ok_def)
  have e: "end_io (table c) t Clean = Some (table (put c ?i ?s))"
    by (rule end_io_put [OF D(2) t(2,3,8)]) simp
  have s: "sl (put c ?i ?s) ?i = ?s" using t(2) by (simp add: put_sl len)
  show ?thesis
  proof (cases "isl outcome")
    case True
    let ?c = "fill_end c ?i slot_empty bs"
    have "evict (table (put c ?i ?s)) ?i = Some (Inr (), table (put c ?i slot_empty))"
      using evict_put [OF ok t(2)] s t(9) by (simp add: reusable_def)
    moreover have "state_of (table (put c ?i ?s)) ?i = Some Clean"
      using state_of_sl(1) [OF ok t(2)] s by simp
    ultimately have "fill_done k f outcome bs (Some c) = Some (Returned (Inl (Device (projl outcome))), Some ?c)"
      using True t(1) e by (simp add: fill_done_def finish_fill_def fill_end_def put_def Let_def)
    moreover have "step_good N (goes m a (Returned (Inl (Device (projl outcome)))) (Some ?c)) c"
      by (rule released_fill [OF inv a(1,3) t(1)]) simp_all
    ultimately show ?thesis using D(1) by simp
  next
    case False
    then have bs: "bs = latest m k" using a(4) t(11) by blast
    let ?s' = "?s\<lparr>pins := pins ?s + 1\<rparr>"
    let ?c = "fill_end c ?i ?s' bs" and ?p = "Held k \<lparr>ref_slot = ?i\<rparr>"
    have "pin (table (put c ?i ?s)) ?i = Some (table (put c ?i ?s'))"
      using pin_put [OF ok t(2)] s by simp
    then have fd: "fill_done k f outcome bs (Some c) = Some (?p, Some ?c)"
      using False t(1) e by (simp add: fill_done_def finish_fill_def fill_end_def put_def Let_def)
    have ok': "btable_ok ?c"
      using put_same_key [OF ok t(2), of ?s'] s t(8) by (simp add: btable_ok_def slot_ok_def)
    have sl: "sl ?c j = (if j = ?i then ?s' else sl c j)" if "j < SLOTS" for j
      using that by (simp add: put_sl len)
    have "step_good N (goes m a ?p (Some ?c)) c"
      by (rule owner_step [OF inv a(1) t(10), of _ ?c ?p])
        (use t(2-9) bs ok' sl in \<open>auto simp: slot_good_def\<close>)
    then show ?thesis using fd D(1) by simp
  qed
qed

text \<open>The device changes one block of the disk.\<close>

lemma lba_inj: "valid k \<Longrightarrow> valid q \<Longrightarrow> projr (lba_of k) = projr (lba_of q) \<Longrightarrow> k = q"
proof -
  assume v: "valid k" "valid q" "projr (lba_of k) = projr (lba_of q)"
  have lba: "\<exists>l. lba_of x = Inr l \<and> unat l = 8 * unat (block x)" if "valid x" for x
    using that by (auto simp: valid_def lba_of_def checked_mul_def SECTORS_PER_BLOCK_def unat_word_ariths split: if_splits)
  have "unat (block k) = unat (block q)"
    using lba [OF v(1)] lba [OF v(2)] v(3) by auto
  then show "k = q"
    using v(1,2) by (simp add: valid_def word_unat_eq_iff)
qed

lemma device_good:
  assumes inv: "bm_inv N m c" and a: "a < N" "acts m a = Wb_io w bs landed p"
    and x: "x = bs \<or> \<not> l"
  shows "step_good N (m\<lparr>disk := (disk m)(projr (lba_of (wb_key w)) := x), acts := (acts m)(a := Wb_io w bs l p)\<rparr>) c"
proof -
  note D = bm_invD [OF inv]
  obtain t where t: "wb_token w = Some t" "tok_slot t < SLOTS" "state (sl c (tok_slot t)) = InFlight" "key (sl c (tok_slot t)) = wb_key w"
    "\<not> filling c (tok_slot t)" "valid (wb_key w)" "frame c (tok_slot t) = latest m (wb_key w)" "\<not> dirtied_during_io (sl c (tok_slot t))"
    "owned (acts m a) = Some (tok_slot t)" "cont_good p"
    by (rule wb_slot [OF inv a(1) disjI2 [OF a(2)]])
  have "bs = latest m (wb_key w)" using D(5) [OF a(1)] a(2) by simp
  moreover have "wb_good c w" using t by (auto simp: wb_good_def)
  ultimately show ?thesis
    by (intro owner_step [OF inv a(1) t(9), of _ c "Wb_io w bs l p"])
      (use t D(1,2) x lba_inj [OF _ t(6)] in \<open>auto simp: slot_good_def on_disk_def\<close>)
qed

lemma writeback_ended:
  assumes inv: "bm_inv N m c" and a: "a < N" "acts m a = Wb_submit w q \<or> acts m a = Wb_io w bs landed q" "wb_token w = Some t"
    and st: "st = Dirty \<or> st = Clean \<and> on_disk m (wb_key w) = latest m (wb_key w)"
    and p: "owned p = None" "ref_of p = None" "\<And>m' c'. pc_good m' c' p"
  shows "step_good N (goes m a p (Some ((put c (tok_slot t) ((sl c (tok_slot t))\<lparr>state := st\<rparr>))\<lparr>writeback_failed := wbf\<rparr>))) c"
    "end_io (table c) t st = Some (table (put c (tok_slot t) ((sl c (tok_slot t))\<lparr>state := st\<rparr>)))"
proof -
  note D = bm_invD [OF inv]
  obtain t' where t': "wb_token w = Some t'" "tok_slot t' < SLOTS" "state (sl c (tok_slot t')) = InFlight" "key (sl c (tok_slot t')) = wb_key w"
    "\<not> filling c (tok_slot t')" "valid (wb_key w)" "frame c (tok_slot t') = latest m (wb_key w)" "\<not> dirtied_during_io (sl c (tok_slot t'))"
    "owned (acts m a) = Some (tok_slot t')"
    by (rule wb_slot [OF inv a(1,2)])
  have t: "t' = t" using t'(1) a(3) by simp
  let ?i = "tok_slot t" and ?s = "(sl c (tok_slot t))\<lparr>state := st\<rparr>"
  let ?c = "(put c ?i ?s)\<lparr>writeback_failed := wbf\<rparr>"
  show "end_io (table c) t st = Some (table (put c ?i ?s))"
    by (rule end_io_put [OF D(2)]) (use t' t st in auto)
  have ok: "btable_ok ?c"
    using put_same_key [OF D(2), of ?i ?s] t' t st by (auto simp: btable_ok_def slot_ok_def)
  have sl: "sl ?c j = (if j = ?i then ?s else sl c j)" if "j < SLOTS" for j
    using that D(2) by (simp add: put_sl btable_ok_def)
  show "step_good N (goes m a p (Some ?c)) c"
    by (rule owner_step [OF inv a(1), of ?i _ ?c p])
      (use t' t ok sl st p in \<open>auto simp: slot_good_def\<close>)
qed

lemma cont_resume_any: "cont_good p \<Longrightarrow> pc_good m c (resume p i r)"
  using cont_resume by blast

lemma wrote_good:
  assumes inv: "bm_inv N m c" and a: "a < N" "acts m a = Wb_io w bs landed q" "isl outcome \<or> landed"
  shows "\<exists>p g. wb_done w outcome q (guard m) = Some (p, g) \<and> step_good N (goes m a p g) c"
proof -
  note D = bm_invD [OF inv]
  obtain t where t: "wb_token w = Some t" "cont_good q"
    by (rule wb_slot [OF inv a(1) disjI2 [OF a(2)]])
  let ?st = "if isl outcome then Dirty else Clean" and ?p = "resume q (tok_slot t) (Some outcome)"
  have st: "?st = Dirty \<or> ?st = Clean \<and> on_disk m (wb_key w) = latest m (wb_key w)"
    using D(5) [OF a(1)] a(2,3) by auto
  have p: "owned ?p = None" "ref_of ?p = None" "pc_good m' c' ?p" for m' c'
    using cont_resume [OF t(2)] by auto
  note E = writeback_ended [OF inv a(1) disjI2 [OF a(2)] t(1) st p]
  have "wb_done w outcome q (Some c) = Some (?p, Some ((put c (tok_slot t) ((sl c (tok_slot t))\<lparr>state := ?st\<rparr>))\<lparr>writeback_failed := (writeback_failed c)(tok_slot t := isl outcome)\<rparr>))"
    using t(1) E(2) by (cases "isl outcome") (simp_all add: wb_done_def finish_writeback_def put_def)
  then show ?thesis using D(1) E(1) by auto
qed

lemma drop_good:
  assumes inv: "bm_inv N m c" and a: "a < N"
  shows "\<exists>g. drop_pc (acts m a) (guard m) = Some g \<and> step_good N (goes m a Dropped g) c"
proof -
  note D = bm_invD [OF inv]
  have wb: ?thesis if at: "acts m a = Wb_submit w q \<or> acts m a = Wb_io w bs landed q" for w q bs landed
  proof -
    obtain t where t: "wb_token w = Some t" by (rule wb_slot [OF inv a at])
    note E = writeback_ended(1) [OF inv a at t, where st = Dirty and p = Dropped and wbf = "writeback_failed c", simplified]
      writeback_ended(2) [OF inv a at t, where st = Dirty and p = Dropped, simplified]
    have "drop_writeback w (Some c) = Some (Some (put c (tok_slot t) ((sl c (tok_slot t))\<lparr>state := Dirty\<rparr>)))"
      using t E(2) by (simp add: drop_writeback_def put_def)
    then show ?thesis using at D(1) E(1) by (auto simp: put_def)
  qed
  show ?thesis
  proof (cases "acts m a")
    case (Held k b)
    let ?i = "ref_slot b"
    have h: "?i < SLOTS" "state (sl c ?i) \<noteq> Free" using D(5) [OF a] Held by auto
    have "a \<in> holders N (acts m) ?i" using a Held by (simp add: holders_def)
    then have "card (holders N (acts m) ?i) > 0"
      by (metis card_gt_0_iff empty_iff finite_Collect_conjI finite_Collect_less_nat holders_def)
    then have pos: "unat (pins (sl c ?i)) > 0" using D(7) [OF h(1)] by simp
    then have gt: "0 < pins (sl c ?i)" by (simp add: word_less_nat_alt)
    have "unat (pins (sl c ?i) - 1) = unat (pins (sl c ?i)) - 1"
    proof -
      have "1 \<le> pins (sl c ?i)" using pos by (simp add: word_le_nat_alt)
      then show ?thesis by (simp add: unat_sub)
    qed
    then have "bm_inv N (goes m a Dropped (Some (put c ?i ((sl c ?i)\<lparr>pins := pins (sl c ?i) - 1\<rparr>)))) (put c ?i ((sl c ?i)\<lparr>pins := pins (sl c ?i) - 1\<rparr>))"
      using Held pos by (intro bm_inv_pins [OF inv a h, of _ _ Dropped]) auto
    then have "step_good N (goes m a Dropped (Some (put c ?i ((sl c ?i)\<lparr>pins := pins (sl c ?i) - 1\<rparr>)))) c"
      by (rule step_goodI [of _ _ _ ?i]) (use D(2) in \<open>auto simp: put_sl btable_ok_def\<close>)
    moreover have "unpin (table c) ?i = Some (table (put c ?i ((sl c ?i)\<lparr>pins := pins (sl c ?i) - 1\<rparr>)))"
      unfolding unpin_Some using h gt D(2) by (simp add: put_def btable_ok_def)
    then have "drop_ref b (Some c) = Some (Some (put c ?i ((sl c ?i)\<lparr>pins := pins (sl c ?i) - 1\<rparr>)))"
      by (simp add: drop_ref_def put_def)
    ultimately show ?thesis using Held D(1) by simp
  next
    case (Fill_io k f got)
    obtain t where t: "fill_token f = Some t" "tok_slot t < SLOTS" "state (sl c (tok_slot t)) = InFlight"
      "\<not> dirtied_during_io (sl c (tok_slot t))" "pins (sl c (tok_slot t)) = 0"
      by (rule fill_slot [OF inv a Fill_io])
    let ?i = "tok_slot t" and ?s = "(sl c (tok_slot t))\<lparr>state := Clean\<rparr>"
    have ok: "btable_ok (put c ?i ?s)"
      using t by (intro put_same_key [OF D(2) t(2)]) (auto simp: slot_ok_def)
    have "end_io (table c) t Clean = Some (table (put c ?i ?s))"
      by (rule end_io_put [OF D(2) t(2,3,4)]) simp
    moreover have "evict (table (put c ?i ?s)) ?i = Some (Inr (), table (put c ?i slot_empty))"
      using evict_put [OF ok t(2)] t(2,5) D(2) by (simp add: put_sl btable_ok_def reusable_def)
    ultimately have "drop_fill f (Some c) = Some (Some (fill_end c ?i slot_empty (frame c ?i)))"
      using t(1) by (cases c) (simp add: drop_fill_def fill_end_def put_def Let_def)
    moreover have "step_good N (goes m a Dropped (Some (fill_end c ?i slot_empty (frame c ?i)))) c"
      by (rule released_fill [OF inv a Fill_io t(1)]) simp_all
    ultimately show ?thesis using Fill_io D(1) by auto
  next
    case (Wb_submit w q)
    then show ?thesis using wb by blast
  next
    case (Wb_io w bs landed q)
    then show ?thesis using wb by blast
  qed (use D(1) bm_inv_act [OF inv a, of "goes m a Dropped (Some c)" Dropped] in \<open>auto intro!: step_goodI [of _ _ c]\<close>)
qed

section \<open>Every step\<close>

lemma step_good_observe [simp]: "step_good N (observe m) c = step_good N m c"
  by (simp add: step_good_def)

lemma step_good_ghost: "step_good N m c \<Longrightarrow> step_good N (m\<lparr>reached := r, abandoned := x\<rparr>) c" for r x
proof -
  have good: "pc_good (m\<lparr>reached := r, abandoned := x\<rparr>) c' p = pc_good m c' p" for c' p
    by (cases p) (auto simp: on_disk_def)
  show "step_good N m c \<Longrightarrow> ?thesis"
    by (simp add: step_good_def bm_inv_def slot_good_def on_disk_def good)
qed

lemma idle_pc: "is_idle p \<Longrightarrow> owned p = None \<and> ref_of p = None"
  by (cases p) auto

lemma started_good:
  assumes "bm_inv N m c" "a < N" "is_idle (acts m a)" "pc_good m c p" "owned p = None" "ref_of p = None"
  shows "step_good N (m\<lparr>acts := (acts m)(a := p)\<rparr>) c"
proof -
  have "pc_good (m\<lparr>acts := (acts m)(a := p)\<rparr>) c p"
    using assms(4) by (cases p) (auto simp: on_disk_def)
  then have "bm_inv N (m\<lparr>acts := (acts m)(a := p)\<rparr>) c"
    using assms idle_pc [OF assms(3)] bm_invD(1) [OF assms(1)] by (intro bm_inv_act [OF assms(1,2), of _ p]) auto
  then show ?thesis by (rule step_goodI) simp
qed

lemma entry_pcs:
  "pc_good m c (read_block now k)" "owned (read_block now k) = None" "ref_of (read_block now k) = None"
  "pc_good m c (write_block k data)" "owned (write_block k data) = None" "ref_of (write_block k data) = None"
  "pc_good m c (sync g)" "owned (sync g) = None" "ref_of (sync g) = None"
  by (auto simp: read_block_def write_block_def sync_def valid_def split: sum.splits)

lemma bm_step_good:
  assumes "bm_step N False m m'" "bm_inv N m c" "N < 2 ^ 32"
  shows "step_good N m' c"
  using assms(1)
proof cases
  case (Read a now k)
  then show ?thesis using started_good [OF assms(2)] entry_pcs(1-3) by simp
next
  case (Write a k data)
  then show ?thesis using started_good [OF assms(2)] entry_pcs(4-6) by simp
next
  case (Sync a)
  then show ?thesis
    using step_good_ghost [OF started_good [OF assms(2) Sync(2,3) entry_pcs(7) [of m c "guard m"] entry_pcs(8,9)],
        where r = "(reached m)(a := written m)" and x = "abandoned m"] by simp
next
  case (Run a now p g)
  then show ?thesis using run_good [OF assms(2) Run(2) assms(3), of now] by (simp add: run_to_def)
next
  case (Device_read a k f got)
  have "pc_good m c (Fill_io k f (Some (on_disk m k)))"
    using bm_invD(5) [OF assms(2) Device_read(2)] Device_read(3) fill_slot [OF assms(2) Device_read(2,3)] by auto
  then have "step_good N (goes m a (Fill_io k f (Some (on_disk m k))) (Some c)) c"
    using bm_inv_act [OF assms(2) Device_read(2), of "goes m a (Fill_io k f (Some (on_disk m k))) (Some c)" "Fill_io k f (Some (on_disk m k))"] Device_read(3)
    by (auto intro!: step_goodI [of _ _ c])
  moreover have "goes m a (Fill_io k f (Some (on_disk m k))) (Some c) = m'"
    using Device_read(1) bm_invD(1) [OF assms(2)] by (cases m) (simp add: goes_def on_disk_def)
  ultimately show ?thesis by simp
next
  case (Filled a k f got outcome bs p g)
  then show ?thesis using filled_good [OF assms(2) Filled(2) assms(3) Filled(3,4)] by (auto simp: goes_def)
next
  case (Device_write a w bs landed p)
  then show ?thesis using device_good [OF assms(2) Device_write(2,3)] by simp
next
  case (Device_tear a w bs landed p garbage)
  then show ?thesis using device_good [OF assms(2) Device_tear(2,3), of garbage False] by simp
next
  case (Wrote a w bs landed q outcome p g)
  then have "step_good N (goes m a p g) c" using wrote_good [OF assms(2) Wrote(2-4)] by auto
  then show ?thesis
    using Wrote(1) step_good_ghost [where N = N and m = "goes m a p g" and c = c and r = "reached m" and x = "abandoned m \<union> (if outcome = Inl Timeout then left_behind (acts m a) else {})"] by (simp add: goes_def)
next
  case (Drop a g)
  then have "step_good N (goes m a Dropped g) c" using drop_good [OF assms(2) Drop(2)] by auto
  then show ?thesis
    using Drop(1) step_good_ghost [where N = N and m = "goes m a Dropped g" and c = c and r = "reached m" and x = "abandoned m \<union> left_behind (acts m a)"] by (simp add: goes_def)
next
  case (Late_write lba bs)
  then show ?thesis by simp
qed

lemma bm_inv_new: "bm_inv N (bmachine_new d bytes0) (bcache_new bytes0)"
proof (rule bm_invI)
  have sl: "sl (bcache_new bytes0) i = slot_empty" if "i < SLOTS" for i
    using that by (simp add: bcache_new_def cache_new_def)
  show ok: "btable_ok (bcache_new bytes0)"
    using inv_new [of SLOTS] by (simp add: btable_ok_def bcache_new_def cache_new_def)
  show "slot_good (bmachine_new d bytes0) (bcache_new bytes0) i" if "i < SLOTS" for i
    using sl [OF that] by (simp add: slot_good_def slot_empty_def, simp add: bcache_new_def)
  show "unat (pins (sl (bcache_new bytes0) i)) = card (holders N (acts (bmachine_new d bytes0)) i)" if "i < SLOTS" for i
    using sl [OF that] by (simp add: slot_empty_def holders_def bmachine_new_def)
qed (auto simp: bmachine_new_def on_disk_def)

lemma bm_reach_inv:
  assumes "bm_reach N False m" "N < 2 ^ 32"
  shows "\<exists>c. bm_inv N m c"
  using assms(1)
proof induction
  case (New d bytes0)
  then show ?case using bm_inv_new by blast
next
  case (Step m m')
  then show ?case using bm_step_good [OF Step.hyps(2) _ assms(2)] unfolding step_good_def by blast
qed

section \<open>Slot masks\<close>

lemma bit_fold_or: "bit (fold (\<lambda>i m. m OR push_bit i 1) xs (m :: u32)) i \<longleftrightarrow> bit m i \<or> i \<in> set xs \<and> i < 32"
proof (induction xs arbitrary: m)
  case (Cons x xs)
  have "bit (m OR push_bit x 1) i \<longleftrightarrow> bit m i \<or> i = x \<and> i < 32"
    by (auto simp: bit_or_iff bit_exp_iff)
  then show ?case using Cons by auto
qed simp

lemma bit_mask_where: "bit (mask_where P) i \<longleftrightarrow> i < SLOTS \<and> P i"
proof -
  have "i < SLOTS \<Longrightarrow> i < 32" by (simp add: SLOTS_def)
  then show ?thesis unfolding mask_where_def bit_fold_or by auto
qed

end
