(* ===== verification/Kernel_Bcache_Runs.thy ===== *)
theory Kernel_Bcache_Runs
  imports Kernel_Bcache_Inv
begin

text \<open>
  Runs of the buffer cache on one block: a write followed by a \<open>sync\<close>, and a writeback that is given up. They instantiate the
  theorems, and show what a device that writes late does to the cache.
\<close>

section \<open>Example runs\<close>

definition demo_key :: block_key where
  "demo_key = \<lparr>dev = 0, block = 5\<rparr>"

definition demo_cache :: "slot_state \<Rightarrow> bytes \<Rightarrow> bcache" where
  "demo_cache st data = \<lparr>table = \<lparr>slots = \<lparr>key = demo_key, state = st, pins = 0, dirtied_during_io = False\<rparr> # replicate 31 slot_empty\<rparr>,
     frame = (\<lambda>_. [])(0 := data), filling = (\<lambda>_. False), writeback_failed = (\<lambda>_. False)\<rparr>"

lemma demo_new: "bcache_new (\<lambda>_. []) = \<lparr>table = \<lparr>slots = slot_empty # replicate 31 slot_empty\<rparr>,
     frame = (\<lambda>_. []), filling = (\<lambda>_. False), writeback_failed = (\<lambda>_. False)\<rparr>"
  by (simp add: bcache_new_def cache_new_def SLOTS_def numeral_eq_Suc)

lemma position_replicate: "\<not> P x \<Longrightarrow> position P (replicate n x) = None"
  by (induction n) simp_all

lemma same_flag: "(\<lambda>_. False)(i := False) = (\<lambda>_. False)"
  by auto

lemma demo_lba [simp]: "lba_of demo_key = Inr 40"
  by (simp add: lba_of_def checked_mul_def demo_key_def SECTORS_PER_BLOCK_def)

lemma demo_lookup: "st \<noteq> Free \<Longrightarrow> lookup (table (demo_cache st data)) demo_key = Some 0"
  "lookup (table (bcache_new (\<lambda>_. []))) demo_key = None"
  by (simp_all add: demo_cache_def demo_new lookup_def position_replicate slot_empty_def)

lemma demo_store_new: "store demo_key data (Some (bcache_new (\<lambda>_. []))) = Some (Inr (Inr ()), Some (demo_cache Dirty data))"
  by (simp add: store_def demo_lookup claim_free_slot_def insert_block_def)
    (simp add: demo_new demo_cache_def slot_empty_def end_io_def mark_dirty_def with_slot_def slot_get_def same_flag)

lemma demo_store: "store demo_key data (Some (demo_cache Dirty old)) = Some (Inr (Inr ()), Some (demo_cache Dirty data))"
  by (simp add: store_def demo_lookup)
    (simp add: demo_cache_def mark_dirty_def with_slot_def slot_get_def state_of_def pins_of_def same_flag)

lemma demo_begin: "begin_writeback 0 (Some (demo_cache Dirty data)) =
    Some (Some \<lparr>wb_token = Some \<lparr>tok_slot = 0, prior = Dirty\<rparr>, wb_key = demo_key\<rparr>, Some (demo_cache InFlight data))"
  by (simp add: begin_writeback_def begin_io_def demo_cache_def with_slot_def slot_get_def state_of_def key_of_def)

lemma demo_finish: "finish_writeback \<lparr>wb_token = Some \<lparr>tok_slot = 0, prior = Dirty\<rparr>, wb_key = demo_key\<rparr> True (Some (demo_cache InFlight data)) =
    Some (Some (demo_cache Clean data))"
  by (simp add: finish_writeback_def end_io_def demo_cache_def with_slot_def slot_get_def same_flag)

lemma demo_drop: "drop_writeback \<lparr>wb_token = Some \<lparr>tok_slot = 0, prior = Dirty\<rparr>, wb_key = demo_key\<rparr> (Some (demo_cache InFlight data)) =
    Some (Some (demo_cache Dirty data))"
  by (simp add: drop_writeback_def end_io_def demo_cache_def with_slot_def slot_get_def)

lemma demo_state: "state_of (table (demo_cache st data)) i = (if i = 0 then Some st else if i < SLOTS then Some Free else None)"
  by (cases i) (auto simp: demo_cache_def state_of_def slot_get_def slot_empty_def SLOTS_def)

lemma demo_unsynced: "unsynced_mask (Some (demo_cache st data)) = Inr (if st = Dirty \<or> st = InFlight then 1 else 0)"
proof -
  have f: "filling (demo_cache s data) i = False" for s i by (simp add: demo_cache_def)
  show ?thesis
    by (auto simp: unsynced_mask_def demo_state f intro!: bit_word_eqI)
      (auto simp: bit_mask_where f bit_1_iff SLOTS_def split: slot_state.splits if_splits)
qed

text \<open>One activity, on one block: a write, and the first half of a sync.\<close>

definition demo_at :: "bool \<Rightarrow> bmachine \<Rightarrow> bcache \<Rightarrow> bc_pc \<Rightarrow> bytes \<Rightarrow> bytes \<Rightarrow> (u64 \<times> bytes) set \<Rightarrow> bool" where
  "demo_at late m c p x data ab \<longleftrightarrow>
     bm_reach 1 late m \<and> guard m = Some c \<and> acts m 0 = p \<and> disk m 40 = x \<and> latest m demo_key = data \<and> abandoned m = ab"

lemma demo_run:
  assumes "demo_at late m c p x data ab" "bc_step now p (Some c) = Some (q, Some c')" "\<And>l. l demo_key = data \<Longrightarrow> acknowledge p q l demo_key = data'"
  shows "\<exists>m'. demo_at late m' c' q x data' ab"
proof -
  let ?m = "observe (m\<lparr>guard := Some c', acts := (acts m)(0 := q), latest := acknowledge (acts m 0) q (latest m)\<rparr>)"
  have "bm_step 1 late m ?m" using assms(1,2) unfolding demo_at_def by (intro Run [where now = now]) auto
  then have "demo_at late ?m c' q x data' ab"
    using assms bm_reach.Step unfolding demo_at_def observe_def by auto
  then show ?thesis by blast
qed

lemma demo_write:
  assumes "demo_at late m c p x old ab" "is_idle p" "length data = BLOCK_BYTES" "c = bcache_new (\<lambda>_. []) \<or> c = demo_cache Dirty old"
  shows "\<exists>m'. demo_at late m' (demo_cache Dirty data) (Returned (Inr ())) x data ab"
proof -
  let ?p = "Writing demo_key data None None 0"
  have w: "write_block demo_key data = ?p"
    using assms(3) by (simp add: write_block_def) (simp add: demo_key_def ONLY_DEVICE_def)
  have "bm_step 1 late m (m\<lparr>acts := (acts m)(0 := write_block demo_key data)\<rparr>)"
    using assms(1,2) unfolding demo_at_def by (intro Write) auto
  then have "demo_at late (m\<lparr>acts := (acts m)(0 := ?p)\<rparr>) c ?p x old ab"
    using assms(1) bm_reach.Step unfolding demo_at_def w by auto
  then show ?thesis
    by (rule demo_run [where now = 0]) (use assms(4) in \<open>auto simp: demo_store demo_store_new\<close>)
qed

abbreviation "demo_wb \<equiv> \<lparr>wb_token = Some \<lparr>tok_slot = 0, prior = Dirty\<rparr>, wb_key = demo_key\<rparr>"

lemma demo_submit:
  assumes "demo_at late m (demo_cache Dirty data) p x data ab" "is_idle p"
  shows "\<exists>m'. demo_at late m' (demo_cache InFlight data) (Wb_io demo_wb data False (Sync_round 1 0 None 0 0 False)) x data ab"
proof -
  let ?s = "sync (guard m)"
  have s: "?s = Syncing 1 0 None 0"
    using assms(1) by (simp add: demo_at_def sync_def demo_unsynced)
  have "bm_step 1 late m (m\<lparr>acts := (acts m)(0 := ?s), reached := (reached m)(0 := written m)\<rparr>)"
    using assms unfolding demo_at_def by (intro Sync) auto
  then have "\<exists>m. demo_at late m (demo_cache Dirty data) (Syncing 1 0 None 0) x data ab"
    using assms(1) bm_reach.Step unfolding demo_at_def s by fastforce
  then have "\<exists>m. demo_at late m (demo_cache Dirty data) (Sync_round 1 0 None 0 1 False) x data ab"
    by (elim exE demo_run [where now = 0]) (simp_all add: demo_unsynced)
  moreover have "trailing_zeros 32 (1 :: u32) = 0" by (simp add: trailing_zeros_def upt_conv_Cons)
  ultimately have "\<exists>m. demo_at late m (demo_cache Dirty data) (Write_back 0 (Sync_round 1 0 None 0 0 False)) x data ab"
    by (elim exE demo_run [where now = 0]) simp_all
  then have "\<exists>m. demo_at late m (demo_cache InFlight data) (Wb_submit demo_wb (Sync_round 1 0 None 0 0 False)) x data ab"
    by (elim exE demo_run [where now = 0]) (simp_all add: demo_begin)
  then show ?thesis
    by (elim exE demo_run [where now = 0]) (simp_all, simp add: demo_cache_def)
qed

lemma demo_land:
  assumes "demo_at late m (demo_cache InFlight data) (Wb_io demo_wb data False (Sync_round 1 0 None 0 0 False)) x data ab"
  shows "\<exists>m'. demo_at late m' (demo_cache Clean data) (Syncing 1 0 None 0) data data ab"
proof -
  let ?q = "Sync_round 1 0 None 0 0 False"
  let ?m = "observe (m\<lparr>disk := (disk m)(projr (lba_of (wb_key demo_wb)) := data), acts := (acts m)(0 := Wb_io demo_wb data True ?q)\<rparr>)"
  have "bm_step 1 late m ?m"
    using assms unfolding demo_at_def by (intro Device_write) auto
  then have m: "demo_at late ?m (demo_cache InFlight data) (Wb_io demo_wb data True ?q) data data ab"
    using assms bm_reach.Step unfolding demo_at_def observe_def by auto
  let ?m' = "observe (?m\<lparr>guard := Some (demo_cache Clean data), acts := (acts ?m)(0 := Sync_round 1 0 None 0 0 True),
    abandoned := abandoned ?m \<union> (if (Inr () :: block_error + unit) = Inl Timeout then left_behind (acts ?m 0) else {})\<rparr>)"
  have "wb_done demo_wb (Inr ()) ?q (Some (demo_cache InFlight data)) = Some (Sync_round 1 0 None 0 0 True, Some (demo_cache Clean data))"
    by (simp add: wb_done_def demo_finish)
  then have "bm_step 1 late ?m ?m'"
    using m unfolding demo_at_def by (intro Wrote [where w = demo_wb and bs = data and landed = True and q = ?q]) auto
  then have "demo_at late ?m' (demo_cache Clean data) (Sync_round 1 0 None 0 0 True) data data ab"
    using m bm_reach.Step unfolding demo_at_def observe_def by auto
  then show ?thesis
    by (elim demo_run [where now = 0]) simp_all
qed

lemma demo_give_up:
  assumes "demo_at late m (demo_cache InFlight data) (Wb_io demo_wb data False q) x data ab"
  shows "\<exists>m'. demo_at late m' (demo_cache Dirty data) Dropped x data (insert (40, data) ab)"
proof -
  let ?m = "observe (m\<lparr>guard := Some (demo_cache Dirty data), acts := (acts m)(0 := Dropped), abandoned := abandoned m \<union> left_behind (acts m 0)\<rparr>)"
  have "bm_step 1 late m ?m"
    using assms unfolding demo_at_def by (intro Drop) (auto simp: demo_drop)
  then have "demo_at late ?m (demo_cache Dirty data) Dropped x data (insert (40, data) ab)"
    using assms bm_reach.Step unfolding demo_at_def observe_def by auto
  then show ?thesis by blast
qed

lemma demo_start: "demo_at late (bmachine_new (\<lambda>_. []) (\<lambda>_. [])) (bcache_new (\<lambda>_. [])) Dropped [] [] {}"
  using bm_reach.New [of 1 late "\<lambda>_. []" "\<lambda>_. []"] by (simp add: demo_at_def bmachine_new_def)

lemma demo_sync:
  assumes "length data = BLOCK_BYTES" "demo_at late m c p x old ab" "is_idle p" "c = bcache_new (\<lambda>_. []) \<or> c = demo_cache Dirty old"
  shows "\<exists>m'. demo_at late m' (demo_cache Clean data) (Syncing 1 0 None 0) data data ab"
proof -
  obtain m1 where "demo_at late m1 (demo_cache Dirty data) (Returned (Inr ())) x data ab"
    using demo_write [OF assms(2,3,1,4)] by blast
  then obtain m2 where "demo_at late m2 (demo_cache InFlight data) (Wb_io demo_wb data False (Sync_round 1 0 None 0 0 False)) x data ab"
    using demo_submit by fastforce
  then show ?thesis by (rule demo_land)
qed

text \<open>A device that carries out a write the driver has given up undoes a later write of the block, after a \<open>sync\<close>
  reported that later write durable: the slot is clean, so nothing writes the block again, and the next fill reads the
  old bytes.\<close>

lemma late_write_lost:
  assumes "length old = BLOCK_BYTES" "length new = BLOCK_BYTES"
  shows "\<exists>m. bm_reach 1 True m \<and> acts m 0 = Returned (Inr ()) \<and> latest m demo_key = new \<and> on_disk m demo_key = old \<and>
    guard m = Some (demo_cache Clean new)"
proof -
  obtain m1 where "demo_at True m1 (demo_cache Dirty old) (Returned (Inr ())) [] old {}"
    using demo_write [OF demo_start _ assms(1)] by auto
  then obtain m2 where "demo_at True m2 (demo_cache InFlight old) (Wb_io demo_wb old False (Sync_round 1 0 None 0 0 False)) [] old {}"
    using demo_submit by fastforce
  then obtain m3 where "demo_at True m3 (demo_cache Dirty old) Dropped [] old {(40, old)}"
    using demo_give_up by blast
  then obtain m4 where "demo_at True m4 (demo_cache Clean new) (Syncing 1 0 None 0) new new {(40, old)}"
    using demo_sync [OF assms(2)] by fastforce
  then obtain m5 where m5: "demo_at True m5 (demo_cache Clean new) (Returned (Inr ())) new new {(40, old)}"
    using demo_run [of True m4 _ _ _ _ _ 0] by (fastforce simp: demo_unsynced)
  have "bm_step 1 True m5 (observe (m5\<lparr>disk := (disk m5)(40 := old)\<rparr>))"
    using m5 unfolding demo_at_def by (intro Late_write) auto
  then have "bm_reach 1 True (observe (m5\<lparr>disk := (disk m5)(40 := old)\<rparr>))"
    using m5 bm_reach.Step unfolding demo_at_def by blast
  then show ?thesis
    using m5 unfolding demo_at_def observe_def by (intro exI [of _ "observe (m5\<lparr>disk := (disk m5)(40 := old)\<rparr>)"]) (auto simp: on_disk_def observe_def)
qed

end
