(* ===== verification/Kernel_Bcache_Safety.thy ===== *)
theory Kernel_Bcache_Safety
  imports Kernel_Bcache_Runs
begin

text \<open>
  The theorems about every run of the buffer cache: coherence of reads, and durability of \<open>sync\<close>.
\<close>

section \<open>Coherence\<close>





section \<open>Durability\<close>


text \<open>The sync an activity is in the middle of: what it owes, what it failed to write and the error it will report.\<close>

fun sync_of :: "bc_pc \<Rightarrow> (u32 \<times> u32 \<times> bcache_error option) option" where
  "sync_of (Syncing owed failed failure idle) = Some (owed, failed, failure)"
| "sync_of (Sync_round owed failed failure idle pend acted) = Some (owed, failed, failure)"
| "sync_of (Write_back i p) = sync_of p"
| "sync_of (Wb_submit w p) = sync_of p"
| "sync_of (Wb_io w bs landed p) = sync_of p"
| "sync_of p = None"



text \<open>A step leaves a sync what it owes, and an error is recorded with every failed slot.\<close>

definition sync_kept :: "bc_pc \<Rightarrow> bc_pc \<Rightarrow> bool" where
  "sync_kept p q \<longleftrightarrow> (\<forall>owed failed failure. sync_of q = Some (owed, failed, failure) \<longrightarrow>
     (\<exists>failed' failure'. sync_of p = Some (owed, failed', failure') \<and> ((failure' = None \<longrightarrow> failed' = 0) \<longrightarrow> failure = None \<longrightarrow> failed = 0)))"

lemma sync_kept_refl [simp]: "sync_kept p p" "sync_of q = None \<Longrightarrow> sync_kept p q"
  by (simp_all add: sync_kept_def)










lemma observe_fields [simp]:
  "guard (observe m) = guard m" "acts (observe m) = acts m" "latest (observe m) = latest m" "disk (observe m) = disk m"
  "reached (observe m) b = reached m b \<union> written m" "written (observe m) = written m"
  by (simp_all add: observe_def written_def on_disk_def)








end
