(* ===== verification/Sched_Queue.thy ===== *)
theory Sched_Queue
  imports Qunix_Prelude "HOL-Library.Multiset"
begin

text \<open>
  Scheduling policy, crate \<open>qunix-sched\<close>: the per-CPU run queue (\<open>lib.rs\<close>) and the park/wake
  state of a thread (\<open>park.rs\<close>). The run queue is three FIFO bands served in strict priority
  order; the interface \<open>service_order\<close> states what a scheduler may rely on, and the liveness
  of a queued thread is proved there once, for every implementation of the interface.
\<close>

section \<open>Run queue\<close>

type_synonym thread_id = u64

datatype priority = Idle | Normal | High

text \<open>\<open>Priority as usize\<close>; the derived \<open>Ord\<close> is the order of these discriminants.\<close>

fun band :: "priority \<Rightarrow> usize" where
  "band Idle = 0"
| "band Normal = 1"
| "band High = 2"

instantiation priority :: linorder
begin

definition less_eq_priority :: "priority \<Rightarrow> priority \<Rightarrow> bool" where
  "p \<le> q \<longleftrightarrow> band p \<le> band q"

definition less_priority :: "priority \<Rightarrow> priority \<Rightarrow> bool" where
  "p < q \<longleftrightarrow> band p < band q"

instance
proof
  fix p q :: priority
  show "p \<le> q \<Longrightarrow> q \<le> p \<Longrightarrow> p = q"
    by (cases p; cases q) (simp_all add: less_eq_priority_def)
qed (auto simp: less_eq_priority_def less_priority_def)

end

definition ORDER :: "priority list" where
  "ORDER = [High, Normal, Idle]"

record run_queue =
  bands :: "thread_id list list"

definition rq_new :: run_queue where
  "rq_new = \<lparr>bands = [[], [], []]\<rparr>"

definition rq_contains :: "run_queue \<Rightarrow> thread_id \<Rightarrow> bool" where
  "rq_contains rq tid \<longleftrightarrow> (\<exists>b \<in> set (bands rq). tid \<in> set b)"

definition rq_push :: "run_queue \<Rightarrow> thread_id \<Rightarrow> priority \<Rightarrow> run_queue" where
  "rq_push rq tid prio =
     (if rq_contains rq tid then rq
      else rq\<lparr>bands := (bands rq)[band prio := bands rq ! band prio @ [tid]]\<rparr>)"

fun pop_scan :: "run_queue \<Rightarrow> priority list \<Rightarrow> thread_id option \<times> run_queue" where
  "pop_scan rq [] = (None, rq)"
| "pop_scan rq (p # ps) =
     (case bands rq ! band p of
        [] \<Rightarrow> pop_scan rq ps
      | x # xs \<Rightarrow> (Some x, rq\<lparr>bands := (bands rq)[band p := xs]\<rparr>))"

definition rq_pop :: "run_queue \<Rightarrow> thread_id option \<times> run_queue" where
  "rq_pop rq = pop_scan rq ORDER"

fun steal_scan :: "run_queue \<Rightarrow> priority list \<Rightarrow> thread_id option \<times> run_queue" where
  "steal_scan rq [] = (None, rq)"
| "steal_scan rq (p # ps) =
     (let q = bands rq ! band p
      in if q = [] then steal_scan rq ps
         else (Some (last q), rq\<lparr>bands := (bands rq)[band p := butlast q]\<rparr>))"

definition rq_steal :: "run_queue \<Rightarrow> thread_id option \<times> run_queue" where
  "rq_steal rq = steal_scan rq ORDER"

fun remove_scan :: "thread_id \<Rightarrow> thread_id list list \<Rightarrow> bool \<times> thread_id list list" where
  "remove_scan tid [] = (False, [])"
| "remove_scan tid (b # bs) =
     (case position (\<lambda>queued. queued = tid) b of
        Some pos \<Rightarrow> (True, (take pos b @ drop (Suc pos) b) # bs)
      | None \<Rightarrow> (let (found, bs') = remove_scan tid bs in (found, b # bs')))"

definition rq_remove :: "run_queue \<Rightarrow> thread_id \<Rightarrow> bool \<times> run_queue" where
  "rq_remove rq tid = (let (found, bs) = remove_scan tid (bands rq) in (found, rq\<lparr>bands := bs\<rparr>))"

definition rq_len :: "run_queue \<Rightarrow> usize" where
  "rq_len rq = sum_list (map length (bands rq))"

definition rq_is_empty :: "run_queue \<Rightarrow> bool" where
  "rq_is_empty rq \<longleftrightarrow> rq_len rq = 0"

definition rq_runnable_len :: "run_queue \<Rightarrow> usize" where
  "rq_runnable_len rq = length (bands rq ! band High) + length (bands rq ! band Normal)"

section \<open>Park state\<close>

record park_state =
  parked :: bool
  pending :: bool

datatype park_outcome = Parked | Cancelled
datatype wake_outcome = Runnable | Noted
datatype exit_disposition_t = HaltAndWait | NothingLeft

definition park_default :: park_state where
  "park_default = \<lparr>parked = False, pending = False\<rparr>"

definition park :: "park_state \<Rightarrow> park_outcome \<times> park_state" where
  "park s = (if pending s then (Cancelled, s\<lparr>pending := False\<rparr>) else (Parked, s\<lparr>parked := True\<rparr>))"

definition wake :: "park_state \<Rightarrow> wake_outcome \<times> park_state" where
  "wake s = (if parked s then (Runnable, s\<lparr>parked := False\<rparr>) else (Noted, s\<lparr>pending := True\<rparr>))"

definition is_parked :: "park_state \<Rightarrow> bool" where
  "is_parked s = parked s"

definition has_pending :: "park_state \<Rightarrow> bool" where
  "has_pending s = pending s"

definition exit_disposition :: "bool \<Rightarrow> exit_disposition_t" where
  "exit_disposition anything_else_alive =
     (if anything_else_alive then HaltAndWait else NothingLeft)"

section \<open>Histories\<close>

text \<open>A history of one run queue: the pushes, pops and steals the kernel issues under the
  queue's lock, in any order; the result is the threads handed out, oldest first.\<close>

datatype 'a sched_op = Push 'a priority | Pop | Steal

fun run_ops :: "('q \<Rightarrow> 'a \<Rightarrow> priority \<Rightarrow> 'q) \<Rightarrow> ('q \<Rightarrow> 'a option \<times> 'q) \<Rightarrow> ('q \<Rightarrow> 'a option \<times> 'q) \<Rightarrow>
    'q \<Rightarrow> 'a sched_op list \<Rightarrow> 'a list \<times> 'q" where
  "run_ops push pop steal q [] = ([], q)"
| "run_ops push pop steal q (Push x p # ops) = run_ops push pop steal (push q x p) ops"
| "run_ops push pop steal q (Pop # ops) =
     (let (r, q1) = pop q; (out, q2) = run_ops push pop steal q1 ops
      in (case r of None \<Rightarrow> out | Some x \<Rightarrow> x # out, q2))"
| "run_ops push pop steal q (Steal # ops) =
     (let (r, q1) = steal q; (out, q2) = run_ops push pop steal q1 ops
      in (case r of None \<Rightarrow> out | Some x \<Rightarrow> x # out, q2))"

definition rq_run :: "run_queue \<Rightarrow> thread_id sched_op list \<Rightarrow> thread_id list \<times> run_queue" where
  "rq_run = run_ops rq_push rq_pop rq_steal"

fun pushed :: "'a sched_op list \<Rightarrow> 'a list" where
  "pushed [] = []"
| "pushed (Push x p # ops) = x # pushed ops"
| "pushed (Pop # ops) = pushed ops"
| "pushed (Steal # ops) = pushed ops"

fun mset_set_option :: "'a option \<Rightarrow> 'a multiset" where
  "mset_set_option None = {#}"
| "mset_set_option (Some x) = {#x#}"

lemma distinct_mset_le: "mset xs \<subseteq># mset ys \<Longrightarrow> distinct ys \<Longrightarrow> distinct xs"
  by (metis distinct_append mset_append mset_eq_imp_distinct_iff mset_subset_eq_exists_conv ex_mset)

lemma split_remove:
  "a @ z # b = pre @ x # post \<Longrightarrow> z \<noteq> x \<Longrightarrow>
    \<exists>pre' post'. a @ b = pre' @ x # post' \<and> length pre' \<le> length pre"
proof (induction pre arbitrary: a)
  case Nil
  then show ?case by (cases a) auto
next
  case (Cons y ys)
  show ?case
  proof (cases a)
    case Nil
    with Cons.prems show ?thesis by (intro exI [of _ ys] exI [of _ post]) simp
  next
    case (Cons w ws)
    then have "ws @ z # b = ys @ x # post" "w = y"
      using Cons.prems by auto
    with Cons.IH Cons.prems obtain pre' post' where "ws @ b = pre' @ x # post'" "length pre' \<le> length ys"
      by blast
    then show ?thesis
      using Cons by (intro exI [of _ "w # pre'"] exI [of _ post']) simp
  qed
qed

section \<open>The interface of a run queue\<close>

text \<open>What the scheduler relies on: an invariant, the order in which queued threads are served
  and the priority each was queued with. A push goes behind every thread of its priority or
  above and ahead of every thread below it; a pop serves the first thread; a steal takes one
  queued thread.\<close>

locale service_order =
  fixes wf :: "'q \<Rightarrow> bool"
    and order :: "'q \<Rightarrow> 'a list"
    and prio :: "'q \<Rightarrow> 'a \<Rightarrow> priority option"
    and push :: "'q \<Rightarrow> 'a \<Rightarrow> priority \<Rightarrow> 'q"
    and pop :: "'q \<Rightarrow> 'a option \<times> 'q"
    and steal :: "'q \<Rightarrow> 'a option \<times> 'q"
  assumes wf_push: "wf q \<Longrightarrow> wf (push q x p)"
    and wf_pop: "wf q \<Longrightarrow> wf (snd (pop q))"
    and wf_steal: "wf q \<Longrightarrow> wf (snd (steal q))"
    and push_queued: "wf q \<Longrightarrow> x \<in> set (order q) \<Longrightarrow> push q x p = q"
    and push_new: "wf q \<Longrightarrow> x \<notin> set (order q) \<Longrightarrow>
      \<exists>pre post. order q = pre @ post \<and> order (push q x p) = pre @ x # post \<and>
        (\<forall>y \<in> set post. \<forall>r. prio q y = Some r \<longrightarrow> r < p)"
    and prio_push: "wf q \<Longrightarrow> y \<in> set (order q) \<Longrightarrow> prio (push q x p) y = prio q y"
    and pop_empty: "wf q \<Longrightarrow> order q = [] \<Longrightarrow> pop q = (None, q)"
    and pop_order: "wf q \<Longrightarrow> order q = x # xs \<Longrightarrow> fst (pop q) = Some x \<and> order (snd (pop q)) = xs"
    and prio_pop: "wf q \<Longrightarrow> y \<in> set (order (snd (pop q))) \<Longrightarrow> prio (snd (pop q)) y = prio q y"
    and steal_empty: "wf q \<Longrightarrow> order q = [] \<Longrightarrow> steal q = (None, q)"
    and steal_order: "wf q \<Longrightarrow> order q \<noteq> [] \<Longrightarrow>
      \<exists>pre x post. order q = pre @ x # post \<and> fst (steal q) = Some x \<and> order (snd (steal q)) = pre @ post"
    and prio_steal: "wf q \<Longrightarrow> y \<in> set (order (snd (steal q))) \<Longrightarrow> prio (snd (steal q)) y = prio q y"
begin

abbreviation run where
  "run \<equiv> run_ops push pop steal"

text \<open>A push at the priority of a queued thread or below does not move that thread.\<close>

lemma push_keeps_place:
  assumes "wf q" "order q = pre @ x # post" "prio q x = Some p" "r \<le> p"
  shows "\<exists>post'. order (push q y r) = pre @ x # post'"
proof (cases "y \<in> set (order q)")
  case True
  then show ?thesis using assms push_queued by fastforce
next
  case False
  then obtain a b where ab: "order q = a @ b" "order (push q y r) = a @ y # b"
    and low: "\<forall>z \<in> set b. \<forall>s. prio q z = Some s \<longrightarrow> s < r"
    using push_new [OF assms(1)] by blast
  have "x \<notin> set b"
    using low assms(3,4) by fastforce
  with ab(1) assms(2) obtain c where "a = pre @ x # c"
    by (auto simp: append_eq_append_conv2 append_eq_Cons_conv Cons_eq_append_conv)
  with ab(2) show ?thesis by auto
qed

text \<open>A thread with \<open>k\<close> threads ahead of it is handed out before \<open>k + 1\<close> pops have happened,
  whatever else is pushed at its priority or below and whatever is stolen.\<close>

lemma served_within:
  assumes "wf q" "order q = pre @ x # post" "prio q x = Some p"
    and "\<forall>y r. Push y r \<in> set ops \<longrightarrow> r \<le> p"
    and "length pre < length (filter (\<lambda>op. op = Pop) ops)"
  shows "x \<in> set (fst (run q ops))"
  using assms
proof (induction ops arbitrary: q pre post)
  case Nil
  then show ?case by simp
next
  case (Cons op ops)
  show ?case
  proof (cases op)
    case (Push y r)
    then obtain post' where "order (push q y r) = pre @ x # post'"
      using push_keeps_place [OF Cons.prems(1,2,3)] Cons.prems(4) by fastforce
    moreover have "prio (push q y r) x = Some p"
      using prio_push [OF Cons.prems(1)] Cons.prems(2,3) by simp
    ultimately show ?thesis
      using Cons.IH [of "push q y r" pre post'] Cons.prems Push wf_push by auto
  next
    case Pop
    show ?thesis
    proof (cases pre)
      case Nil
      then have "fst (pop q) = Some x"
        using pop_order [OF Cons.prems(1)] Cons.prems(2) by simp
      then show ?thesis
        using Pop by (auto simp: Let_def split: prod.splits)
    next
      case (Cons a as)
      then have o: "order (snd (pop q)) = as @ x # post"
        using pop_order [OF Cons.prems(1)] Cons.prems(2) by simp
      then have "prio (snd (pop q)) x = Some p"
        using prio_pop [OF Cons.prems(1)] Cons.prems(3) by simp
      then have "x \<in> set (fst (run (snd (pop q)) ops))"
        using Cons.IH [of "snd (pop q)" as post] Cons.prems Cons o Pop wf_pop by auto
      then show ?thesis
        using Pop by (auto simp: Let_def split: prod.splits option.splits)
    qed
  next
    case Steal
    obtain a z b where z: "order q = a @ z # b" "fst (steal q) = Some z" "order (snd (steal q)) = a @ b"
      using steal_order [OF Cons.prems(1)] Cons.prems(2) by auto
    show ?thesis
    proof (cases "z = x")
      case True
      then show ?thesis
        using z(2) Steal by (auto simp: Let_def split: prod.splits)
    next
      case False
      then obtain pre' post' where o: "order (snd (steal q)) = pre' @ x # post'" "length pre' \<le> length pre"
        using split_remove [of a z b pre x post] z(1,3) Cons.prems(2) by auto
      then have "prio (snd (steal q)) x = Some p"
        using prio_steal [OF Cons.prems(1)] Cons.prems(3) by simp
      then have "x \<in> set (fst (run (snd (steal q)) ops))"
        using Cons.IH [of "snd (steal q)" pre' post'] Cons.prems o Steal wf_steal by auto
      then show ?thesis
        using Steal by (auto simp: Let_def split: prod.splits option.splits)
    qed
  qed
qed

text \<open>Every thread that entered the queue once leaves it at most once and is otherwise still
  queued: no thread is lost and none is handed to two processors.\<close>

lemma mset_push: "wf q \<Longrightarrow> x \<notin> set (order q) \<Longrightarrow> mset (order (push q x p)) = add_mset x (mset (order q))"
  using push_new [of q x p] by auto

lemma mset_pop: "wf q \<Longrightarrow> mset_set_option (fst (pop q)) + mset (order (snd (pop q))) = mset (order q)"
  by (cases "order q") (use pop_empty pop_order in auto)

lemma mset_steal: "wf q \<Longrightarrow> mset_set_option (fst (steal q)) + mset (order (snd (steal q))) = mset (order q)"
  by (cases "order q = []") (use steal_empty in simp, use steal_order [of q] in auto)

lemma conservation:
  assumes "wf q" "distinct (order q @ pushed ops)"
  shows "mset (fst (run q ops)) + mset (order (snd (run q ops))) = mset (order q) + mset (pushed ops)"
  using assms
proof (induction ops arbitrary: q)
  case Nil
  then show ?case by simp
next
  case (Cons op ops)
  have keep: "distinct (order q' @ pushed ops)"
    if "distinct (order q @ pushed ops)" "mset_set_option r + mset (order q') = mset (order q)" for q q' r
  proof -
    have "mset (order q') \<subseteq># mset (order q)"
      using that(2) by (metis mset_subset_eq_add_right)
    moreover have "set (order q') \<subseteq> set (order q)"
      using set_mset_mono [OF calculation] by simp
    ultimately show ?thesis
      using that(1) by (auto simp: distinct_mset_le)
  qed
  show ?case
  proof (cases op)
    case (Push x p)
    then have new: "x \<notin> set (order q)" and "distinct (x # order q @ pushed ops)"
      using Cons.prems(2) by auto
    then have "distinct (order (push q x p) @ pushed ops)"
      using mset_eq_imp_distinct_iff [of "order (push q x p) @ pushed ops" "x # order q @ pushed ops"]
        mset_push [OF Cons.prems(1) new] by simp
    then show ?thesis
      using Cons.IH [OF wf_push [OF Cons.prems(1)]] mset_push [OF Cons.prems(1) new] Push by simp
  next
    case Pop
    then show ?thesis
      using Cons.IH [OF wf_pop [OF Cons.prems(1)] keep [OF _ mset_pop [OF Cons.prems(1)]]]
        mset_pop [OF Cons.prems(1)] Cons.prems(2)
      by (auto simp: Let_def split: prod.splits option.splits)
  next
    case Steal
    then show ?thesis
      using Cons.IH [OF wf_steal [OF Cons.prems(1)] keep [OF _ mset_steal [OF Cons.prems(1)]]]
        mset_steal [OF Cons.prems(1)] Cons.prems(2)
      by (auto simp: Let_def split: prod.splits option.splits)
  qed
qed

end

section \<open>The run queue's invariant and its abstract view\<close>

text \<open>The array has three bands by its type; no thread is queued twice.\<close>

definition rq_wf :: "run_queue \<Rightarrow> bool" where
  "rq_wf rq \<longleftrightarrow> length (bands rq) = 3 \<and> distinct (concat (bands rq))"

text \<open>The threads in the order in which \<open>pop\<close> serves them.\<close>

definition rq_order :: "run_queue \<Rightarrow> thread_id list" where
  "rq_order rq = concat (map (\<lambda>p. bands rq ! band p) ORDER)"

definition rq_prio :: "run_queue \<Rightarrow> thread_id \<Rightarrow> priority option" where
  "rq_prio rq tid = find (\<lambda>p. tid \<in> set (bands rq ! band p)) ORDER"

lemma bands_three: "length bs = 3 \<longleftrightarrow> (\<exists>i n h. bs = [i, n, h])"
  by (auto simp: numeral_3_eq_3 length_Suc_conv)

lemma rq_cases [consumes 1, case_names bands]:
  assumes "rq_wf rq"
  obtains i n h where "rq = \<lparr>bands = [i, n, h]\<rparr>" "distinct (i @ n @ h)"
  using assms by (cases rq) (auto simp: rq_wf_def bands_three)

lemmas rq_defs = rq_push_def rq_contains_def rq_pop_def rq_steal_def rq_remove_def ORDER_def
  rq_order_def rq_prio_def rq_wf_def

lemma rq_wf_new [wf_intros]: "rq_wf rq_new"
  by (simp add: rq_wf_def rq_new_def)

lemma rq_wf_push [wf_intros]: "rq_wf rq \<Longrightarrow> rq_wf (rq_push rq tid p)"
  by (elim rq_cases) (cases p; auto simp: rq_defs)

lemma rq_wf_pop [wf_intros]: "rq_wf rq \<Longrightarrow> rq_wf (snd (rq_pop rq))"
  by (elim rq_cases) (auto simp: rq_defs split: list.splits)

lemma rq_wf_steal [wf_intros]: "rq_wf rq \<Longrightarrow> rq_wf (snd (rq_steal rq))"
  by (elim rq_cases) (auto simp: rq_defs distinct_butlast dest: in_set_butlastD)

lemma cut_remove1: "position (\<lambda>q. q = x) b = Some pos \<Longrightarrow> take pos b @ drop (Suc pos) b = remove1 x b"
  by (induction b arbitrary: pos) (auto split: if_splits)

lemma remove_scan_eq:
  "distinct (concat bs) \<Longrightarrow>
    remove_scan x bs = (x \<in> set (concat bs), map (remove1 x) bs)"
proof (induction bs)
  case Nil
  then show ?case by simp
next
  case (Cons b bs)
  have other: "map (remove1 x) bs = bs" if "x \<in> set b"
    using Cons.prems that by (intro map_idI remove1_idem) auto
  show ?case
  proof (cases "position (\<lambda>q. q = x) b")
    case None
    then have "x \<notin> set b" by (auto simp: position_None)
    moreover have "remove_scan x bs = (x \<in> set (concat bs), map (remove1 x) bs)"
      using Cons.IH Cons.prems by simp
    ultimately show ?thesis using None by (simp add: remove1_idem)
  next
    case (Some pos)
    then have "x \<in> set b" by (auto simp: position_Some)
    with Some other show ?thesis by (simp add: cut_remove1)
  qed
qed

lemma rq_remove_eq:
  "rq_wf rq \<Longrightarrow> rq_remove rq tid = (rq_contains rq tid, rq\<lparr>bands := map (remove1 tid) (bands rq)\<rparr>)"
  by (simp add: rq_remove_def rq_wf_def remove_scan_eq rq_contains_def)

lemma rq_wf_remove [wf_intros]: "rq_wf rq \<Longrightarrow> rq_wf (snd (rq_remove rq tid))"
  by (simp add: rq_remove_eq, elim rq_cases) (auto simp: rq_wf_def dest: notin_set_remove1)

lemma rq_order_set: "rq_wf rq \<Longrightarrow> set (rq_order rq) = {t. rq_contains rq t}"
  by (elim rq_cases) (auto simp: rq_defs)

lemma rq_order_distinct: "rq_wf rq \<Longrightarrow> distinct (rq_order rq)"
  by (elim rq_cases) (auto simp: rq_defs)

lemma rq_push_new:
  assumes "rq_wf rq" "x \<notin> set (rq_order rq)"
  shows "\<exists>pre post. rq_order rq = pre @ post \<and> rq_order (rq_push rq x p) = pre @ x # post \<and>
    (\<forall>y \<in> set post. \<forall>r. rq_prio rq y = Some r \<longrightarrow> r < p)"
  using assms(1)
proof (cases rule: rq_cases)
  case (bands i n h)
  then have new: "\<not> rq_contains rq x"
    using assms rq_order_set by blast
  define pre where "pre = (case p of High \<Rightarrow> h | Normal \<Rightarrow> h @ n | Idle \<Rightarrow> h @ n @ i)"
  define post where "post = (case p of High \<Rightarrow> n @ i | Normal \<Rightarrow> i | Idle \<Rightarrow> [])"
  have "rq_order rq = pre @ post" "rq_order (rq_push rq x p) = pre @ x # post"
    using bands(1) new by (auto simp: pre_def post_def rq_order_def rq_push_def ORDER_def split: priority.split)
  moreover have "\<forall>y \<in> set post. \<forall>r. rq_prio rq y = Some r \<longrightarrow> r < p"
    using bands by (auto simp: post_def rq_prio_def ORDER_def less_priority_def split: priority.splits if_splits)
  ultimately show ?thesis by blast
qed

lemma rq_prio_push: "rq_wf rq \<Longrightarrow> y \<in> set (rq_order rq) \<Longrightarrow> rq_prio (rq_push rq x p) y = rq_prio rq y"
  by (elim rq_cases) (cases p; auto simp: rq_defs)

lemma rq_pop_empty: "rq_wf rq \<Longrightarrow> rq_order rq = [] \<Longrightarrow> rq_pop rq = (None, rq)"
  by (elim rq_cases) (auto simp: rq_defs)

lemma rq_pop_order:
  "rq_wf rq \<Longrightarrow> rq_order rq = x # xs \<Longrightarrow> fst (rq_pop rq) = Some x \<and> rq_order (snd (rq_pop rq)) = xs"
  by (elim rq_cases) (auto simp: rq_defs append_eq_Cons_conv split: list.splits)

lemma rq_prio_pop:
  "rq_wf rq \<Longrightarrow> y \<in> set (rq_order (snd (rq_pop rq))) \<Longrightarrow> rq_prio (snd (rq_pop rq)) y = rq_prio rq y"
  by (elim rq_cases) (auto simp: rq_defs split: list.splits)

lemma rq_steal_empty: "rq_wf rq \<Longrightarrow> rq_order rq = [] \<Longrightarrow> rq_steal rq = (None, rq)"
  by (elim rq_cases) (auto simp: rq_defs)

lemma rq_steal_order:
  assumes "rq_wf rq" "rq_order rq \<noteq> []"
  shows "\<exists>pre x post. rq_order rq = pre @ x # post \<and> fst (rq_steal rq) = Some x \<and>
    rq_order (snd (rq_steal rq)) = pre @ post"
  using assms(1)
proof (cases rule: rq_cases)
  case (bands i n h)
  define b where "b = (if h \<noteq> [] then h else if n \<noteq> [] then n else i)"
  define post where "post = (if h \<noteq> [] then n @ i else if n \<noteq> [] then i else [])"
  have "b \<noteq> []" and whole: "rq_order rq = b @ post"
    using assms(2) bands(1) by (auto simp: b_def post_def rq_order_def ORDER_def)
  then have "rq_order rq = butlast b @ last b # post"
    by simp
  moreover have "fst (rq_steal rq) = Some (last b)" "rq_order (snd (rq_steal rq)) = butlast b @ post"
    using \<open>b \<noteq> []\<close> bands(1) by (auto simp: b_def post_def rq_order_def rq_steal_def ORDER_def)
  ultimately show ?thesis by blast
qed

lemma rq_prio_steal:
  "rq_wf rq \<Longrightarrow> y \<in> set (rq_order (snd (rq_steal rq))) \<Longrightarrow> rq_prio (snd (rq_steal rq)) y = rq_prio rq y"
  by (elim rq_cases) (auto simp: rq_defs dest: in_set_butlastD split: if_splits)

interpretation rq: service_order rq_wf rq_order rq_prio rq_push rq_pop rq_steal
proof
  show "rq_push q x p = q" if "rq_wf q" "x \<in> set (rq_order q)" for q x p
    using that rq_order_set by (auto simp: rq_push_def)
qed (fact rq_wf_push rq_wf_pop rq_wf_steal rq_push_new rq_prio_push rq_pop_empty rq_pop_order
    rq_prio_pop rq_steal_empty rq_steal_order rq_prio_steal)+

lemma rq_remove_order:
  assumes "rq_wf rq"
  shows "rq_order (snd (rq_remove rq tid)) = remove1 tid (rq_order rq)"
  using assms
proof (cases rule: rq_cases)
  case (bands i n h)
  have "rq_order (snd (rq_remove rq tid)) = remove1 tid h @ remove1 tid n @ remove1 tid i"
    using bands(1) assms by (simp add: rq_remove_eq rq_order_def ORDER_def)
  moreover have "rq_order rq = h @ n @ i"
    using bands(1) by (simp add: rq_order_def ORDER_def)
  ultimately show ?thesis
    using bands(2) by (auto simp: remove1_append remove1_idem disjoint_iff intro!: remove1_idem)
qed

lemma rq_len_order: "rq_wf rq \<Longrightarrow> rq_len rq = length (rq_order rq)"
  by (elim rq_cases) (auto simp: rq_len_def rq_order_def ORDER_def)

lemma rq_prio_Some: "rq_wf rq \<Longrightarrow> (rq_prio rq t = Some p) = (t \<in> set (bands rq ! band p))"
  by (elim rq_cases) (cases p; auto simp: rq_prio_def ORDER_def split: if_splits)


lemma all_priority: "(\<forall>r. P r) \<longleftrightarrow> P Idle \<and> P Normal \<and> P High"
  by (metis priority.exhaust)

section \<open>Properties of the run queue\<close>

text \<open>C15: Strict priority, FIFO within a band. \<open>pop\<close> returns a thread exactly when one is queued;
  the thread it returns has the highest priority queued and is the oldest of its band, and
  every other thread keeps its place.\<close>

theorem rq_pop_highest_oldest:
  assumes "rq_wf rq"
  shows "case rq_pop rq of
      (None, rq') \<Rightarrow> rq_is_empty rq \<and> rq' = rq
    | (Some t, rq') \<Rightarrow> \<exists>p rest. bands rq ! band p = t # rest \<and>
        (\<forall>u r. u \<in> set (bands rq ! band r) \<longrightarrow> r \<le> p) \<and>
        (\<forall>r. bands rq' ! band r = (if r = p then rest else bands rq ! band r)) \<and> rq_wf rq'"
  using assms
proof (cases rule: rq_cases)
  case (bands i n h)
  then show ?thesis
  proof (cases h)
    case (Cons x xs)
    then show ?thesis
      using bands by (auto simp: rq_defs all_priority less_eq_priority_def intro!: exI [of _ High])
  next
    case Nil
    note empty_h = this
    show ?thesis
    proof (cases n)
      case (Cons x xs)
      then show ?thesis
        using bands empty_h by (auto simp: rq_defs all_priority less_eq_priority_def intro!: exI [of _ Normal])
    next
      case Nil
      then show ?thesis
        using bands empty_h
        by (cases i) (auto simp: rq_defs rq_is_empty_def rq_len_def all_priority less_eq_priority_def intro!: exI [of _ Idle])
    qed
  qed
qed

theorem rq_pop_highest_oldest_witness:
  "rq_wf (rq_push (rq_push (rq_push rq_new 7 Idle) 8 Normal) 9 Normal) \<and>
   fst (rq_pop (rq_push (rq_push (rq_push rq_new 7 Idle) 8 Normal) 9 Normal)) = Some 8"
  using rq_pop_highest_oldest [of "rq_push (rq_push (rq_push rq_new 7 Idle) 8 Normal) 9 Normal"]
  by (simp add: rq_defs rq_new_def)

text \<open>C16: No thread starves behind its equals. A queued thread with \<open>k\<close> threads ahead of it is
  handed out within \<open>k + 1\<close> pops, whatever is pushed at its priority or below in between and
  whatever other processors steal.\<close>

theorem rq_served_within:
  assumes "rq_wf rq" "rq_order rq = ahead @ t # behind" "rq_prio rq t = Some p"
    and "\<forall>u r. Push u r \<in> set ops \<longrightarrow> r \<le> p"
    and "length ahead < length (filter (\<lambda>op. op = Pop) ops)"
  shows "t \<in> set (fst (rq_run rq ops))"
  using rq.served_within [OF assms] by (simp add: rq_run_def)

theorem rq_served_within_witness:
  "(8 :: u64) \<in> set (fst (rq_run \<lparr>bands = [[], [6, 8], []]\<rparr> [Pop, Push 5 Idle, Push 4 Normal, Pop]))"
  by (rule rq_served_within [where ahead = "[6]" and behind = "[]" and p = Normal])
    (auto simp: rq_defs less_eq_priority_def)



text \<open>C18: A push places a thread that is not queued at the end of its band and leaves a queued
  one where it is, so a thread is never queued twice; a removal takes exactly the named thread
  out of the service order and reports whether it was there.\<close>

theorem rq_push_remove_exact:
  assumes "rq_wf rq"
  shows "rq_wf (rq_push rq t p) \<and>
    (\<forall>r. bands (rq_push rq t p) ! band r =
      (if r = p \<and> \<not> rq_contains rq t then bands rq ! band r @ [t] else bands rq ! band r)) \<and>
    rq_contains (rq_push rq t p) t \<and>
    rq_wf (snd (rq_remove rq t)) \<and> fst (rq_remove rq t) = rq_contains rq t \<and>
    rq_order (snd (rq_remove rq t)) = remove1 t (rq_order rq) \<and> \<not> rq_contains (snd (rq_remove rq t)) t"
proof -
  have "\<not> rq_contains (snd (rq_remove rq t)) t"
    using rq_order_set [OF rq_wf_remove [OF assms], of t] rq_remove_order [OF assms, of t]
      rq_order_distinct [OF assms] by (auto simp: set_eq_iff)
  moreover have "rq_contains (rq_push rq t p) t \<and> (\<forall>r. bands (rq_push rq t p) ! band r =
      (if r = p \<and> \<not> rq_contains rq t then bands rq ! band r @ [t] else bands rq ! band r))"
    using assms by (elim rq_cases) (cases p; auto simp: rq_push_def rq_contains_def all_priority)
  moreover have "fst (rq_remove rq t) = rq_contains rq t"
    by (simp add: rq_remove_eq [OF assms])
  ultimately show ?thesis
    using assms by (simp add: wf_intros rq_remove_order)
qed

theorem rq_push_remove_exact_witness:
  "rq_wf (rq_push rq_new 3 High) \<and> fst (rq_remove (rq_push rq_new 3 High) 3)"
  using rq_push_remove_exact [of "rq_push rq_new 3 High" 3 High]
  by (simp add: rq_defs rq_new_def)

section \<open>Parking and waking\<close>

text \<open>A thread that only parks when it runs, with wake-ups arriving at any time. \<open>owed\<close> counts the
  wake-ups the thread has not answered yet by running its poll again.\<close>

datatype run_status = Executing | Stopped

record parking =
  status :: run_status
  pstate :: park_state
  owed :: nat

inductive park_step :: "parking \<Rightarrow> parking \<Rightarrow> bool" where
  stop: "status s = Executing \<Longrightarrow> park (pstate s) = (Parked, p) \<Longrightarrow>
    park_step s (s\<lparr>status := Stopped, pstate := p\<rparr>)"
| poll_again: "status s = Executing \<Longrightarrow> park (pstate s) = (Cancelled, p) \<Longrightarrow>
    park_step s (s\<lparr>pstate := p, owed := 0\<rparr>)"
| resume: "wake (pstate s) = (Runnable, p) \<Longrightarrow>
    park_step s (s\<lparr>status := Executing, pstate := p, owed := 0\<rparr>)"
| remember: "wake (pstate s) = (Noted, p) \<Longrightarrow>
    park_step s (s\<lparr>pstate := p, owed := Suc (owed s)\<rparr>)"

inductive_cases park_stepE: "park_step s s'"

definition parking_start :: parking where
  "parking_start = \<lparr>status = Executing, pstate = park_default, owed = 0\<rparr>"

definition parking_inv :: "parking \<Rightarrow> bool" where
  "parking_inv s \<longleftrightarrow> (is_parked (pstate s) \<longleftrightarrow> status s = Stopped) \<and>
     (has_pending (pstate s) \<longleftrightarrow> 0 < owed s) \<and> (status s = Stopped \<longrightarrow> owed s = 0)"

lemmas park_defs = park_def wake_def is_parked_def has_pending_def park_default_def

lemma parking_inv_step: "park_step s s' \<Longrightarrow> parking_inv s \<Longrightarrow> parking_inv s'"
  by (erule park_stepE) (auto simp: parking_inv_def park_defs split: if_splits run_status.splits
      intro: run_status.exhaust)

lemma parking_inv_start: "parking_inv parking_start"
  by (simp add: parking_inv_def parking_start_def park_defs)

text \<open>C19: No wake-up is lost and none queues a running thread. In every reachable state a stopped
  thread has no unanswered wake-up, an unanswered wake-up is remembered so that the next park
  is cancelled, and \<open>Runnable\<close> is answered exactly for a stopped thread.\<close>

theorem park_no_lost_wakeup:
  assumes "park_step\<^sup>*\<^sup>* parking_start s"
  shows "(status s = Stopped \<longrightarrow> owed s = 0) \<and>
    (0 < owed s \<longrightarrow> fst (park (pstate s)) = Cancelled) \<and>
    (fst (wake (pstate s)) = Runnable \<longleftrightarrow> status s = Stopped)"
proof -
  have "parking_inv s"
    using assms by (induction rule: rtranclp_induct) (auto intro: parking_inv_start parking_inv_step)
  then show ?thesis
    by (auto simp: parking_inv_def park_defs split: if_splits)
qed

theorem park_no_lost_wakeup_witness:
  "owed (parking_start\<lparr>pstate := \<lparr>parked = False, pending = True\<rparr>, owed := 1\<rparr>) = 1 \<and>
   fst (park \<lparr>parked = False, pending = True\<rparr>) = Cancelled"
proof -
  have "park_step parking_start (parking_start\<lparr>pstate := \<lparr>parked = False, pending = True\<rparr>, owed := 1\<rparr>)"
    using park_step.remember [of parking_start "\<lparr>parked = False, pending = True\<rparr>"]
    by (simp add: parking_start_def park_defs)
  then have "park_step\<^sup>*\<^sup>* parking_start (parking_start\<lparr>pstate := \<lparr>parked = False, pending = True\<rparr>, owed := 1\<rparr>)"
    by blast
  then show ?thesis
    using park_no_lost_wakeup [of "parking_start\<lparr>pstate := \<lparr>parked = False, pending = True\<rparr>, owed := 1\<rparr>"]
    by simp
qed

end
