(* ===== verification/Kernel_Sched.thy ===== *)
theory Kernel_Sched
  imports Sched_Queue
begin

unbundle bit_operations_syntax

text \<open>
  The kernel's scheduler, \<open>kernel/src/sched.rs\<close> and \<open>kernel/src/thread.rs\<close>: the thread table, the
  per-CPU run queues and \<open>current\<close> slots, the handoff slots, parking, waking, exiting and reaping.
  Each critical section of the source (the code run under one acquisition of \<open>SCHED\<close> or of one
  run queue, and each atomic access of a handoff slot) is a definition; \<open>kstep\<close> interleaves the
  sections of up to 64 processors, with the program counter \<open>pc\<close> recording how far each
  processor's \<open>schedule\<close> has got. A panic is \<open>None\<close>.
\<close>

section \<open>Threads\<close>

datatype thread_state = Ready | Running | Blocked | Exited

record thread =
  context_ptr :: u64
  kernel_stack_top :: u64
  tstate :: thread_state
  tpriority :: priority
  tpark :: park_state
  home_cpu :: "nat option"
  address_space :: "u64 option"

definition MIN_STACK :: u64 where
  "MIN_STACK = 4096 * 4"

text \<open>\<open>context::init_kernel_stack\<close> places the seven-register \<open>Context\<close> right below the stack top; it
  panics on a misaligned top.\<close>

definition init_kernel_stack :: "u64 \<Rightarrow> u64 run" where
  "init_kernel_stack stack_top = do {
     check (stack_top AND 15 = 0);
     Some (stack_top - 56) }"

text \<open>\<open>base\<close> is the address of the stack allocation.\<close>

definition new_kernel :: "u64 \<Rightarrow> priority \<Rightarrow> thread run" where
  "new_kernel base prio = do {
     let stack_top = (base + MIN_STACK) AND NOT 15;
     ctx \<leftarrow> init_kernel_stack stack_top;
     Some \<lparr>context_ptr = ctx, kernel_stack_top = stack_top, tstate = Ready, tpriority = prio,
       tpark = park_default, home_cpu = None, address_space = None\<rparr> }"

definition adopt_current :: "nat \<Rightarrow> thread" where
  "adopt_current cpu = \<lparr>context_ptr = 0, kernel_stack_top = 0, tstate = Running, tpriority = Idle,
     tpark = park_default, home_cpu = Some cpu, address_space = None\<rparr>"

section \<open>Scheduler state\<close>

definition NO_THREAD :: u64 where
  "NO_THREAD = - 1"

definition HANDOFF_PARKED :: u64 where
  "HANDOFF_PARKED = push_bit 63 1"

text \<open>How far a processor's \<open>schedule\<close> has got. \<open>Executing\<close>: in thread code, or about to enter or just
  out of \<open>schedule\<close>; \<open>Stealing\<close>: in \<open>take_next\<close>'s loop, with the processors still to try;
  \<open>Picked\<close>: \<open>take_next\<close> returned a thread; \<open>Committed\<close>: \<open>SCHED\<close> was released but \<open>context::switch\<close>
  has not run, so the processor still stands on the outgoing thread's stack, with the stack top,
  the root and the context of the incoming one copied out; \<open>Arrived\<close>: on the incoming stack,
  before \<open>publish_handoff\<close>; \<open>Publishing\<close>: between its swap and its push.\<close>

datatype pc =
    Off
  | InThread
  | Stealing thread_state "nat list"
  | Picked thread_state thread_id
  | Committed thread_id thread_id u64 "u64 option" u64
  | Arrived
  | Publishing thread_id priority

record scheduler =
  threads :: "thread_id \<Rightarrow> thread option"
  next_id :: u64
  reapable :: "thread_id list"

record kstate = scheduler +
  idle_installed :: u64
  handoff_id :: "nat \<Rightarrow> u64"
  handoff_priority :: "nat \<Rightarrow> u8"
  steals :: u64
  steal_contended :: u64
  block_installed :: "nat \<Rightarrow> bool"
  online :: u64
  current_thread :: "nat \<Rightarrow> u64"
  run_queue_of :: "nat \<Rightarrow> run_queue"
  kernel_rsp :: "nat \<Rightarrow> u64"
  cr3 :: "nat \<Rightarrow> u64 option"
  pcs :: "nat \<Rightarrow> pc"
  in_park :: "thread_id set"
  in_flight :: "(thread_id \<times> priority \<times> nat option) list"

definition kstart :: kstate where
  "kstart = \<lparr>threads = (\<lambda>_. None), next_id = 0, reapable = [], idle_installed = 0,
     handoff_id = (\<lambda>_. NO_THREAD), handoff_priority = (\<lambda>_. 0), steals = 0, steal_contended = 0,
     block_installed = (\<lambda>_. False), online = 0, current_thread = (\<lambda>_. NO_THREAD),
     run_queue_of = (\<lambda>_. rq_new), kernel_rsp = (\<lambda>_. 0), cr3 = (\<lambda>_. None),
     pcs = (\<lambda>_. Off), in_park = {}, in_flight = []\<rparr>"

definition allocate_id :: "kstate \<Rightarrow> (thread_id \<times> kstate) run" where
  "allocate_id s = do {
     n \<leftarrow> checked_add (next_id s) 1;
     check (next_id s \<noteq> NO_THREAD);
     Some (next_id s, s\<lparr>next_id := n\<rparr>) }"

definition init :: "nat \<Rightarrow> kstate \<Rightarrow> kstate run" where
  "init cpu s =
     (if bit (idle_installed s) cpu then Some s
      else do {
        (tid, s1) \<leftarrow> allocate_id s;
        Some (s1\<lparr>threads := (threads s1)(tid \<mapsto> adopt_current cpu),
                 current_thread := (current_thread s1)(cpu := tid),
                 idle_installed := idle_installed s1 OR push_bit cpu 1\<rparr>) })"

text \<open>\<open>spawn_kernel\<close> up to the release of \<open>SCHED\<close>; the push that follows is left in flight.\<close>

definition spawn_kernel :: "u64 \<Rightarrow> priority \<Rightarrow> kstate \<Rightarrow> kstate run" where
  "spawn_kernel base prio s = do {
     (tid, s1) \<leftarrow> allocate_id s;
     th \<leftarrow> new_kernel base prio;
     Some (s1\<lparr>threads := (threads s1)(tid \<mapsto> th), in_flight := in_flight s1 @ [(tid, prio, None)]\<rparr>) }"

text \<open>The push after \<open>spawn_kernel\<close> or \<open>unpark\<close> released \<open>SCHED\<close>, run on processor \<open>cpu\<close>.\<close>

definition push_target :: "nat \<Rightarrow> nat option \<Rightarrow> kstate \<Rightarrow> nat" where
  "push_target cpu home s =
     (case home of
        None \<Rightarrow> cpu
      | Some h \<Rightarrow> if h < MAX_CPUS \<and> block_installed s h then h else cpu)"

definition rq_update :: "nat \<Rightarrow> run_queue \<Rightarrow> kstate \<Rightarrow> kstate" where
  "rq_update cpu q s = s\<lparr>run_queue_of := (run_queue_of s)(cpu := q)\<rparr>"

definition push_in_flight :: "nat \<Rightarrow> thread_id \<times> priority \<times> nat option \<Rightarrow> kstate \<Rightarrow> kstate" where
  "push_in_flight cpu e s =
     (case e of (tid, prio, home) \<Rightarrow>
        let tgt = push_target cpu home s
        in rq_update tgt (rq_push (run_queue_of s tgt) tid prio) (s\<lparr>in_flight := remove1 e (in_flight s)\<rparr>))"

definition current_thread_of :: "nat \<Rightarrow> kstate \<Rightarrow> u64 option" where
  "current_thread_of cpu s =
     (if cpu < MAX_CPUS \<and> block_installed s cpu then Some (current_thread s cpu) else None)"

definition is_current_anywhere :: "thread_id \<Rightarrow> kstate \<Rightarrow> bool" where
  "is_current_anywhere tid s \<longleftrightarrow> Some tid \<in> set (map (\<lambda>cpu. current_thread_of cpu s) [0..<MAX_CPUS])"

definition thread_id_is_live :: "thread_id \<Rightarrow> kstate \<Rightarrow> bool" where
  "thread_id_is_live tid s \<longleftrightarrow> threads s tid \<noteq> None"

definition adopt_address_space :: "nat \<Rightarrow> u64 \<Rightarrow> kstate \<Rightarrow> kstate run" where
  "adopt_address_space cpu root s = do {
     th \<leftarrow> threads s (current_thread s cpu);
     check (address_space th = None);
     Some (s\<lparr>threads := (threads s)(current_thread s cpu \<mapsto> th\<lparr>address_space := Some root\<rparr>)\<rparr>) }"

definition runnable_count :: "kstate \<Rightarrow> nat" where
  "runnable_count s =
     sum_list (map (\<lambda>cpu. rq_runnable_len (run_queue_of s cpu)) (filter (block_installed s) [0..<MAX_CPUS]))"

definition each_online_cpu :: "kstate \<Rightarrow> nat list" where
  "each_online_cpu s = filter (bit (online s)) [0..<MAX_CPUS]"

section \<open>Parking and waking\<close>

text \<open>The \<open>SCHED\<close> section of \<open>park\<close>, for the thread that calls it.\<close>

definition park_section :: "thread_id \<Rightarrow> kstate \<Rightarrow> (park_outcome \<times> kstate) run" where
  "park_section me s = do {
     th \<leftarrow> threads s me;
     let (outcome, p) = park (tpark th);
     Some (outcome, s\<lparr>threads := (threads s)(me \<mapsto>
       (case outcome of
          Parked \<Rightarrow> th\<lparr>tpark := p, tstate := Blocked\<rparr>
        | Cancelled \<Rightarrow> th\<lparr>tpark := p\<rparr>))\<rparr>) }"

definition sched_is_parked :: "thread_id \<Rightarrow> kstate \<Rightarrow> bool" where
  "sched_is_parked tid s \<longleftrightarrow> (case threads s tid of None \<Rightarrow> False | Some th \<Rightarrow> is_parked (tpark th))"

text \<open>The compare-exchange scan over the handoff slots.\<close>

definition claim_parked_handoff :: "thread_id \<Rightarrow> kstate \<Rightarrow> bool \<times> kstate" where
  "claim_parked_handoff tid s =
     (case position (\<lambda>cpu. handoff_id s cpu = tid OR HANDOFF_PARKED) [0..<MAX_CPUS] of
        None \<Rightarrow> (False, s)
      | Some cpu \<Rightarrow> (True, s\<lparr>handoff_id := (handoff_id s)(cpu := tid)\<rparr>))"

text \<open>The \<open>SCHED\<close> section of \<open>unpark\<close>; a decision to queue the thread is left in flight.\<close>

definition unpark_section :: "thread_id \<Rightarrow> kstate \<Rightarrow> kstate" where
  "unpark_section tid s =
     (case threads s tid of
        None \<Rightarrow> s
      | Some th \<Rightarrow>
          (case wake (tpark th) of
             (Noted, p) \<Rightarrow> s\<lparr>threads := (threads s)(tid \<mapsto> th\<lparr>tpark := p\<rparr>)\<rparr>
           | (Runnable, p) \<Rightarrow>
               let s1 = s\<lparr>threads := (threads s)(tid \<mapsto> th\<lparr>tpark := p, tstate := Ready\<rparr>)\<rparr>
               in if is_current_anywhere tid s1 then s1
                  else (case claim_parked_handoff tid s1 of
                     (True, s2) \<Rightarrow> s2
                   | (False, s2) \<Rightarrow> s2\<lparr>in_flight := in_flight s2 @ [(tid, tpriority th, home_cpu th)]\<rparr>)))"

section \<open>Choosing the next thread\<close>

definition prefers_local :: "nat \<Rightarrow> bool" where
  "prefers_local local_runnable \<longleftrightarrow> 0 < local_runnable"

text \<open>\<open>take_next\<close>'s three kinds of critical section: the local queue, one remote queue (\<open>busy\<close>: its
  \<open>try_lock\<close> fails), and the local queue again for the idle thread.\<close>

definition take_local :: "nat \<Rightarrow> kstate \<Rightarrow> thread_id option \<times> kstate" where
  "take_local cpu s =
     (if prefers_local (rq_runnable_len (run_queue_of s cpu))
      then (case rq_pop (run_queue_of s cpu) of (r, q) \<Rightarrow> (r, rq_update cpu q s))
      else (None, s))"

definition take_remote :: "nat \<Rightarrow> bool \<Rightarrow> kstate \<Rightarrow> thread_id option \<times> kstate" where
  "take_remote other busy s =
     (if \<not> (other < MAX_CPUS \<and> block_installed s other) then (None, s)
      else if busy then (None, s\<lparr>steal_contended := steal_contended s + 1\<rparr>)
      else if rq_runnable_len (run_queue_of s other) = 0 then (None, s)
      else (case rq_steal (run_queue_of s other) of
              (None, q) \<Rightarrow> (None, rq_update other q s)
            | (Some tid, q) \<Rightarrow> (Some tid, (rq_update other q s)\<lparr>steals := steals s + 1\<rparr>)))"

definition take_idle :: "nat \<Rightarrow> kstate \<Rightarrow> thread_id option \<times> kstate" where
  "take_idle cpu s = (case rq_pop (run_queue_of s cpu) of (r, q) \<Rightarrow> (r, rq_update cpu q s))"

fun take_steal :: "nat list \<Rightarrow> (nat \<Rightarrow> bool) \<Rightarrow> kstate \<Rightarrow> thread_id option \<times> kstate" where
  "take_steal [] busy s = (None, s)"
| "take_steal (other # others) busy s =
     (case take_remote other (busy other) s of
        (Some tid, s1) \<Rightarrow> (Some tid, s1)
      | (None, s1) \<Rightarrow> take_steal others busy s1)"

text \<open>\<open>take_next\<close> when no other processor interferes.\<close>

definition take_next :: "nat \<Rightarrow> (nat \<Rightarrow> bool) \<Rightarrow> kstate \<Rightarrow> thread_id option \<times> kstate" where
  "take_next cpu busy s =
     (case take_local cpu s of
        (Some tid, s1) \<Rightarrow> (Some tid, s1)
      | (None, s1) \<Rightarrow>
          (case take_steal (filter (\<lambda>other. other \<noteq> cpu) (each_online_cpu s1)) busy s1 of
             (Some tid, s2) \<Rightarrow> (Some tid, s2)
           | (None, s2) \<Rightarrow> take_idle cpu s2))"

section \<open>Switching\<close>

fun priority_as_u8 :: "priority \<Rightarrow> u8" where
  "priority_as_u8 Idle = 0"
| "priority_as_u8 Normal = 1"
| "priority_as_u8 High = 2"

definition priority_from_raw :: "u8 \<Rightarrow> priority" where
  "priority_from_raw raw = (if raw = 0 then Idle else if raw = 2 then High else Normal)"

text \<open>What \<open>schedule\<close> records of the outgoing thread under \<open>SCHED\<close>.\<close>

definition outgoing :: "nat \<Rightarrow> thread_state \<Rightarrow> thread_id \<Rightarrow> kstate \<Rightarrow> kstate" where
  "outgoing cpu st cur s =
     (if st = Exited then
        s\<lparr>threads := (case threads s cur of None \<Rightarrow> threads s
            | Some t \<Rightarrow> (threads s)(cur \<mapsto> t\<lparr>tstate := Exited\<rparr>)),
          reapable := reapable s @ [cur],
          handoff_id := (handoff_id s)(cpu := NO_THREAD)\<rparr>
      else
        (let parked = sched_is_parked cur s;
             prio = (case threads s cur of None \<Rightarrow> Normal | Some t \<Rightarrow> tpriority t)
         in s\<lparr>threads := (case threads s cur of None \<Rightarrow> threads s
                | Some t \<Rightarrow> (threads s)(cur \<mapsto> t\<lparr>tstate :=
                    (if tstate t = Exited then Exited else if parked then Blocked else Ready)\<rparr>)),
              handoff_priority := (handoff_priority s)(cpu := priority_as_u8 prio),
              handoff_id := (handoff_id s)(cpu := (if parked then cur OR HANDOFF_PARKED else cur))\<rparr>))"

text \<open>The whole \<open>SCHED\<close> section of \<open>schedule\<close>: the outgoing thread, then the incoming one, with the
  source's panics.\<close>

definition schedule_section :: "nat \<Rightarrow> thread_state \<Rightarrow> thread_id \<Rightarrow> kstate \<Rightarrow> kstate run" where
  "schedule_section cpu st nxt s = do {
     let cur = current_thread s cpu;
     let s1 = outgoing cpu st cur s;
     t \<leftarrow> threads s1 nxt;
     let s2 = s1\<lparr>threads := (threads s1)(nxt \<mapsto> t\<lparr>tstate := Running\<rparr>)\<rparr>;
     check (context_ptr t \<noteq> 0);
     let s3 = s2\<lparr>current_thread := (current_thread s2)(cpu := nxt)\<rparr>;
     check (threads s3 cur \<noteq> None);
     Some (s3\<lparr>pcs := (pcs s3)(cpu :=
       Committed cur nxt (kernel_stack_top t) (address_space t) (context_ptr t))\<rparr>) }"

text \<open>From the release of \<open>SCHED\<close> to the first instruction on the incoming stack: \<open>set_kernel_stack\<close>,
  \<open>activate_root\<close> and \<open>context::switch\<close>, which stores the stack pointer \<open>sp\<close> through the pointer into
  the outgoing thread's entry. Storing through the pointer of an entry that is gone has no
  defined result.\<close>

definition switch :: "nat \<Rightarrow> u64 \<Rightarrow> kstate \<Rightarrow> kstate run" where
  "switch cpu sp s =
     (case pcs s cpu of
        Committed out nxt stk root ctx \<Rightarrow>
          (case threads s out of
             None \<Rightarrow> None
           | Some t \<Rightarrow> Some (s\<lparr>threads := (threads s)(out \<mapsto> t\<lparr>context_ptr := sp\<rparr>),
               kernel_rsp := (if stk \<noteq> 0 then (kernel_rsp s)(cpu := stk) else kernel_rsp s),
               cr3 := (cr3 s)(cpu := root),
               pcs := (pcs s)(cpu := Arrived)\<rparr>))
      | _ \<Rightarrow> None)"

definition publish_swap :: "nat \<Rightarrow> kstate \<Rightarrow> kstate" where
  "publish_swap cpu s =
     (let raw = handoff_id s cpu;
          s1 = s\<lparr>handoff_id := (handoff_id s)(cpu := NO_THREAD)\<rparr>
      in if raw = NO_THREAD \<or> raw AND HANDOFF_PARKED \<noteq> 0
         then s1\<lparr>pcs := (pcs s1)(cpu := InThread)\<rparr>
         else s1\<lparr>pcs := (pcs s1)(cpu := Publishing raw (priority_from_raw (handoff_priority s1 cpu)))\<rparr>)"

definition publish_push :: "nat \<Rightarrow> thread_id \<Rightarrow> priority \<Rightarrow> kstate \<Rightarrow> kstate" where
  "publish_push cpu tid prio s =
     rq_update cpu (rq_push (run_queue_of s cpu) tid prio) (s\<lparr>pcs := (pcs s)(cpu := InThread)\<rparr>)"

section \<open>Exiting and reaping\<close>

fun reap_ids :: "thread_id list \<Rightarrow> thread_id list \<Rightarrow> kstate \<Rightarrow> kstate" where
  "reap_ids [] orphans s = s\<lparr>reapable := reapable s @ orphans\<rparr>"
| "reap_ids (tid # tids) orphans s =
     (if is_current_anywhere tid s then reap_ids tids (orphans @ [tid]) s
      else reap_ids tids orphans (s\<lparr>threads := (threads s)(tid := None)\<rparr>))"

definition reap :: "kstate \<Rightarrow> kstate" where
  "reap s = reap_ids (reapable s) [] (s\<lparr>reapable := []\<rparr>)"

definition another_thread_is_alive :: "thread_id \<Rightarrow> kstate \<Rightarrow> bool" where
  "another_thread_is_alive me s \<longleftrightarrow> (\<exists>tid \<in> dom (threads s). tid \<noteq> me)"

definition EXIT_WAIT_TICKS :: u64 where
  "EXIT_WAIT_TICKS = 60000"

text \<open>What \<open>exit_current\<close> does each time \<open>schedule(Exited)\<close> came back without switching: it halts and tries
  again, or panics.\<close>

definition exit_round :: "thread_id \<Rightarrow> u64 \<Rightarrow> u64 \<Rightarrow> kstate \<Rightarrow> unit run" where
  "exit_round me ticks deadline s = do {
     check (exit_disposition (another_thread_is_alive me s) \<noteq> NothingLeft);
     check (ticks < deadline) }"

definition thread_count :: "kstate \<Rightarrow> nat" where
  "thread_count s = card (dom (threads s))"

definition parked_thread_ids :: "kstate \<Rightarrow> thread_id set" where
  "parked_thread_ids s = {t. sched_is_parked t s}"

text \<open>Whether a timer tick enters \<open>schedule\<close>, and whether the idle loop does.\<close>

definition preempt :: "bool \<Rightarrow> nat \<Rightarrow> kstate \<Rightarrow> thread_state option" where
  "preempt enabled cpu s = (if \<not> enabled \<or> current_thread s cpu = NO_THREAD then None else Some Ready)"

definition idle_loop_round :: "kstate \<Rightarrow> thread_state option" where
  "idle_loop_round s = (if 0 < runnable_count s then Some Ready else None)"

section \<open>Interleaved execution\<close>

abbreviation set_pc :: "nat \<Rightarrow> pc \<Rightarrow> kstate \<Rightarrow> kstate" where
  "set_pc cpu p s \<equiv> s\<lparr>pcs := (pcs s)(cpu := p)\<rparr>"

text \<open>Where a processor goes when a section of \<open>take_next\<close> found a thread, and when it did not.\<close>

fun picked :: "nat \<Rightarrow> thread_state \<Rightarrow> pc \<Rightarrow> thread_id option \<times> kstate \<Rightarrow> kstate" where
  "picked cpu st miss (Some tid, s) = set_pc cpu (Picked st tid) s"
| "picked cpu st miss (None, s) = set_pc cpu miss s"

text \<open>One step of the machine: one critical section of one processor. A thread inside \<open>park\<close>'s loop
  (\<open>in_park\<close>) leaves it only when it finds itself unparked, and does not call \<open>exit_current\<close> before.\<close>

inductive kstep :: "kstate \<Rightarrow> kstate \<Rightarrow> bool" where
  install: "cpu < MAX_CPUS \<Longrightarrow> \<not> block_installed s cpu \<Longrightarrow>
    kstep s (s\<lparr>block_installed := (block_installed s)(cpu := True)\<rparr>)"
| init: "cpu < MAX_CPUS \<Longrightarrow> block_installed s cpu \<Longrightarrow> pcs s cpu = Off \<Longrightarrow> \<not> bit (idle_installed s) cpu \<Longrightarrow> init cpu s = Some s' \<Longrightarrow>
    kstep s (set_pc cpu InThread s')"
| go_online: "pcs s cpu = InThread \<Longrightarrow> kstep s (s\<lparr>online := online s OR push_bit cpu 1\<rparr>)"
| spawn: "pcs s cpu = InThread \<Longrightarrow> spawn_kernel base prio s = Some s' \<Longrightarrow> kstep s s'"
| push: "block_installed s cpu \<Longrightarrow> e \<in> set (in_flight s) \<Longrightarrow> kstep s (push_in_flight cpu e s)"
| adopt: "pcs s cpu = InThread \<Longrightarrow> adopt_address_space cpu root s = Some s' \<Longrightarrow> kstep s s'"
| park: "pcs s cpu = InThread \<Longrightarrow> park_section (current_thread s cpu) s = Some (outcome, s') \<Longrightarrow>
    kstep s (if outcome = Parked then s'\<lparr>in_park := insert (current_thread s cpu) (in_park s')\<rparr> else s')"
| park_return: "pcs s cpu = InThread \<Longrightarrow> \<not> sched_is_parked (current_thread s cpu) s \<Longrightarrow>
    kstep s (s\<lparr>in_park := in_park s - {current_thread s cpu}\<rparr>)"
| unpark: "kstep s (unpark_section tid s)"
| schedule: "pcs s cpu = InThread \<Longrightarrow> st = Exited \<longrightarrow> current_thread s cpu \<notin> in_park s \<Longrightarrow>
    kstep s (picked cpu st (Stealing st (filter (\<lambda>other. other \<noteq> cpu) (each_online_cpu s))) (take_local cpu s))"
| steal: "pcs s cpu = Stealing st (other # others) \<Longrightarrow>
    kstep s (picked cpu st (Stealing st others) (take_remote other busy s))"
| fallback: "pcs s cpu = Stealing st [] \<Longrightarrow> kstep s (picked cpu st InThread (take_idle cpu s))"
| commit: "pcs s cpu = Picked st nxt \<Longrightarrow> schedule_section cpu st nxt s = Some s' \<Longrightarrow> kstep s s'"
| switch: "sp \<noteq> 0 \<Longrightarrow> switch cpu sp s = Some s' \<Longrightarrow> kstep s s'"
| publish: "pcs s cpu = Arrived \<Longrightarrow> kstep s (publish_swap cpu s)"
| publish_push: "pcs s cpu = Publishing tid prio \<Longrightarrow> kstep s (publish_push cpu tid prio s)"
| reap: "pcs s cpu = InThread \<Longrightarrow> kstep s (reap s)"

inductive_cases kstepE: "kstep s s'"

text \<open>The thread whose stack a processor stands on.\<close>

fun pc_stack :: "pc \<Rightarrow> thread_id \<Rightarrow> thread_id option" where
  "pc_stack Off cur = None"
| "pc_stack (Committed out nxt stk root ctx) cur = Some out"
| "pc_stack p cur = Some cur"

definition on_stack :: "kstate \<Rightarrow> nat \<Rightarrow> thread_id option" where
  "on_stack s cpu = pc_stack (pcs s cpu) (current_thread s cpu)"

lemma on_stack_frame [simp]:
  "on_stack (s\<lparr>threads := x0\<rparr>) = on_stack s"
  "on_stack (s\<lparr>next_id := x1\<rparr>) = on_stack s"
  "on_stack (s\<lparr>reapable := x2\<rparr>) = on_stack s"
  "on_stack (s\<lparr>idle_installed := x3\<rparr>) = on_stack s"
  "on_stack (s\<lparr>handoff_id := x4\<rparr>) = on_stack s"
  "on_stack (s\<lparr>handoff_priority := x5\<rparr>) = on_stack s"
  "on_stack (s\<lparr>steals := x6\<rparr>) = on_stack s"
  "on_stack (s\<lparr>steal_contended := x7\<rparr>) = on_stack s"
  "on_stack (s\<lparr>block_installed := x8\<rparr>) = on_stack s"
  "on_stack (s\<lparr>online := x9\<rparr>) = on_stack s"
  "on_stack (s\<lparr>run_queue_of := x10\<rparr>) = on_stack s"
  "on_stack (s\<lparr>kernel_rsp := x11\<rparr>) = on_stack s"
  "on_stack (s\<lparr>cr3 := x12\<rparr>) = on_stack s"
  "on_stack (s\<lparr>in_park := x13\<rparr>) = on_stack s"
  "on_stack (s\<lparr>in_flight := x14\<rparr>) = on_stack s"
  by (simp_all add: on_stack_def fun_eq_iff)

section \<open>Where a thread is\<close>

datatype place = Cur nat | Pick nat | Hand nat | Pub nat | Que nat | Fly

fun at_place :: "kstate \<Rightarrow> place \<Rightarrow> thread_id \<Rightarrow> bool" where
  "at_place s (Cur c) t \<longleftrightarrow> pcs s c \<noteq> Off \<and> current_thread s c = t"
| "at_place s (Pick c) t \<longleftrightarrow> (\<exists>st. pcs s c = Picked st t)"
| "at_place s (Hand c) t \<longleftrightarrow> handoff_id s c \<noteq> NO_THREAD \<and> handoff_id s c AND NOT HANDOFF_PARKED = t"
| "at_place s (Pub c) t \<longleftrightarrow> (\<exists>p. pcs s c = Publishing t p)"
| "at_place s (Que c) t \<longleftrightarrow> rq_contains (run_queue_of s c) t"
| "at_place s Fly t \<longleftrightarrow> t \<in> fst ` set (in_flight s)"

fun place_cpu :: "place \<Rightarrow> nat option" where
  "place_cpu (Cur c) = Some c"
| "place_cpu (Pick c) = Some c"
| "place_cpu (Hand c) = Some c"
| "place_cpu (Pub c) = Some c"
| "place_cpu (Que c) = Some c"
| "place_cpu Fly = None"

end
