(* ===== verification/Kernel_Sched_Inv.thy ===== *)
theory Kernel_Sched_Inv
  imports Kernel_Sched
begin

unbundle bit_operations_syntax

text \<open>
  The invariant of the kernel's scheduler and its preservation, one lemma per step of \<open>kstep\<close>: every
  thread is in exactly one place (on a processor, picked, handed off, being published, queued or
  in flight) or it is parked or exited and in none.
\<close>

section \<open>Thread ids and the handoff tag\<close>

abbreviation small :: "thread_id \<Rightarrow> bool" where
  "small t \<equiv> unat t < 2 ^ 63 - 1"

lemma small_bit: "small t \<Longrightarrow> \<not> bit t 63"
proof
  assume t: "small t" and "bit t 63"
  then have "bit (unat t) 63"
    by (simp add: bit_unsigned_iff)
  then have "2 ^ 63 \<le> unat t"
    by (metis bit_iff_odd div_less even_zero not_le)
  with t show False by simp
qed

lemma bit_tag: "bit HANDOFF_PARKED n \<longleftrightarrow> n = 63"
  unfolding HANDOFF_PARKED_def bit_push_bit_iff by (auto simp: bit_1_iff)

lemma tag_untagged: "small t \<Longrightarrow> t AND HANDOFF_PARKED = 0"
  using small_bit by (intro bit_eqI) (auto simp: bit_simps bit_tag)

lemma tag_tagged: "(t OR HANDOFF_PARKED) AND HANDOFF_PARKED \<noteq> 0"
proof -
  have "bit ((t OR HANDOFF_PARKED) AND HANDOFF_PARKED) 63"
    by (simp add: bit_simps bit_tag)
  then show ?thesis by (metis bit_0_eq bot_apply bot_bool_def)
qed

lemma tag_decode: "small t \<Longrightarrow> t AND NOT HANDOFF_PARKED = t" "small t \<Longrightarrow> (t OR HANDOFF_PARKED) AND NOT HANDOFF_PARKED = t"
  using small_bit by (auto intro!: bit_eqI simp: bit_simps bit_tag)

lemma tag_neq_none: "small t \<Longrightarrow> t \<noteq> NO_THREAD" "small t \<Longrightarrow> t OR HANDOFF_PARKED \<noteq> NO_THREAD"
proof -
  have none: "NO_THREAD AND NOT HANDOFF_PARKED = NOT HANDOFF_PARKED"
    by (simp add: NO_THREAD_def)
  have "unat (NOT HANDOFF_PARKED) = 2 ^ 63 - 1"
    by (simp add: HANDOFF_PARKED_def push_bit_eq_mult)
  then show "small t \<Longrightarrow> t \<noteq> NO_THREAD" "small t \<Longrightarrow> t OR HANDOFF_PARKED \<noteq> NO_THREAD"
    using tag_decode [of t] none by (metis nat_neq_iff)+
qed

lemma tag_distinct: "small t \<Longrightarrow> t \<noteq> t OR HANDOFF_PARKED"
  using tag_untagged tag_tagged by metis

lemmas tag_simps = tag_untagged tag_tagged tag_decode tag_neq_none tag_distinct

lemma priority_round_trip [simp]: "priority_from_raw (priority_as_u8 p) = p"
  by (cases p) (simp_all add: priority_from_raw_def)

lemma new_kernel_ok:
  "\<exists>th. new_kernel base prio = Some th \<and> context_ptr th \<noteq> 0 \<and> tpriority th = prio \<and> tpark th = park_default \<and>
    home_cpu th = None \<and> tstate th = Ready \<and> address_space th = None"
proof -
  have aligned: "((base + MIN_STACK) AND NOT 15) AND 15 = 0"
    by (intro bit_eqI) (auto simp: bit_simps)
  moreover have "(base + MIN_STACK) AND NOT 15 \<noteq> (56 :: u64)"
  proof
    assume "(base + MIN_STACK) AND NOT 15 = (56 :: u64)"
    with aligned have "(56 :: u64) AND 15 = 0" by metis
    then show False by simp
  qed
  ultimately show ?thesis
    by (auto simp: new_kernel_def init_kernel_stack_def Let_def)
qed

section \<open>The invariant\<close>

text \<open>Per thread: where it may be, what its place records about it, and that a thread without a
  saved context is standing on some processor. \<open>l\<close> is the thread's place, if it has one.\<close>

definition thread_ok :: "kstate \<Rightarrow> place option \<Rightarrow> thread_id \<Rightarrow> thread \<Rightarrow> bool" where
  "thread_ok s l t th \<longleftrightarrow>
     (is_parked (tpark th) \<longrightarrow> t \<in> in_park s \<and> t \<notin> set (reapable s) \<and> (\<forall>p. l = Some p \<longrightarrow> (\<exists>c. p = Cur c \<or> p = Hand c))) \<and>
     (l = None \<longrightarrow> is_parked (tpark th) \<or> t \<in> set (reapable s)) \<and>
     (t \<in> set (reapable s) \<longrightarrow> l = None) \<and>
     (\<forall>c. l = Some (Hand c) \<longrightarrow> handoff_id s c = (if is_parked (tpark th) then t OR HANDOFF_PARKED else t) \<and>
        handoff_priority s c = priority_as_u8 (tpriority th)) \<and>
     (\<forall>c. l = Some (Pub c) \<longrightarrow> pcs s c = Publishing t (tpriority th)) \<and>
     (\<forall>c. l = Some (Que c) \<longrightarrow> rq_prio (run_queue_of s c) t = Some (tpriority th)) \<and>
     (l = Some Fly \<longrightarrow> (t, tpriority th, home_cpu th) \<in> set (in_flight s)) \<and>
     (\<forall>h. home_cpu th = Some h \<longrightarrow> tpriority th = Idle \<and> h < MAX_CPUS \<and> block_installed s h \<and>
        (\<forall>p c. l = Some p \<longrightarrow> place_cpu p = Some c \<longrightarrow> c = h)) \<and>
     (context_ptr th = 0 \<longrightarrow> (\<exists>c. on_stack s c = Some t))"

definition gone :: "kstate \<Rightarrow> thread_id \<Rightarrow> bool" where
  "gone s t \<longleftrightarrow> threads s t \<noteq> None \<longrightarrow> t \<in> set (reapable s)"

definition cpu_ok :: "kstate \<Rightarrow> (thread_id \<Rightarrow> place option) \<Rightarrow> nat \<Rightarrow> bool" where
  "cpu_ok s L c \<longleftrightarrow>
     (pcs s c \<noteq> Off \<longrightarrow> c < MAX_CPUS \<and> block_installed s c) \<and>
     (pcs s c = Off \<longrightarrow> current_thread s c = NO_THREAD) \<and>
     (handoff_id s c \<noteq> NO_THREAD \<longrightarrow> pcs s c = Arrived \<or> (\<exists>out n a b d. pcs s c = Committed out n a b d)) \<and>
     (\<forall>out n a b d. pcs s c = Committed out n a b d \<longrightarrow> current_thread s c = n \<and>
        (L out = Some (Hand c) \<or> L out = None \<and> gone s out)) \<and>
     (\<forall>st n. pcs s c = Picked st n \<longrightarrow> st = Exited \<longrightarrow> current_thread s c \<notin> in_park s) \<and>
     (\<forall>st os. pcs s c = Stealing st os \<longrightarrow> st = Exited \<longrightarrow> current_thread s c \<notin> in_park s) \<and>
     rq_wf (run_queue_of s c)"

definition tracks :: "kstate \<Rightarrow> (thread_id \<Rightarrow> place option) \<Rightarrow> bool" where
  "tracks s L \<longleftrightarrow> (\<forall>p t. at_place s p t \<longleftrightarrow> L t = Some p)"

definition kinv :: "kstate \<Rightarrow> (thread_id \<Rightarrow> place option) \<Rightarrow> bool" where
  "kinv s L \<longleftrightarrow> tracks s L \<and>
     (\<forall>t. L t \<noteq> None \<longrightarrow> threads s t \<noteq> None) \<and>
     (\<forall>t th. threads s t = Some th \<longrightarrow> unat t < unat (next_id s) \<and> thread_ok s (L t) t th) \<and>
     (\<forall>c. cpu_ok s L c) \<and>
     distinct (map fst (in_flight s)) \<and>
     (\<forall>t \<in> set (reapable s). threads s t \<noteq> None) \<and>
     (\<forall>c t. on_stack s c = Some t \<longrightarrow> unat t < unat (next_id s)) \<and>
     (\<forall>c d t. on_stack s c = Some t \<longrightarrow> on_stack s d = Some t \<longrightarrow> c = d)"

lemma kinv_start: "kinv kstart (\<lambda>_. None)"
  by (auto simp: kinv_def kstart_def tracks_def cpu_ok_def on_stack_def rq_wf_new)
    (auto simp: rq_contains_def rq_new_def elim!: at_place.elims)

text \<open>A step that leaves alone everything \<open>thread_ok\<close> reads for one thread keeps it.\<close>

lemma thread_ok_frame:
  assumes "thread_ok s l t th"
    and "is_parked (tpark th) \<Longrightarrow> t \<in> in_park s \<Longrightarrow> t \<in> in_park s'"
    and "t \<in> set (reapable s') \<longleftrightarrow> t \<in> set (reapable s)"
    and "\<And>c. l = Some (Hand c) \<Longrightarrow> handoff_id s' c = handoff_id s c \<and> handoff_priority s' c = handoff_priority s c"
    and "\<And>c. l = Some (Pub c) \<Longrightarrow> pcs s' c = pcs s c"
    and "\<And>c. l = Some (Que c) \<Longrightarrow> rq_prio (run_queue_of s' c) t = rq_prio (run_queue_of s c) t"
    and "\<And>p h. l = Some Fly \<Longrightarrow> (t, p, h) \<in> set (in_flight s) \<Longrightarrow> (t, p, h) \<in> set (in_flight s')"
    and "\<And>h. block_installed s h \<Longrightarrow> block_installed s' h"
    and "\<And>c. on_stack s c = Some t \<Longrightarrow> \<exists>d. on_stack s' d = Some t"
  shows "thread_ok s' l t th"
proof -
  have "\<exists>d. on_stack s' d = Some t" if "context_ptr th = 0"
    using assms(1,9) that unfolding thread_ok_def by blast
  with assms(1-8) show ?thesis
    unfolding thread_ok_def by simp
qed

lemma thread_ok_other:
  assumes "thread_ok s l t th" "l' = l"
    and "is_parked (tpark th) \<Longrightarrow> t \<in> in_park s \<Longrightarrow> t \<in> in_park s'"
    and "t \<in> set (reapable s') \<longleftrightarrow> t \<in> set (reapable s)"
    and "\<And>c. l = Some (Hand c) \<Longrightarrow> handoff_id s' c = handoff_id s c \<and> handoff_priority s' c = handoff_priority s c"
    and "\<And>c. l = Some (Pub c) \<Longrightarrow> pcs s' c = pcs s c"
    and "\<And>c. l = Some (Que c) \<Longrightarrow> rq_prio (run_queue_of s' c) t = rq_prio (run_queue_of s c) t"
    and "\<And>p h. l = Some Fly \<Longrightarrow> (t, p, h) \<in> set (in_flight s) \<Longrightarrow> (t, p, h) \<in> set (in_flight s')"
    and "\<And>h. block_installed s h \<Longrightarrow> block_installed s' h"
    and "\<And>c. on_stack s c = Some t \<Longrightarrow> \<exists>d. on_stack s' d = Some t"
  shows "thread_ok s' l' t th"
  unfolding assms(2) by (rule thread_ok_frame [OF assms(1)]) (use assms(3-) in blast)+

lemma thread_ok_irrelevant [simp]:
  "thread_ok (s\<lparr>threads := x0\<rparr>) l t th = thread_ok s l t th"
  "thread_ok (s\<lparr>next_id := x1\<rparr>) l t th = thread_ok s l t th"
  "thread_ok (s\<lparr>idle_installed := x2\<rparr>) l t th = thread_ok s l t th"
  "thread_ok (s\<lparr>steals := x3\<rparr>) l t th = thread_ok s l t th"
  "thread_ok (s\<lparr>steal_contended := x4\<rparr>) l t th = thread_ok s l t th"
  "thread_ok (s\<lparr>online := x5\<rparr>) l t th = thread_ok s l t th"
  "thread_ok (s\<lparr>kernel_rsp := x6\<rparr>) l t th = thread_ok s l t th"
  "thread_ok (s\<lparr>cr3 := x7\<rparr>) l t th = thread_ok s l t th"
  "thread_ok s l t (th\<lparr>tstate := y1\<rparr>) = thread_ok s l t th"
  "thread_ok s l t (th\<lparr>kernel_stack_top := y2\<rparr>) = thread_ok s l t th"
  "thread_ok s l t (th\<lparr>address_space := y3\<rparr>) = thread_ok s l t th"
  by (simp_all add: thread_ok_def)

lemma cpu_ok_frame:
  assumes "cpu_ok s L c" "pcs s' c = pcs s c" "current_thread s' c = current_thread s c"
    and "block_installed s c \<Longrightarrow> block_installed s' c"
    and "handoff_id s' c \<noteq> NO_THREAD \<Longrightarrow> handoff_id s c \<noteq> NO_THREAD"
    and "\<And>out n a b d. pcs s c = Committed out n a b d \<Longrightarrow> L' out = L out \<and> (L out = None \<longrightarrow> gone s out \<longrightarrow> gone s' out)"
    and "current_thread s c \<in> in_park s' \<Longrightarrow> pcs s c \<noteq> InThread \<Longrightarrow> pcs s c \<noteq> Off \<Longrightarrow> current_thread s c \<in> in_park s"
    and "rq_wf (run_queue_of s c) \<Longrightarrow> rq_wf (run_queue_of s' c)"
  shows "cpu_ok s' L' c"
proof -
  have "L' out = Some (Hand c) \<or> L' out = None \<and> gone s' out" if "pcs s c = Committed out n a b d" for out n a b d
    using assms(6) [OF that] assms(1) that by (auto simp: cpu_ok_def)
  with assms show ?thesis
    unfolding cpu_ok_def by (cases "pcs s c") auto
qed

lemma cpu_ok_inside:
  assumes "cpu_ok s L c" "pcs s c \<noteq> Off" "block_installed s' c = block_installed s c" "handoff_id s' c = NO_THREAD"
    and "rq_wf (run_queue_of s' c)"
    and "pcs s' c = InThread \<or> (\<exists>t p. pcs s' c = Publishing t p) \<or>
      (\<exists>st t os. (pcs s' c = Picked st t \<or> pcs s' c = Stealing st os) \<and> (st = Exited \<longrightarrow> current_thread s' c \<notin> in_park s'))"
  shows "cpu_ok s' L' c"
  using assms(6) unfolding cpu_ok_def assms(3,4)
  by (elim disjE exE conjE) (use assms(1,2,5) in \<open>simp_all add: cpu_ok_def\<close>)

lemma cpu_ok_no_handoff:
  "cpu_ok s L c \<Longrightarrow> pcs s c \<noteq> Arrived \<Longrightarrow> (\<forall>out n a b d. pcs s c \<noteq> Committed out n a b d) \<Longrightarrow> handoff_id s c = NO_THREAD"
  unfolding cpu_ok_def by blast

lemma thread_ok_thread:
  "is_parked (tpark u) = is_parked (tpark th) \<Longrightarrow> tpriority u = tpriority th \<Longrightarrow> home_cpu u = home_cpu th \<Longrightarrow>
    context_ptr u = context_ptr th \<Longrightarrow> thread_ok s l t u = thread_ok s l t th"
  by (simp add: thread_ok_def)

lemma kinv_tracks: "kinv s L \<Longrightarrow> at_place s p t \<longleftrightarrow> L t = Some p"
  by (simp add: kinv_def tracks_def)

lemma kinv_thread: "kinv s L \<Longrightarrow> threads s t = Some th \<Longrightarrow> thread_ok s (L t) t th"
  by (simp add: kinv_def)

lemma kinv_cpu: "kinv s L \<Longrightarrow> cpu_ok s L c"
  by (simp add: kinv_def)

lemma kinv_wf: "kinv s L \<Longrightarrow> rq_wf (run_queue_of s c)"
  by (simp add: kinv_def cpu_ok_def)

lemma kinv_live: "kinv s L \<Longrightarrow> L t = Some p \<Longrightarrow> \<exists>th. threads s t = Some th"
  by (auto simp: kinv_def)

lemma kinv_small: "kinv s L \<Longrightarrow> unat (next_id s) < 2 ^ 63 \<Longrightarrow> threads s t = Some th \<Longrightarrow> small t"
  by (fastforce simp: kinv_def)

lemma kinv_cur: "kinv s L \<Longrightarrow> pcs s c \<noteq> Off \<Longrightarrow> L (current_thread s c) = Some (Cur c)"
  using kinv_tracks [of s L "Cur c" "current_thread s c"] by simp

lemma kinvI:
  assumes "tracks s L" "\<And>t. L t \<noteq> None \<Longrightarrow> threads s t \<noteq> None"
    "\<And>t th. threads s t = Some th \<Longrightarrow> unat t < unat (next_id s)"
    "\<And>t th. threads s t = Some th \<Longrightarrow> thread_ok s (L t) t th"
    "\<And>c. cpu_ok s L c" "distinct (map fst (in_flight s))"
    "\<And>t. t \<in> set (reapable s) \<Longrightarrow> threads s t \<noteq> None"
    "\<And>c t. on_stack s c = Some t \<Longrightarrow> unat t < unat (next_id s)"
    "\<And>c d t. on_stack s c = Some t \<Longrightarrow> on_stack s d = Some t \<Longrightarrow> c = d"
  shows "kinv s L"
  unfolding kinv_def using assms by blast

section \<open>Preservation, step by step\<close>

lemma tracks_same:
  assumes "tracks s L" "\<And>c. pcs s' c = Off \<longleftrightarrow> pcs s c = Off" "\<And>c st t. pcs s' c = Picked st t \<longleftrightarrow> pcs s c = Picked st t"
    "\<And>c t p. pcs s' c = Publishing t p \<longleftrightarrow> pcs s c = Publishing t p"
    "current_thread s' = current_thread s" "handoff_id s' = handoff_id s" "run_queue_of s' = run_queue_of s"
    "in_flight s' = in_flight s"
  shows "tracks s' L"
proof -
  have "at_place s' p t = at_place s p t" for p t
    using assms(2-) by (cases p) auto
  then show ?thesis using assms(1) by (simp add: tracks_def)
qed

text \<open>Steps that move no thread: every place, program counter and stack stays as it was.\<close>

lemma kinv_still:
  assumes inv: "kinv s L"
    and same: "pcs s' = pcs s" "current_thread s' = current_thread s" "handoff_id s' = handoff_id s"
      "handoff_priority s' = handoff_priority s" "run_queue_of s' = run_queue_of s" "in_flight s' = in_flight s"
      "reapable s' = reapable s" "next_id s' = next_id s"
    and blocks: "\<And>h. block_installed s h \<Longrightarrow> block_installed s' h"
    and live: "\<And>t. threads s' t = None \<longleftrightarrow> threads s t = None"
    and in_park: "\<And>c. current_thread s c \<in> in_park s' \<Longrightarrow> pcs s c \<noteq> InThread \<Longrightarrow> pcs s c \<noteq> Off \<Longrightarrow> current_thread s c \<in> in_park s"
    and ok: "\<And>t th th'. threads s t = Some th \<Longrightarrow> threads s' t = Some th' \<Longrightarrow> thread_ok s (L t) t th \<Longrightarrow> thread_ok s' (L t) t th'"
  shows "kinv s' L"
proof (rule kinvI)
  have stack: "on_stack s' = on_stack s"
    by (simp add: on_stack_def same fun_eq_iff)
  show "tracks s' L"
    using inv same by (auto simp: kinv_def intro: tracks_same)
  show "thread_ok s' (L t) t th'" if th': "threads s' t = Some th'" for t th'
  proof -
    obtain th where "threads s t = Some th"
      using th' live [of t] by auto
    then show ?thesis
      using th' ok kinv_thread [OF inv] by blast
  qed
  show "cpu_ok s' L c" for c
    using kinv_cpu [OF inv, of c] by (rule cpu_ok_frame) (use same blocks in_park live in \<open>auto simp: gone_def\<close>)
  show "unat t < unat (next_id s')" if "threads s' t = Some th" for t th
    using that live [of t] inv same by (auto simp: kinv_def)
  show "L t \<noteq> None \<Longrightarrow> threads s' t \<noteq> None" for t
    using live [of t] inv by (auto simp: kinv_def)
  show "distinct (map fst (in_flight s'))"
    using inv same by (simp add: kinv_def)
  show "t \<in> set (reapable s') \<Longrightarrow> threads s' t \<noteq> None" for t
    using live [of t] inv same by (auto simp: kinv_def)
  show "on_stack s' c = Some t \<Longrightarrow> unat t < unat (next_id s')" for c t
    using inv same by (simp add: kinv_def stack)
  show "on_stack s' c = Some t \<Longrightarrow> on_stack s' d = Some t \<Longrightarrow> c = d" for c d t
    using inv by (auto simp: kinv_def stack)
qed

lemma kinv_quiet:
  assumes "kinv s L" "pcs s' = pcs s" "current_thread s' = current_thread s" "handoff_id s' = handoff_id s"
    "handoff_priority s' = handoff_priority s" "run_queue_of s' = run_queue_of s" "in_flight s' = in_flight s"
    "reapable s' = reapable s" "next_id s' = next_id s" "threads s' = threads s" "in_park s' \<subseteq> in_park s"
    and "\<And>h. block_installed s h \<Longrightarrow> block_installed s' h"
    and "\<And>t th. threads s t = Some th \<Longrightarrow> is_parked (tpark th) \<Longrightarrow> t \<in> in_park s \<Longrightarrow> t \<in> in_park s'"
  shows "kinv s' L"
proof -
  have stack: "on_stack s' = on_stack s"
    by (simp add: on_stack_def assms fun_eq_iff)
  show ?thesis
    using assms(1)
  proof (rule kinv_still)
    show "thread_ok s' (L t) t th'" if "threads s t = Some th" "threads s' t = Some th'" "thread_ok s (L t) t th" for t th th'
    proof -
      have "th' = th" using that assms by simp
      with that show ?thesis
        by (auto simp: assms stack intro!: thread_ok_frame [OF that(3)])
    qed
  qed (use assms in auto)
qed

lemma kinv_install:
  "kinv s L \<Longrightarrow> kinv (s\<lparr>block_installed := (block_installed s)(cpu := True)\<rparr>) L"
  by (erule kinv_quiet) auto

lemma kinv_online: "kinv s L \<Longrightarrow> kinv (s\<lparr>online := w\<rparr>) L"
  by (erule kinv_still) auto

lemma kinv_adopt:
  assumes "kinv s L" "adopt_address_space cpu root s = Some s'"
  shows "kinv s' L"
proof -
  obtain th where "threads s (current_thread s cpu) = Some th"
    "s' = s\<lparr>threads := (threads s)(current_thread s cpu \<mapsto> th\<lparr>address_space := Some root\<rparr>)\<rparr>"
    using assms(2) by (auto simp: adopt_address_space_def check_bind bind_eq_Some_conv split: if_splits)
  then show ?thesis
    using assms(1) by (elim kinv_still) (auto split: if_splits)
qed

lemma kinv_park:
  assumes inv: "kinv s L" and pc: "pcs s cpu = InThread"
    and park: "park_section (current_thread s cpu) s = Some (outcome, s')"
  shows "kinv (if outcome = Parked then s'\<lparr>in_park := insert (current_thread s cpu) (in_park s')\<rparr> else s') L" (is "kinv ?s' L")
proof -
  define me where "me = current_thread s cpu"
  have at: "L me = Some (Cur cpu)"
    using kinv_cur [OF inv] pc by (simp add: me_def)
  obtain th where th: "threads s me = Some th"
    using park by (auto simp: park_section_def bind_eq_Some_conv me_def)
  then have ok: "thread_ok s (Some (Cur cpu)) me th"
    using kinv_thread [OF inv th] at by simp
  define th1 where "th1 = (if outcome = Parked then th\<lparr>tpark := (tpark th)\<lparr>parked := True\<rparr>, tstate := Blocked\<rparr>
    else th\<lparr>tpark := (tpark th)\<lparr>pending := False\<rparr>\<rparr>)"
  define s1 where "s1 = (if outcome = Parked then s\<lparr>in_park := insert me (in_park s)\<rparr> else s)"
  have s': "?s' = s1\<lparr>threads := (threads s)(me \<mapsto> th1)\<rparr>"
    using park th by (auto simp: park_section_def park_def s1_def th1_def me_def split: if_splits)
  have "thread_ok s1 (Some (Cur cpu)) me th1"
    using ok by (auto simp: thread_ok_def s1_def th1_def is_parked_def)
  moreover have "thread_ok s1 l t u" if "thread_ok s l t u" for l t u
    using that by (rule thread_ok_frame) (auto simp: s1_def)
  ultimately show ?thesis
    unfolding s' using inv at pc
    by (elim kinv_still) (auto simp: s1_def th split: if_splits dest!: kinv_cur [OF inv])
qed

lemma kinv_park_return:
  "kinv s L \<Longrightarrow> \<not> sched_is_parked (current_thread s cpu) s \<Longrightarrow>
    kinv (s\<lparr>in_park := in_park s - {current_thread s cpu}\<rparr>) L"
  by (erule kinv_quiet) (auto simp: sched_is_parked_def)

text \<open>Steps that move threads. \<open>L'\<close> is the new placement; what remains to be shown is that it tracks
  the new state and that the threads and processors touched are in order.\<close>

lemma kinv_move:
  assumes inv: "kinv s L"
    and track: "tracks s' L'"
    and live: "\<And>t. L' t \<noteq> None \<Longrightarrow> threads s' t \<noteq> None"
    and dom: "\<And>t. threads s' t \<noteq> None \<Longrightarrow> threads s t \<noteq> None"
    and same: "next_id s' = next_id s"
    and reap: "\<And>t. t \<in> set (reapable s') \<Longrightarrow> threads s' t \<noteq> None"
    and ok: "\<And>t th. threads s' t = Some th \<Longrightarrow> thread_ok s' (L' t) t th"
    and cpus: "\<And>c. cpu_ok s' L' c"
    and fly: "distinct (map fst (in_flight s'))"
    and stack: "\<And>c. on_stack s' c = on_stack s c \<or> (\<exists>t. on_stack s' c = Some t \<and> threads s t \<noteq> None \<and> (\<forall>d. d \<noteq> c \<longrightarrow> on_stack s d \<noteq> Some t \<and> on_stack s' d = on_stack s d))"
  shows "kinv s' L'"
proof (rule kinvI)
  show "unat t < unat (next_id s')" if "threads s' t = Some th" for t th
    using dom [of t] that inv same by (auto simp: kinv_def)
  show "unat t < unat (next_id s')" if "on_stack s' c = Some t" for c t
    using stack [of c] that inv same by (auto simp: kinv_def)
  show "c = d" if "on_stack s' c = Some t" "on_stack s' d = Some t" for c d t
    using stack [of c] stack [of d] that inv unfolding kinv_def by metis
qed (use assms in auto)

lemma on_stack_Cur: "kinv s L \<Longrightarrow> L t = Some (Cur c) \<Longrightarrow> on_stack s d = Some t \<Longrightarrow> d = c"
  using kinv_cpu [of s L d] kinv_tracks [of s L "Cur d" t]
  by (cases "pcs s d") (auto simp: on_stack_def cpu_ok_def)

text \<open>A thread that is queued, in flight or being published stands on no processor.\<close>

lemma off_stack: "kinv s L \<Longrightarrow> L t = Some p \<Longrightarrow> (\<forall>c. p \<noteq> Cur c \<and> p \<noteq> Hand c) \<Longrightarrow> on_stack s d \<noteq> Some t"
  using kinv_cpu [of s L d] kinv_tracks [of s L "Cur d" t]
  by (cases "pcs s d") (auto simp: on_stack_def cpu_ok_def)

lemma is_current_iff:
  assumes "kinv s L" "small t"
  shows "is_current_anywhere t s \<longleftrightarrow> (\<exists>c. L t = Some (Cur c))"
proof
  assume "is_current_anywhere t s"
  then obtain c where c: "current_thread s c = t"
    by (auto simp: is_current_anywhere_def current_thread_of_def split: if_splits)
  then have "pcs s c \<noteq> Off"
    using kinv_cpu [OF assms(1), of c] tag_neq_none(1) [OF assms(2)] by (auto simp: cpu_ok_def)
  then show "\<exists>c. L t = Some (Cur c)"
    using kinv_cur [OF assms(1)] c by blast
next
  assume "\<exists>c. L t = Some (Cur c)"
  then obtain c where "at_place s (Cur c) t"
    using kinv_tracks [OF assms(1)] by blast
  then show "is_current_anywhere t s"
    using kinv_cpu [OF assms(1), of c]
    by (auto simp: is_current_anywhere_def current_thread_of_def cpu_ok_def image_iff intro!: bexI [of _ c])
qed

lemma claim_hit:
  assumes "kinv s L" "small t" "L t = Some (Hand c)" "handoff_id s c = t OR HANDOFF_PARKED"
  shows "claim_parked_handoff t s = (True, s\<lparr>handoff_id := (handoff_id s)(c := t)\<rparr>)"
proof -
  have one: "d = c" if "handoff_id s d = t OR HANDOFF_PARKED" for d
    using that kinv_tracks [OF assms(1), of "Hand d" t] assms(2,3) by (auto simp: tag_simps)
  have "c < MAX_CPUS"
    using kinv_cpu [OF assms(1), of c] assms(2,4) by (auto simp: cpu_ok_def tag_simps)
  then have "position (\<lambda>cpu. handoff_id s cpu = t OR HANDOFF_PARKED) [0..<MAX_CPUS] = Some c"
    using assms(4) by (intro position_unique) (simp_all, use one in blast)
  then show ?thesis
    by (simp add: claim_parked_handoff_def)
qed

lemma claim_miss:
  assumes "kinv s L" "small t" "L t = None"
  shows "claim_parked_handoff t s = (False, s)"
proof -
  have "handoff_id s d \<noteq> t OR HANDOFF_PARKED" for d
    using kinv_tracks [OF assms(1), of "Hand d" t] assms(3) tag_neq_none(2) [OF assms(2)] tag_decode(2) [OF assms(2)]
    by auto
  then have "position (\<lambda>cpu. handoff_id s cpu = t OR HANDOFF_PARKED) [0..<MAX_CPUS] = None"
    by (simp add: position_None)
  then show ?thesis
    by (simp add: claim_parked_handoff_def)
qed

text \<open>Waking a thread that is nowhere: the push is left in flight.\<close>

lemma kinv_fly:
  assumes inv: "kinv s L" and th: "threads s t = Some th" and none: "L t = None"
    and th1: "\<not> is_parked (tpark th1)" "tpriority th1 = tpriority th" "home_cpu th1 = home_cpu th" "context_ptr th1 = context_ptr th"
    and alive: "t \<notin> set (reapable s)"
  shows "kinv (s\<lparr>threads := (threads s)(t \<mapsto> th1), in_flight := in_flight s @ [(t, tpriority th, home_cpu th)]\<rparr>) (L(t \<mapsto> Fly))"
    (is "kinv ?s' ?L'")
  using inv
proof (rule kinv_move)
  have ok: "thread_ok s None t th"
    using kinv_thread [OF inv th] none by simp
  have absent: "t \<notin> fst ` set (in_flight s)"
    using kinv_tracks [OF inv, of Fly t] none by simp
  show "tracks ?s' ?L'"
    unfolding tracks_def
  proof (intro allI)
    fix p u
    show "at_place ?s' p u \<longleftrightarrow> ?L' u = Some p"
      using kinv_tracks [OF inv, of p u] kinv_tracks [OF inv, of p t] none by (cases p) auto
  qed
  show "thread_ok ?s' (?L' u) u v" if "threads ?s' u = Some v" for u v
  proof (cases "u = t")
    case True
    then show ?thesis
      using that ok th1 alive by (simp add: thread_ok_def)
  next
    case False
    then show ?thesis
      using that kinv_thread [OF inv, of u v] by (auto intro!: thread_ok_frame [of s])
  qed
  show "cpu_ok ?s' ?L' c" for c
  proof -
    have "pcs s c \<noteq> Committed t n a b d" for n a b d
      using kinv_cpu [OF inv, of c] none alive th by (auto simp: cpu_ok_def gone_def)
    then show ?thesis
      using kinv_cpu [OF inv, of c] by (elim cpu_ok_frame) (use th in \<open>auto simp: gone_def\<close>)
  qed
  show "distinct (map fst (in_flight ?s'))"
    using inv absent by (simp add: kinv_def)
qed (use inv th in \<open>auto simp: kinv_def split: if_splits\<close>)

text \<open>Waking a thread that still runs, or that is being switched away from: only its park state and
  the tag of its handoff slot change.\<close>

lemma kinv_wake_in_place:
  assumes inv: "kinv s L" and small: "small t" and th: "threads s t = Some th" and at: "L t = Some p" "p = Cur c \<or> p = Hand c"
    and th1: "\<not> is_parked (tpark th1)" "tpriority th1 = tpriority th" "home_cpu th1 = home_cpu th" "context_ptr th1 = context_ptr th"
  shows "kinv (s\<lparr>threads := (threads s)(t \<mapsto> th1),
    handoff_id := (if p = Hand c then (handoff_id s)(c := t) else handoff_id s)\<rparr>) L" (is "kinv ?s' L")
  using inv
proof (rule kinv_move)
  have ok: "thread_ok s (L t) t th"
    using kinv_thread [OF inv th] .
  have slot: "handoff_id s c AND NOT HANDOFF_PARKED = t" "handoff_id s c \<noteq> NO_THREAD" if "p = Hand c"
    using kinv_tracks [OF inv, of "Hand c" t] at that by auto
  show "tracks ?s' L"
    unfolding tracks_def
  proof (intro allI)
    fix q u
    show "at_place ?s' q u \<longleftrightarrow> L u = Some q"
      using kinv_tracks [OF inv, of q u] slot tag_decode(1) [OF small] tag_neq_none(1) [OF small] by (cases q) auto
  qed
  show "thread_ok ?s' (L u) u v" if v: "threads ?s' u = Some v" for u v
  proof (cases "u = t")
    case True
    then show ?thesis
      using v ok th1 at by (auto simp: thread_ok_def)
  next
    case False
    have "L u \<noteq> Some (Hand c)" if "p = Hand c"
      using False kinv_tracks [OF inv, of "Hand c" u] kinv_tracks [OF inv, of "Hand c" t] at that by auto
    then show ?thesis
      using False v kinv_thread [OF inv, of u v] by (auto intro!: thread_ok_frame [of s])
  qed
  show "cpu_ok ?s' L d" for d
    using kinv_cpu [OF inv, of d] by (rule cpu_ok_frame) (use at th slot in \<open>auto simp: gone_def split: if_splits\<close>)
qed (use inv th in \<open>auto simp: kinv_def split: if_splits\<close>)

lemma kinv_unpark:
  assumes inv: "kinv s L" and bound: "unat (next_id s) < 2 ^ 63"
  shows "\<exists>L'. kinv (unpark_section tid s) L'"
proof (cases "threads s tid")
  case None
  then show ?thesis using inv by (auto simp: unpark_section_def)
next
  case (Some th)
  note th = this and ok = kinv_thread [OF inv Some] and sm = kinv_small [OF inv bound Some]
  show ?thesis
  proof (cases "is_parked (tpark th)")
    case False
    have "kinv (s\<lparr>threads := (threads s)(tid \<mapsto> th\<lparr>tpark := (tpark th)\<lparr>pending := True\<rparr>\<rparr>)\<rparr>) L"
      using inv by (rule kinv_still)
        (auto simp: th is_parked_def thread_ok_thread [of "th\<lparr>tpark := (tpark th)\<lparr>pending := True\<rparr>\<rparr>" th] split: if_splits)
    then show ?thesis
      using False th by (auto simp: unpark_section_def wake_def is_parked_def)
  next
    case True
    define th1 where "th1 = th\<lparr>tpark := (tpark th)\<lparr>parked := False\<rparr>, tstate := Ready\<rparr>"
    define s1 where "s1 = s\<lparr>threads := (threads s)(tid \<mapsto> th1)\<rparr>"
    have th1: "\<not> is_parked (tpark th1)" "tpriority th1 = tpriority th" "home_cpu th1 = home_cpu th" "context_ptr th1 = context_ptr th"
      by (simp_all add: th1_def is_parked_def)
    have step: "unpark_section tid s =
        (if is_current_anywhere tid s then s1
         else (case claim_parked_handoff tid s of
            (True, s2) \<Rightarrow> s2\<lparr>threads := threads s1\<rparr>
          | (False, s2) \<Rightarrow> s1\<lparr>in_flight := in_flight s @ [(tid, tpriority th, home_cpu th)]\<rparr>))"
      using th True by (simp add: unpark_section_def wake_def is_parked_def s1_def th1_def Let_def is_current_anywhere_def
          current_thread_of_def claim_parked_handoff_def split: option.split)
    have "\<forall>p. L tid = Some p \<longrightarrow> (\<exists>c. p = Cur c \<or> p = Hand c)"
      using ok True by (simp add: thread_ok_def)
    then consider (cur) c where "L tid = Some (Cur c)" | (hand) c where "L tid = Some (Hand c)" | (none) "L tid = None"
      by (cases "L tid") auto
    then show ?thesis
    proof cases
      case cur
      then have "unpark_section tid s = s\<lparr>threads := (threads s)(tid \<mapsto> th1), handoff_id := handoff_id s\<rparr>"
        using is_current_iff [OF inv sm] by (simp add: step s1_def)
      then show ?thesis
        using kinv_wake_in_place [OF inv sm th cur _ th1] by auto
    next
      case (hand c)
      then have "unpark_section tid s = s\<lparr>threads := (threads s)(tid \<mapsto> th1), handoff_id := (handoff_id s)(c := tid)\<rparr>"
        using is_current_iff [OF inv sm] claim_hit [OF inv sm hand] ok True by (simp add: step s1_def thread_ok_def)
      then show ?thesis
        using kinv_wake_in_place [OF inv sm th hand _ th1] by auto
    next
      case none
      then have "unpark_section tid s = s\<lparr>threads := (threads s)(tid \<mapsto> th1),
          in_flight := in_flight s @ [(tid, tpriority th, home_cpu th)]\<rparr>"
        using is_current_iff [OF inv sm] claim_miss [OF inv sm none] by (simp add: step s1_def)
      then show ?thesis
        using kinv_fly [OF inv th none th1] ok True by (auto simp: thread_ok_def)
    qed
  qed
qed

text \<open>Creating a thread.\<close>

lemma allocate_id_Some:
  "allocate_id s = Some (t, s1) \<longleftrightarrow> unat (next_id s) + 1 < 2 ^ 64 \<and> next_id s \<noteq> NO_THREAD \<and> t = next_id s \<and> s1 = s\<lparr>next_id := next_id s + 1\<rparr>"
  by (auto simp: allocate_id_def checked_add_Some check_bind bind_eq_Some_conv)

lemma allocate_id_unat: "unat (next_id s) + 1 < 2 ^ 64 \<Longrightarrow> unat (next_id s + 1) = unat (next_id s) + 1"
  by (simp add: unat_word_ariths)

lemma fresh_id:
  assumes "kinv s L"
  shows "threads s (next_id s) = None" "L (next_id s) = None" "next_id s \<notin> set (reapable s)" "on_stack s c \<noteq> Some (next_id s)"
  using assms by (auto simp: kinv_def) (metis less_irrefl option.exhaust)+

lemma kinv_spawn:
  assumes inv: "kinv s L" and spawn: "spawn_kernel base prio s = Some s'"
  shows "kinv s' (L(next_id s \<mapsto> Fly))" (is "kinv s' ?L'")
proof -
  let ?t = "next_id s"
  obtain th where th: "context_ptr th \<noteq> 0" "tpriority th = prio" "tpark th = park_default" "home_cpu th = None"
    and s': "s' = s\<lparr>next_id := next_id s + 1, threads := (threads s)(?t \<mapsto> th), in_flight := in_flight s @ [(?t, prio, None)]\<rparr>"
    and bound: "unat (next_id s) + 1 < 2 ^ 64"
    using spawn new_kernel_ok [of base prio] by (auto simp: spawn_kernel_def allocate_id_Some bind_eq_Some_conv)
  have count: "unat (next_id s') = unat (next_id s) + 1"
    using allocate_id_unat [OF bound] s' by simp
  note fresh = fresh_id [OF inv]
  show ?thesis
  proof (rule kinvI)
    show "tracks s' ?L'"
      unfolding tracks_def
    proof (intro allI)
      fix p u
      show "at_place s' p u \<longleftrightarrow> ?L' u = Some p"
        using kinv_tracks [OF inv, of p u] kinv_tracks [OF inv, of p ?t] fresh(2) by (cases p) (auto simp: s')
    qed
    show "thread_ok s' (?L' u) u v" if "threads s' u = Some v" for u v
    proof (cases "u = ?t")
      case True
      then show ?thesis
        using that th fresh(3) by (simp add: s' thread_ok_def is_parked_def park_default_def)
    next
      case False
      then show ?thesis
        using that kinv_thread [OF inv, of u v] by (auto simp: s' intro!: thread_ok_frame [of s])
    qed
    show "cpu_ok s' ?L' c" for c
    proof -
      have "pcs s c \<noteq> Committed ?t n a b d" for n a b d
        using fresh(4) [of c] by (auto simp: on_stack_def)
      then show ?thesis
        using kinv_cpu [OF inv, of c] by (elim cpu_ok_frame) (auto simp: s' gone_def)
    qed
    show "distinct (map fst (in_flight s'))"
      using inv fresh(2) kinv_tracks [OF inv, of Fly ?t] by (simp add: kinv_def s')
  qed (use inv count in \<open>auto simp: kinv_def s' less_Suc_eq split: if_splits\<close>)
qed

lemma kinv_init:
  assumes inv: "kinv s L" and cpu: "cpu < MAX_CPUS" "block_installed s cpu" "pcs s cpu = Off" "\<not> bit (idle_installed s) cpu"
    and init: "init cpu s = Some s1"
  shows "kinv (set_pc cpu InThread s1) (L(next_id s \<mapsto> Cur cpu))" (is "kinv ?s' ?L'")
proof -
  let ?t = "next_id s"
  have s1: "s1 = s\<lparr>next_id := ?t + 1, threads := (threads s)(?t \<mapsto> adopt_current cpu),
      current_thread := (current_thread s)(cpu := ?t), idle_installed := idle_installed s OR push_bit cpu 1\<rparr>"
    and bound: "unat ?t + 1 < 2 ^ 64"
    using init cpu(4) by (auto simp: init_def allocate_id_Some bind_eq_Some_conv)
  have count: "unat (next_id s1) = unat (next_id s) + 1"
    using allocate_id_unat [OF bound] s1 by simp
  note fresh = fresh_id [OF inv]
  have stack: "on_stack ?s' c = (if c = cpu then Some ?t else on_stack s c)" for c
    by (simp add: on_stack_def s1)
  show ?thesis
  proof (rule kinvI)
    show "tracks ?s' ?L'"
      unfolding tracks_def
    proof (intro allI)
      fix p u
      show "at_place ?s' p u \<longleftrightarrow> ?L' u = Some p"
        using kinv_tracks [OF inv, of p u] kinv_tracks [OF inv, of p ?t] fresh(2) cpu(3) by (cases p) (auto simp: s1)
    qed
    show "thread_ok ?s' (?L' u) u v" if "threads ?s' u = Some v" for u v
    proof (cases "u = ?t")
      case True
      then show ?thesis
        using that fresh(3) cpu stack by (auto simp: s1 thread_ok_def is_parked_def park_default_def adopt_current_def)
    next
      case False
      then have u: "threads s u = Some v"
        using that by (simp add: s1)
      have "L u \<noteq> Some (Pub cpu)"
        using kinv_tracks [OF inv, of "Pub cpu" u] cpu(3) by auto
      moreover have "\<exists>d. on_stack ?s' d = Some u" if "on_stack s c = Some u" for c
        using that stack [of c] cpu(3) by (cases "c = cpu") (auto simp: on_stack_def [of s cpu])
      ultimately show ?thesis
        using False by (intro thread_ok_other [OF kinv_thread [OF inv u]]) (auto simp: s1)
    qed
    show "cpu_ok ?s' ?L' c" for c
    proof (cases "c = cpu")
      case True
      then show ?thesis
        using kinv_cpu [OF inv, of c] cpu by (auto simp: cpu_ok_def s1)
    next
      case False
      have "pcs s c \<noteq> Committed ?t n a b d" for n a b d
        using fresh(4) [of c] by (auto simp: on_stack_def)
      with False show ?thesis
        using kinv_cpu [OF inv, of c] by (elim cpu_ok_frame) (auto simp: s1 gone_def)
    qed
    show "c = d" if "on_stack ?s' c = Some t" "on_stack ?s' d = Some t" for c d t
      using that fresh(4) inv unfolding stack by (auto simp: kinv_def split: if_splits)
    show "unat t < unat (next_id ?s')" if "on_stack ?s' c = Some t" for c t
      using that inv count unfolding stack by (auto simp: kinv_def less_Suc_eq split: if_splits)
  qed (use inv count in \<open>auto simp: kinv_def s1 less_Suc_eq split: if_splits\<close>)
qed

text \<open>Queues: what a pop and a steal take out, and what a push puts in.\<close>

definition rq_taken :: "run_queue \<Rightarrow> thread_id \<Rightarrow> run_queue \<Rightarrow> bool" where
  "rq_taken q t q' \<longleftrightarrow> rq_wf q' \<and> rq_contains q t \<and> (\<forall>u. rq_contains q' u \<longleftrightarrow> u \<noteq> t \<and> rq_contains q u) \<and>
     (\<forall>u. rq_contains q' u \<longrightarrow> rq_prio q' u = rq_prio q u)"

lemma rq_pop_taken:
  assumes "rq_wf q" "rq_pop q = (Some t, q')"
  shows "rq_taken q t q'"
proof (cases "rq_order q")
  case Nil
  then show ?thesis using rq_pop_empty [OF assms(1)] assms(2) by simp
next
  case (Cons x xs)
  then have "x = t" "rq_order q' = xs"
    using rq_pop_order [OF assms(1)] assms(2) by auto
  then show ?thesis
    using Cons rq_order_distinct [OF assms(1)] rq_order_set [OF assms(1)] rq_wf_pop [OF assms(1)] assms(2)
      rq_order_set [of q'] rq_prio_pop [OF assms(1)] by (auto simp: rq_taken_def set_eq_iff)
qed

lemma rq_steal_taken:
  assumes "rq_wf q" "rq_steal q = (Some t, q')"
  shows "rq_taken q t q'"
proof (cases "rq_order q = []")
  case True
  then show ?thesis using rq_steal_empty [OF assms(1)] assms(2) by simp
next
  case False
  then obtain pre post where "rq_order q = pre @ t # post" "rq_order q' = pre @ post"
    using rq_steal_order [OF assms(1)] assms(2) by fastforce
  then show ?thesis
    using rq_order_distinct [OF assms(1)] rq_order_set [OF assms(1)] rq_wf_steal [OF assms(1)] assms(2)
      rq_order_set [of q'] rq_prio_steal [OF assms(1)] by (auto simp: rq_taken_def set_eq_iff)
qed

lemma rq_taken_runnable:
  assumes "rq_wf q" "0 < rq_runnable_len q"
  shows "rq_pop q = (Some t, q') \<Longrightarrow> rq_prio q t \<noteq> Some Idle" "rq_steal q = (Some t, q') \<Longrightarrow> rq_prio q t \<noteq> Some Idle"
proof -
  obtain i n h where q: "q = \<lparr>bands = [i, n, h]\<rparr>" "distinct (i @ n @ h)"
    using assms(1) by (rule rq_cases)
  then show "rq_pop q = (Some t, q') \<Longrightarrow> rq_prio q t \<noteq> Some Idle" "rq_steal q = (Some t, q') \<Longrightarrow> rq_prio q t \<noteq> Some Idle"
    using assms(2) by (auto simp: rq_pop_def rq_steal_def rq_prio_def ORDER_def rq_runnable_len_def split: list.splits if_splits)
qed

lemma rq_take_None:
  assumes "rq_wf q"
  shows "rq_pop q = (None, q') \<Longrightarrow> q' = q" "rq_steal q = (None, q') \<Longrightarrow> q' = q"
proof -
  obtain i n h where q: "q = \<lparr>bands = [i, n, h]\<rparr>"
    using assms by (rule rq_cases)
  then show "rq_pop q = (None, q') \<Longrightarrow> q' = q" "rq_steal q = (None, q') \<Longrightarrow> q' = q"
    by (auto simp: rq_pop_def rq_steal_def ORDER_def split: list.splits if_splits)
qed

lemma rq_push_absent:
  assumes "rq_wf q" "\<not> rq_contains q t"
  shows "rq_wf (rq_push q t p)" "rq_contains (rq_push q t p) u \<longleftrightarrow> u = t \<or> rq_contains q u"
    "rq_prio (rq_push q t p) t = Some p" "rq_contains q u \<Longrightarrow> rq_prio (rq_push q t p) u = rq_prio q u"
proof -
  show wf: "rq_wf (rq_push q t p)"
    using assms(1) by (rule rq_wf_push)
  obtain i n h where q: "q = \<lparr>bands = [i, n, h]\<rparr>"
    using assms(1) by (rule rq_cases)
  then show "rq_contains (rq_push q t p) u \<longleftrightarrow> u = t \<or> rq_contains q u"
    using assms(2) by (cases p) (auto simp: rq_push_def rq_contains_def)
  show "rq_prio (rq_push q t p) t = Some p"
    using q assms(2) by (subst rq_prio_Some [OF wf]) (cases p; auto simp: rq_push_def)
  show "rq_contains q u \<Longrightarrow> rq_prio (rq_push q t p) u = rq_prio q u"
    using rq_prio_push [OF assms(1)] rq_order_set [OF assms(1)] by auto
qed

text \<open>A processor inside \<open>take_next\<close> that found nothing goes on, or back to its thread.\<close>

lemma kinv_pc:
  assumes inv: "kinv s L" and old: "pcs s cpu = InThread \<or> pcs s cpu = Stealing st os"
    and new: "p = InThread \<or> (p = Stealing st' os' \<and> (st' = Exited \<longrightarrow> current_thread s cpu \<notin> in_park s))"
  shows "kinv (set_pc cpu p s) L" (is "kinv ?s' L")
  using inv
proof (rule kinv_move)
  have stack: "on_stack ?s' = on_stack s"
    using old new by (auto simp: on_stack_def fun_eq_iff)
  show "tracks ?s' L"
    by (rule tracks_same [of s]) (use inv old new in \<open>auto simp: kinv_def split: if_splits\<close>)
  show "thread_ok ?s' (L u) u v" if "threads ?s' u = Some v" for u v
  proof -
    have "L u \<noteq> Some (Pub cpu)"
      using kinv_tracks [OF inv, of "Pub cpu" u] old by auto
    then show ?thesis
      using that stack by (intro thread_ok_other [OF kinv_thread [OF inv]]) auto
  qed
  show "cpu_ok ?s' L c" for c
  proof (cases "c = cpu")
    case True
    then show ?thesis
      using kinv_cpu [OF inv, of c] old new kinv_wf [OF inv] cpu_ok_no_handoff [OF kinv_cpu [OF inv, of c]]
      by (elim cpu_ok_inside) auto
  next
    case False
    then show ?thesis
      using kinv_cpu [OF inv, of c] by (elim cpu_ok_frame) (auto simp: gone_def)
  qed
  show "on_stack ?s' c = on_stack s c \<or> Q" for c Q
    using stack by simp
qed (use inv in \<open>auto simp: kinv_def\<close>)

text \<open>A thread leaves a queue for the processor that took it.\<close>

lemma kinv_pick:
  assumes inv: "kinv s L" and old: "pcs s cpu = InThread \<or> pcs s cpu = Stealing st' os"
    and take: "rq_taken (run_queue_of s qc) t q'"
    and exit: "st = Exited \<longrightarrow> current_thread s cpu \<notin> in_park s"
    and home: "qc = cpu \<or> rq_prio (run_queue_of s qc) t \<noteq> Some Idle"
  shows "kinv (set_pc cpu (Picked st t) (rq_update qc q' s)) (L(t \<mapsto> Pick cpu))" (is "kinv ?s' ?L'")
  using inv
proof (rule kinv_move)
  have at: "L t = Some (Que qc)"
    using kinv_tracks [OF inv, of "Que qc" t] take by (simp add: rq_taken_def)
  obtain th where th: "threads s t = Some th"
    using kinv_live [OF inv at] by blast
  have ok: "thread_ok s (Some (Que qc)) t th"
    using kinv_thread [OF inv th] at by simp
  have stack: "on_stack ?s' = on_stack s"
    using old by (auto simp: on_stack_def fun_eq_iff rq_update_def)
  show "tracks ?s' ?L'"
    unfolding tracks_def
  proof (intro allI)
    fix p u
    show "at_place ?s' p u \<longleftrightarrow> ?L' u = Some p"
      using kinv_tracks [OF inv, of p u] kinv_tracks [OF inv, of p t] at old take
      by (cases p) (auto simp: rq_update_def rq_taken_def)
  qed
  show "thread_ok ?s' (?L' u) u v" if v: "threads ?s' u = Some v" for u v
  proof (cases "u = t")
    case True
    have "on_stack s d \<noteq> Some t" for d
      using off_stack [OF inv at] by simp
    moreover have "home_cpu th = Some h \<Longrightarrow> h = cpu" for h
      using ok home by (auto simp: thread_ok_def)
    ultimately show ?thesis
      using v True th ok stack by (simp add: rq_update_def thread_ok_def)
  next
    case False
    then have u: "threads s u = Some v"
      using v by (simp add: rq_update_def)
    have "L u \<noteq> Some (Pub cpu)"
      using kinv_tracks [OF inv, of "Pub cpu" u] old by auto
    moreover have "rq_prio q' u = rq_prio (run_queue_of s qc) u" if "L u = Some (Que qc)"
      using that False take kinv_tracks [OF inv, of "Que qc" u] by (simp add: rq_taken_def)
    ultimately show ?thesis
      using False stack by (intro thread_ok_other [OF kinv_thread [OF inv u]]) (auto simp: rq_update_def)
  qed
  show "cpu_ok ?s' ?L' c" for c
  proof (cases "c = cpu")
    case True
    then show ?thesis
      using kinv_cpu [OF inv, of c] old exit take kinv_wf [OF inv] cpu_ok_no_handoff [OF kinv_cpu [OF inv, of c]]
      by (elim cpu_ok_inside) (auto simp: rq_update_def rq_taken_def)
  next
    case False
    have "pcs s c \<noteq> Committed t n a b d" for n a b d
      using off_stack [OF inv at, of c] by (auto simp: on_stack_def)
    with False show ?thesis
      using kinv_cpu [OF inv, of c] take
      by (elim cpu_ok_frame) (auto simp: rq_update_def gone_def rq_taken_def)
  qed
  show "on_stack ?s' c = on_stack s c \<or> Q" for c Q
    using stack by simp
  show "?L' u \<noteq> None \<Longrightarrow> threads ?s' u \<noteq> None" for u
    using inv th by (auto simp: kinv_def rq_update_def split: if_splits)
qed (use inv in \<open>auto simp: kinv_def rq_update_def\<close>)

lemma rq_update_same [simp]: "rq_update c (run_queue_of s c) s = s"
  by (simp add: rq_update_def)

lemma kinv_take:
  assumes inv: "kinv s L" and old: "pcs s cpu = InThread \<or> pcs s cpu = Stealing st' os"
    and exit: "st = Exited \<longrightarrow> current_thread s cpu \<notin> in_park s"
    and miss: "miss = InThread \<or> miss = Stealing st os'"
  shows "\<exists>L'. kinv (picked cpu st miss (take_local cpu s)) L'"
    and "\<exists>L'. kinv (picked cpu st miss (take_idle cpu s)) L'"
    and "\<exists>L'. kinv (picked cpu st miss (take_remote other busy s)) L'"
proof -
  have none: "kinv (set_pc cpu miss s) L"
    using kinv_pc [OF inv old] miss exit by blast
  have counter: "kinv (set_pc cpu miss (s\<lparr>steal_contended := n\<rparr>)) L" for n
    by (rule kinv_quiet [OF none]) auto
  have pop: "\<exists>L'. kinv (picked cpu st miss (case rq_pop (run_queue_of s cpu) of (r, q) \<Rightarrow> (r, rq_update cpu q s))) L'"
  proof (cases "rq_pop (run_queue_of s cpu)")
    case (Pair r q)
    show ?thesis
    proof (cases r)
      case None
      then have "q = run_queue_of s cpu"
        using Pair rq_take_None(1) [OF kinv_wf [OF inv]] by simp
      then show ?thesis
        using Pair None none by auto
    next
      case (Some t)
      then have "rq_taken (run_queue_of s cpu) t q"
        using Pair rq_pop_taken [OF kinv_wf [OF inv]] by simp
      from kinv_pick [OF inv old this exit] show ?thesis
        using Pair Some by auto
    qed
  qed
  then show "\<exists>L'. kinv (picked cpu st miss (take_idle cpu s)) L'"
    by (simp add: take_idle_def)
  show "\<exists>L'. kinv (picked cpu st miss (take_local cpu s)) L'"
    using pop none by (auto simp: take_local_def)
  show "\<exists>L'. kinv (picked cpu st miss (take_remote other busy s)) L'"
  proof (cases "rq_steal (run_queue_of s other)")
    case (Pair r q)
    show ?thesis
    proof (cases r)
      case None
      then have "q = run_queue_of s other"
        using Pair rq_take_None(2) [OF kinv_wf [OF inv]] by simp
      then show ?thesis
        using Pair None none counter by (auto simp: take_remote_def)
    next
      case (Some t)
      have "kinv (set_pc cpu (Picked st t) ((rq_update other q s)\<lparr>steals := steals s + 1\<rparr>)) (L(t \<mapsto> Pick cpu))"
        if "0 < rq_runnable_len (run_queue_of s other)"
      proof -
        have "rq_taken (run_queue_of s other) t q"
          using Pair Some rq_steal_taken [OF kinv_wf [OF inv]] by simp
        moreover have "rq_prio (run_queue_of s other) t \<noteq> Some Idle"
          using Pair Some rq_taken_runnable(2) [OF kinv_wf [OF inv] that] by simp
        ultimately show ?thesis
          by (intro kinv_quiet [OF kinv_pick [OF inv old _ exit]]) auto
      qed
      then show ?thesis
        using Pair Some none counter by (auto simp: take_remote_def)
    qed
  qed
qed

lemma remove1_keyed:
  assumes "distinct (map fst xs)" "(t, y) \<in> set xs"
  shows "distinct (map fst (remove1 (t, y) xs))" "fst ` set (remove1 (t, y) xs) = fst ` set xs - {t}"
    "u \<noteq> t \<Longrightarrow> (u, z) \<in> set xs \<Longrightarrow> (u, z) \<in> set (remove1 (t, y) xs)"
proof -
  have xs: "distinct xs" "inj_on fst (set xs)"
    using assms(1) by (auto simp: distinct_map)
  then have rem: "set (remove1 (t, y) xs) = set xs - {(t, y)}"
    by (simp add: set_remove1_eq)
  then show "fst ` set (remove1 (t, y) xs) = fst ` set xs - {t}"
    using inj_on_image_set_diff [OF xs(2), of "set xs" "{(t, y)}"] assms(2) by simp
  show "distinct (map fst (remove1 (t, y) xs))"
    using xs rem by (auto simp: distinct_map inj_on_diff)
  show "u \<noteq> t \<Longrightarrow> (u, z) \<in> set xs \<Longrightarrow> (u, z) \<in> set (remove1 (t, y) xs)"
    using rem by simp
qed

text \<open>A thread enters a queue, from in flight or from a publication.\<close>

lemma kinv_enqueue:
  assumes inv: "kinv s L" and th: "threads s t = Some th" and at: "L t = Some p0"
    and same: "threads s' = threads s" "next_id s' = next_id s" "reapable s' = reapable s" "handoff_id s' = handoff_id s"
      "handoff_priority s' = handoff_priority s" "block_installed s' = block_installed s" "current_thread s' = current_thread s"
      "in_park s' = in_park s"
    and queue: "run_queue_of s' = (run_queue_of s)(qc := rq_push (run_queue_of s qc) t (tpriority th))"
    and home: "\<And>h. home_cpu th = Some h \<Longrightarrow> qc = h"
    and src: "p0 = Fly \<and> pcs s' = pcs s \<and> in_flight s' = remove1 (t, tpriority th, home_cpu th) (in_flight s) \<or>
      p0 = Pub cpu \<and> pcs s' = (pcs s)(cpu := InThread) \<and> in_flight s' = in_flight s"
  shows "kinv s' (L(t \<mapsto> Que qc))" (is "kinv s' ?L'")
  using inv
proof (rule kinv_move)
  have ok: "thread_ok s (Some p0) t th"
    using kinv_thread [OF inv th] at by simp
  have absent: "\<not> rq_contains (run_queue_of s qc) t"
    using kinv_tracks [OF inv, of "Que qc" t] at src by auto
  note push = rq_push_absent [OF kinv_wf [OF inv] absent]
  have pub: "pcs s cpu = Publishing t (tpriority th)" if "p0 = Pub cpu"
    using ok that by (simp add: thread_ok_def)
  have stack: "on_stack s' = on_stack s"
    using src pub by (auto simp: on_stack_def fun_eq_iff same)
  have dist: "distinct (map fst (in_flight s))"
    using inv by (simp add: kinv_def)
  have flying: "(t, tpriority th, home_cpu th) \<in> set (in_flight s)" if "p0 = Fly"
    using ok that by (simp add: thread_ok_def)
  show "tracks s' ?L'"
    unfolding tracks_def
  proof (intro allI)
    fix p u
    show "at_place s' p u \<longleftrightarrow> ?L' u = Some p"
    proof (cases "p = Fly")
      case True
      have "fst ` set (in_flight s') = fst ` set (in_flight s) - (if p0 = Fly then {t} else {})"
        using src remove1_keyed(2) [OF dist flying] by (cases "p0 = Fly") simp_all
      then show ?thesis
        using True kinv_tracks [OF inv, of Fly u] kinv_tracks [OF inv, of Fly t] at by (cases "u = t") simp_all
    next
      case False
      then show ?thesis
        using kinv_tracks [OF inv, of p u] kinv_tracks [OF inv, of p t] at src push(2) pub
        by (cases p) (auto simp: same queue split: if_splits)
    qed
  qed
  show "thread_ok s' (?L' u) u v" if v: "threads s' u = Some v" for u v
  proof (cases "u = t")
    case True
    have "on_stack s d \<noteq> Some t" for d
      using off_stack [OF inv at] src by auto
    moreover have "\<not> is_parked (tpark th)" "t \<notin> set (reapable s)"
      using ok src by (auto simp: thread_ok_def)
    ultimately show ?thesis
      using v True th ok stack home push(3) by (simp add: same queue thread_ok_def)
  next
    case False
    then have u: "threads s u = Some v"
      using v by (simp add: same)
    have "L u \<noteq> Some (Pub cpu)" if "p0 = Pub cpu"
      using kinv_tracks [OF inv, of "Pub cpu" u] pub [OF that] False by auto
    moreover have "rq_prio (run_queue_of s' qc) u = rq_prio (run_queue_of s qc) u" if "L u = Some (Que qc)"
      using that push(4) kinv_tracks [OF inv, of "Que qc" u] by (simp add: queue)
    ultimately show ?thesis
      using False stack src remove1_keyed(3) [OF dist flying False]
      by (intro thread_ok_other [OF kinv_thread [OF inv u]]) (auto simp: same queue)
  qed
  show "cpu_ok s' ?L' c" for c
  proof -
    have other: "cpu_ok s' ?L' c" if "pcs s' c = pcs s c"
    proof -
      have "pcs s c \<noteq> Committed t n a b d" for n a b d
        using off_stack [OF inv at, of c] src by (auto simp: on_stack_def)
      then show ?thesis
        using kinv_cpu [OF inv, of c] that push(1) by (elim cpu_ok_frame) (auto simp: same queue gone_def)
    qed
    show ?thesis
    proof (cases "pcs s' c = pcs s c")
      case False
      then have c: "c = cpu" "p0 = Pub cpu" "pcs s' c = InThread"
        using src by (auto split: if_splits)
      then show ?thesis
        using kinv_cpu [OF inv, of c] pub push(1) kinv_wf [OF inv] cpu_ok_no_handoff [OF kinv_cpu [OF inv, of c]]
        by (elim cpu_ok_inside) (auto simp: same queue)
    qed (rule other)
  qed
  show "on_stack s' c = on_stack s c \<or> Q" for c Q
    using stack by simp
  show "?L' u \<noteq> None \<Longrightarrow> threads s' u \<noteq> None" for u
    using inv th same by (auto simp: kinv_def split: if_splits)
  show "distinct (map fst (in_flight s'))"
    using dist src remove1_keyed(1) [OF dist flying] by auto
qed (use inv in \<open>auto simp: kinv_def same\<close>)

lemma kinv_push:
  assumes inv: "kinv s L" and e: "e \<in> set (in_flight s)"
  shows "\<exists>L'. kinv (push_in_flight cpu e s) L'"
proof -
  obtain t prio home where e': "e = (t, prio, home)"
    by (cases e)
  have at: "L t = Some Fly"
    using kinv_tracks [OF inv, of Fly t] e e' by force
  obtain th where th: "threads s t = Some th"
    using kinv_live [OF inv at] by blast
  have ok: "thread_ok s (Some Fly) t th"
    using kinv_thread [OF inv th] at by simp
  then have "(t, tpriority th, home_cpu th) \<in> set (in_flight s)"
    by (simp add: thread_ok_def)
  moreover have "distinct (map fst (in_flight s))"
    using inv by (simp add: kinv_def)
  ultimately have same: "prio = tpriority th" "home = home_cpu th"
    using e e' by (auto dest: eq_key_imp_eq_value)
  have tgt: "push_target cpu home s = h" if "home_cpu th = Some h" for h
    using ok that same by (simp add: push_target_def thread_ok_def)
  show ?thesis
    by (rule exI, rule kinv_enqueue [OF inv th at, where qc = "push_target cpu home s"])
      (use tgt in \<open>simp_all add: push_in_flight_def e' same rq_update_def Let_def\<close>)
qed

lemma kinv_publish_push:
  assumes inv: "kinv s L" and pc: "pcs s cpu = Publishing t prio"
  shows "\<exists>L'. kinv (publish_push cpu t prio s) L'"
proof -
  have at: "L t = Some (Pub cpu)"
    using kinv_tracks [OF inv, of "Pub cpu" t] pc by simp
  obtain th where th: "threads s t = Some th"
    using kinv_live [OF inv at] by blast
  have ok: "thread_ok s (Some (Pub cpu)) t th"
    using kinv_thread [OF inv th] at by simp
  then have own: "prio = tpriority th" "\<And>h. home_cpu th = Some h \<Longrightarrow> cpu = h"
    using pc by (simp_all add: thread_ok_def)
  show ?thesis
    by (rule exI, rule kinv_enqueue [OF inv th at, where qc = cpu and cpu = cpu])
      (use own in \<open>simp_all add: publish_push_def rq_update_def\<close>)
qed

lemma reap_ids_eq:
  "(\<And>t. t \<in> set tids \<Longrightarrow> \<not> is_current_anywhere t s) \<Longrightarrow>
    reap_ids tids orphans s = s\<lparr>threads := (\<lambda>t. if t \<in> set tids then None else threads s t), reapable := reapable s @ orphans\<rparr>"
proof (induction tids arbitrary: s)
  case Nil
  then show ?case by simp
next
  case (Cons t tids)
  have "\<not> is_current_anywhere u (s\<lparr>threads := (threads s)(t := None)\<rparr>)" if "u \<in> set tids" for u
    using Cons.prems that by (simp add: is_current_anywhere_def current_thread_of_def)
  from Cons.IH [OF this] Cons.prems [of t] show ?case
    by (simp add: fun_eq_iff)
qed

lemma reapable_live: "kinv s L \<Longrightarrow> t \<in> set (reapable s) \<Longrightarrow> \<exists>th. threads s t = Some th"
  by (auto simp: kinv_def)

lemma reapable_nowhere:
  assumes "kinv s L" "t \<in> set (reapable s)"
  shows "L t = None"
proof -
  obtain th where "threads s t = Some th"
    using reapable_live [OF assms] by blast
  from kinv_thread [OF assms(1) this] assms(2) show ?thesis
    by (simp add: thread_ok_def)
qed

lemma reap_eq:
  assumes inv: "kinv s L" and bound: "unat (next_id s) < 2 ^ 63"
  shows "reap s = s\<lparr>threads := (\<lambda>t. if t \<in> set (reapable s) then None else threads s t), reapable := []\<rparr>"
proof -
  have "\<not> is_current_anywhere t s" if t: "t \<in> set (reapable s)" for t
  proof -
    obtain th where "threads s t = Some th"
      using reapable_live [OF inv t] by blast
    then show ?thesis
      using is_current_iff [OF inv kinv_small [OF inv bound]] reapable_nowhere [OF inv t] by auto
  qed
  then have "\<not> is_current_anywhere t (s\<lparr>reapable := []\<rparr>)" if "t \<in> set (reapable s)" for t
    using that by (simp add: is_current_anywhere_def current_thread_of_def)
  then show ?thesis
    unfolding reap_def by (subst reap_ids_eq) (simp_all cong: if_cong)
qed

lemma kinv_reap:
  assumes inv: "kinv s L" and bound: "unat (next_id s) < 2 ^ 63"
  shows "kinv (reap s) L"
proof -
  let ?s' = "s\<lparr>threads := (\<lambda>t. if t \<in> set (reapable s) then None else threads s t), reapable := []\<rparr>"
  have "kinv ?s' L"
    using inv
  proof (rule kinv_move)
    show "tracks ?s' L"
      by (rule tracks_same [of s]) (use inv in \<open>auto simp: kinv_def\<close>)
    show "thread_ok ?s' (L t) t th" if "threads ?s' t = Some th" for t th
      using that by (intro thread_ok_other [OF kinv_thread [OF inv]]) (auto split: if_splits)
    show "cpu_ok ?s' L c" for c
      using kinv_cpu [OF inv, of c] by (elim cpu_ok_frame) (auto simp: gone_def split: if_splits)
    show "L t \<noteq> None \<Longrightarrow> threads ?s' t \<noteq> None" for t
      using inv reapable_nowhere [OF inv, of t] by (auto simp: kinv_def)
  qed (use inv in \<open>auto simp: kinv_def split: if_splits\<close>)
  then show ?thesis
    by (simp add: reap_eq [OF inv bound])
qed

text \<open>The \<open>SCHED\<close> section of \<open>schedule\<close>. None of the source's panics is reached.\<close>

lemma schedule_section_eq:
  assumes inv: "kinv s L" and pc: "pcs s cpu = Picked st nxt"
  obtains thc thn x where "threads s (current_thread s cpu) = Some thc" "threads s nxt = Some thn" "current_thread s cpu \<noteq> nxt"
    "L (current_thread s cpu) = Some (Cur cpu)" "L nxt = Some (Pick cpu)" "context_ptr thn \<noteq> 0"
    "schedule_section cpu st nxt s = Some (s\<lparr>
       threads := (threads s)(current_thread s cpu \<mapsto> thc\<lparr>tstate := x\<rparr>, nxt \<mapsto> thn\<lparr>tstate := Running\<rparr>),
       reapable := (if st = Exited then reapable s @ [current_thread s cpu] else reapable s),
       handoff_priority := (if st = Exited then handoff_priority s
          else (handoff_priority s)(cpu := priority_as_u8 (tpriority thc))),
       handoff_id := (handoff_id s)(cpu := (if st = Exited then NO_THREAD
          else if is_parked (tpark thc) then current_thread s cpu OR HANDOFF_PARKED else current_thread s cpu)),
       current_thread := (current_thread s)(cpu := nxt),
       pcs := (pcs s)(cpu := Committed (current_thread s cpu) nxt (kernel_stack_top thn) (address_space thn) (context_ptr thn))\<rparr>)"
proof -
  let ?cur = "current_thread s cpu"
  have cur: "L ?cur = Some (Cur cpu)"
    using kinv_cur [OF inv] pc by simp
  have nxt: "L nxt = Some (Pick cpu)"
    using kinv_tracks [OF inv, of "Pick cpu" nxt] pc by simp
  obtain thc where thc: "threads s ?cur = Some thc"
    using kinv_live [OF inv cur] by blast
  obtain thn where thn: "threads s nxt = Some thn"
    using kinv_live [OF inv nxt] by blast
  have "on_stack s c \<noteq> Some nxt" for c
    using off_stack [OF inv nxt] by simp
  then have ctx: "context_ptr thn \<noteq> 0"
    using kinv_thread [OF inv thn] by (auto simp: thread_ok_def)
  have neq: "?cur \<noteq> nxt"
    using cur nxt by auto
  show thesis
    by (rule that [OF thc thn neq cur nxt ctx, of "if st = Exited then Exited else if tstate thc = Exited then Exited
          else if is_parked (tpark thc) then Blocked else Ready"])
      (use neq ctx thc thn in \<open>simp add: schedule_section_def outgoing_def Let_def sched_is_parked_def\<close>)
qed

lemma kinv_commit:
  assumes inv: "kinv s L" and bound: "unat (next_id s) < 2 ^ 63" and pc: "pcs s cpu = Picked st nxt"
    and step: "schedule_section cpu st nxt s = Some s'"
  shows "\<exists>L'. kinv s' L'"
proof -
  let ?cur = "current_thread s cpu"
  from schedule_section_eq [OF inv pc] obtain thc thn x where
    thc: "threads s ?cur = Some thc" and thn: "threads s nxt = Some thn" and neq: "?cur \<noteq> nxt"
    and cur: "L ?cur = Some (Cur cpu)" and nxt: "L nxt = Some (Pick cpu)" and ctx: "context_ptr thn \<noteq> 0"
    and s': "s' = s\<lparr>
       threads := (threads s)(?cur \<mapsto> thc\<lparr>tstate := x\<rparr>, nxt \<mapsto> thn\<lparr>tstate := Running\<rparr>),
       reapable := (if st = Exited then reapable s @ [?cur] else reapable s),
       handoff_priority := (if st = Exited then handoff_priority s
          else (handoff_priority s)(cpu := priority_as_u8 (tpriority thc))),
       handoff_id := (handoff_id s)(cpu := (if st = Exited then NO_THREAD
          else if is_parked (tpark thc) then ?cur OR HANDOFF_PARKED else ?cur)),
       current_thread := (current_thread s)(cpu := nxt),
       pcs := (pcs s)(cpu := Committed ?cur nxt (kernel_stack_top thn) (address_space thn) (context_ptr thn))\<rparr>"
    using step by (metis option.inject)
  have small: "small ?cur"
    using kinv_small [OF inv bound thc] .
  define L' where "L' = L(nxt \<mapsto> Cur cpu, ?cur := (if st = Exited then None else Some (Hand cpu)))"
  have okc: "thread_ok s (Some (Cur cpu)) ?cur thc" and okn: "thread_ok s (Some (Pick cpu)) nxt thn"
    using kinv_thread [OF inv thc] kinv_thread [OF inv thn] cur nxt by simp_all
  have slot: "handoff_id s cpu = NO_THREAD"
    using cpu_ok_no_handoff [OF kinv_cpu [OF inv, of cpu]] pc by simp
  have stack: "on_stack s' = on_stack s"
    using pc by (auto simp: s' on_stack_def fun_eq_iff)
  have "kinv s' L'"
    using inv
  proof (rule kinv_move)
    show "tracks s' L'"
      unfolding tracks_def
    proof (intro allI)
      fix p u
      show "at_place s' p u \<longleftrightarrow> L' u = Some p"
        using kinv_tracks [OF inv, of p u] kinv_tracks [OF inv, of p ?cur] kinv_tracks [OF inv, of p nxt] cur nxt neq pc slot
          tag_decode [OF small] tag_neq_none [OF small]
        by (cases p) (auto simp: s' L'_def split: if_splits)
    qed
    show "thread_ok s' (L' u) u v" if v: "threads s' u = Some v" for u v
    proof -
      consider "u = ?cur" | "u = nxt" | "u \<noteq> ?cur" "u \<noteq> nxt" by blast
      then show ?thesis
      proof cases
        case 1
        have "\<not> is_parked (tpark thc)" if "st = Exited"
          using okc kinv_cpu [OF inv, of cpu] pc that by (auto simp: thread_ok_def cpu_ok_def)
        then have "thread_ok s' (L' ?cur) ?cur thc"
          using neq okc stack by (simp add: s' L'_def thread_ok_def)
        moreover have "v = thc\<lparr>tstate := x\<rparr>"
          using v 1 neq by (simp add: s')
        ultimately show ?thesis
          using 1 by simp
      next
        case 2
        have "\<not> is_parked (tpark thn)"
          using okn by (auto simp: thread_ok_def)
        then have "thread_ok s' (L' nxt) nxt thn"
          using neq okn stack ctx by (simp add: s' L'_def thread_ok_def)
        moreover have "v = thn\<lparr>tstate := Running\<rparr>"
          using v 2 by (simp add: s')
        ultimately show ?thesis
          using 2 by simp
      next
        case 3
        then have u: "threads s u = Some v"
          using v by (simp add: s')
        have "L u \<noteq> Some (Pub cpu)" "L u \<noteq> Some (Hand cpu)"
          using kinv_tracks [OF inv, of "Pub cpu" u] kinv_tracks [OF inv, of "Hand cpu" u] pc slot by auto
        then show ?thesis
          using 3 stack by (intro thread_ok_other [OF kinv_thread [OF inv u]]) (auto simp: s' L'_def)
      qed
    qed
    show "cpu_ok s' L' c" for c
    proof (cases "c = cpu")
      case True
      then show ?thesis
        using kinv_cpu [OF inv, of cpu] pc neq by (simp add: cpu_ok_def s' L'_def gone_def)
    next
      case False
      have "\<forall>n a b d. pcs s c \<noteq> Committed ?cur n a b d \<and> pcs s c \<noteq> Committed nxt n a b d"
        using kinv_cpu [OF inv, of c] cur nxt by (auto simp: cpu_ok_def)
      with False show ?thesis
        using kinv_cpu [OF inv, of c] neq by (elim cpu_ok_frame) (auto simp: s' L'_def gone_def)
    qed
    show "on_stack s' c = on_stack s c \<or> Q" for c Q
      using stack by simp
    show "L' u \<noteq> None \<Longrightarrow> threads s' u \<noteq> None" for u
      using inv by (auto simp: kinv_def s' L'_def split: if_splits)
    show "threads s' u \<noteq> None \<Longrightarrow> threads s u \<noteq> None" for u
      using thc thn by (auto simp: s' split: if_splits)
    show "u \<in> set (reapable s') \<Longrightarrow> threads s' u \<noteq> None" for u
      using inv by (auto simp: kinv_def s' split: if_splits)
    show "distinct (map fst (in_flight s'))" "next_id s' = next_id s"
      using inv by (simp_all add: kinv_def s')
  qed
  then show ?thesis by blast
qed

lemma kinv_switch:
  assumes inv: "kinv s L" and sp: "sp \<noteq> 0" and step: "switch cpu sp s = Some s'"
  shows "kinv s' L"
proof -
  obtain out nxt stk root ctx th where pc: "pcs s cpu = Committed out nxt stk root ctx" and th: "threads s out = Some th"
    and s': "s' = s\<lparr>threads := (threads s)(out \<mapsto> th\<lparr>context_ptr := sp\<rparr>),
      kernel_rsp := (if stk \<noteq> 0 then (kernel_rsp s)(cpu := stk) else kernel_rsp s),
      cr3 := (cr3 s)(cpu := root), pcs := (pcs s)(cpu := Arrived)\<rparr>"
    using step by (auto simp: switch_def split: pc.splits option.splits)
  have cur: "current_thread s cpu = nxt" "L nxt = Some (Cur cpu)"
    using kinv_cpu [OF inv, of cpu] pc kinv_cur [OF inv, of cpu] by (auto simp: cpu_ok_def)
  have neq: "out \<noteq> nxt"
    using kinv_cpu [OF inv, of cpu] pc cur by (auto simp: cpu_ok_def)
  have stack: "on_stack s' c = (if c = cpu then Some nxt else on_stack s c)" for c
    by (simp add: s' on_stack_def cur)
  show ?thesis
    using inv
  proof (rule kinv_move)
    show "tracks s' L"
      by (rule tracks_same [of s]) (use inv pc in \<open>auto simp: kinv_def s' split: if_splits\<close>)
    show "thread_ok s' (L u) u v" if v: "threads s' u = Some v" for u v
    proof -
      have pub: "L u \<noteq> Some (Pub cpu)"
        using kinv_tracks [OF inv, of "Pub cpu" u] pc by auto
      show ?thesis
      proof (cases "u = out")
        case True
        have "thread_ok s' (L u) u (th\<lparr>context_ptr := sp\<rparr>)"
          using kinv_thread [OF inv th] True sp pub by (auto simp: s' thread_ok_def)
        then show ?thesis
          using v True by (simp add: s')
      next
        case False
        then have u: "threads s u = Some v"
          using v by (simp add: s')
        have "\<exists>d. on_stack s' d = Some u" if "on_stack s c = Some u" for c
          using that False pc stack [of c] by (cases "c = cpu") (auto simp: on_stack_def)
        then show ?thesis
          using pub by (intro thread_ok_other [OF kinv_thread [OF inv u]]) (auto simp: s')
      qed
    qed
    show "cpu_ok s' L c" for c
    proof (cases "c = cpu")
      case True
      then show ?thesis
        using kinv_cpu [OF inv, of cpu] pc by (simp add: cpu_ok_def s')
    next
      case False
      then show ?thesis
        using kinv_cpu [OF inv, of c] th by (elim cpu_ok_frame) (auto simp: s' gone_def)
    qed
    show "on_stack s' c = on_stack s c \<or> (\<exists>t. on_stack s' c = Some t \<and> threads s t \<noteq> None \<and>
        (\<forall>d. d \<noteq> c \<longrightarrow> on_stack s d \<noteq> Some t \<and> on_stack s' d = on_stack s d))" for c
      using stack on_stack_Cur [OF inv cur(2)] kinv_live [OF inv cur(2)] by (cases "c = cpu") auto
  qed (use inv th in \<open>auto simp: kinv_def s' split: if_splits\<close>)
qed

text \<open>\<open>publish_handoff\<close>'s swap: nothing to publish, a parked thread that stays out of every queue, or a
  thread to be queued.\<close>

lemma kinv_publish:
  assumes inv: "kinv s L" and bound: "unat (next_id s) < 2 ^ 63" and pc: "pcs s cpu = Arrived"
  shows "\<exists>L'. kinv (publish_swap cpu s) L'"
proof -
  define raw where "raw = handoff_id s cpu"
  define t where "t = raw AND NOT HANDOFF_PARKED"
  define drop where "drop \<longleftrightarrow> raw = NO_THREAD \<or> raw AND HANDOFF_PARKED \<noteq> 0"
  define p' where "p' = (if drop then InThread else Publishing raw (priority_from_raw (handoff_priority s cpu)))"
  define L' where "L' = (if raw = NO_THREAD then L else if drop then L(t := None) else L(t \<mapsto> Pub cpu))"
  have s': "publish_swap cpu s = s\<lparr>handoff_id := (handoff_id s)(cpu := NO_THREAD), pcs := (pcs s)(cpu := p')\<rparr>" (is "_ = ?s'")
    by (simp add: publish_swap_def p'_def drop_def raw_def Let_def)
  have stack: "on_stack ?s' = on_stack s"
    using pc by (auto simp: on_stack_def fun_eq_iff p'_def)
  have at: "L t = Some (Hand cpu)" if "raw \<noteq> NO_THREAD"
    using kinv_tracks [OF inv, of "Hand cpu" t] that by (simp add: raw_def t_def)
  have handed: "\<exists>th. threads s t = Some th \<and> thread_ok s (Some (Hand cpu)) t th \<and> (is_parked (tpark th) \<longleftrightarrow> drop) \<and>
      (\<not> drop \<longrightarrow> raw = t \<and> p' = Publishing t (tpriority th))" if "raw \<noteq> NO_THREAD"
  proof -
    obtain th where th: "threads s t = Some th"
      using kinv_live [OF inv at] \<open>raw \<noteq> NO_THREAD\<close> by blast
    have ok: "thread_ok s (Some (Hand cpu)) t th"
      using kinv_thread [OF inv th] at [OF that] by simp
    then have "raw = (if is_parked (tpark th) then t OR HANDOFF_PARKED else t)" "handoff_priority s cpu = priority_as_u8 (tpriority th)"
      by (simp_all add: thread_ok_def raw_def)
    moreover have "t AND HANDOFF_PARKED = 0" "(t OR HANDOFF_PARKED) AND HANDOFF_PARKED \<noteq> 0"
      using tag_untagged [OF kinv_small [OF inv bound th]] tag_tagged by auto
    ultimately have "is_parked (tpark th) \<longleftrightarrow> drop" "\<not> drop \<longrightarrow> raw = t \<and> p' = Publishing t (tpriority th)"
      using that by (auto simp: drop_def p'_def split: if_splits)
    with th ok show ?thesis by blast
  qed
  have "kinv ?s' L'"
    using inv
  proof (rule kinv_move)
    show "tracks ?s' L'"
      unfolding tracks_def
    proof (intro allI)
      fix p u
      show "at_place ?s' p u \<longleftrightarrow> L' u = Some p"
        using kinv_tracks [OF inv, of p u] kinv_tracks [OF inv, of p t] at pc handed
        by (cases p) (auto simp: L'_def p'_def raw_def [symmetric] t_def [symmetric] drop_def split: if_splits)
    qed
    show "thread_ok ?s' (L' u) u v" if v: "threads ?s' u = Some v" for u v
    proof (cases "raw \<noteq> NO_THREAD \<and> u = t")
      case True
      then show ?thesis
        using handed v stack by (auto simp: L'_def thread_ok_def)
    next
      case False
      have "L u \<noteq> Some (Pub cpu)" "L u \<noteq> Some (Hand cpu)"
        using kinv_tracks [OF inv, of "Pub cpu" u] kinv_tracks [OF inv, of "Hand cpu" u] pc False by (auto simp: raw_def t_def)
      then show ?thesis
        using False v stack by (intro thread_ok_other [OF kinv_thread [OF inv]]) (auto simp: L'_def)
    qed
    show "cpu_ok ?s' L' c" for c
    proof (cases "c = cpu")
      case True
      then show ?thesis
        using kinv_cpu [OF inv, of c] pc kinv_wf [OF inv] by (elim cpu_ok_inside) (auto simp: p'_def)
    next
      case False
      have "\<forall>n a b d. raw \<noteq> NO_THREAD \<longrightarrow> pcs s c \<noteq> Committed t n a b d"
        using kinv_cpu [OF inv, of c] at False by (auto simp: cpu_ok_def)
      with False show ?thesis
        using kinv_cpu [OF inv, of c] by (elim cpu_ok_frame) (auto simp: L'_def gone_def)
    qed
    show "on_stack ?s' c = on_stack s c \<or> Q" for c Q
      using stack by simp
    show "L' u \<noteq> None \<Longrightarrow> threads ?s' u \<noteq> None" for u
      using inv handed by (auto simp: kinv_def L'_def split: if_splits)
  qed (use inv in \<open>auto simp: kinv_def\<close>)
  then show ?thesis
    by (auto simp: s')
qed

section \<open>Every reachable state\<close>

lemma kstep_inv:
  assumes "kstep s s'" "kinv s L" "unat (next_id s) < 2 ^ 63"
  shows "\<exists>L'. kinv s' L'"
  using assms(1)
proof cases
  case (schedule cpu st)
  then show ?thesis using kinv_take(1) [OF assms(2)] by blast
next
  case (steal cpu st other others busy)
  then show ?thesis using kinv_take(3) [OF assms(2), of cpu] kinv_cpu [OF assms(2), of cpu] by (auto simp: cpu_ok_def)
next
  case (fallback cpu st)
  then show ?thesis using kinv_take(2) [OF assms(2), of cpu] kinv_cpu [OF assms(2), of cpu] by (auto simp: cpu_ok_def)
next
  case (init cpu s1)
  then show ?thesis using kinv_init [OF assms(2)] by blast
next
  case (park cpu outcome s1)
  then show ?thesis using kinv_park [OF assms(2)] by blast
next
  case (park_return cpu)
  then show ?thesis using kinv_park_return [OF assms(2)] by blast
next
  case (unpark tid)
  then show ?thesis using kinv_unpark [OF assms(2,3)] by simp
next
  case (push cpu e)
  then show ?thesis using kinv_push [OF assms(2)] by simp
next
  case (spawn cpu base prio)
  then show ?thesis using kinv_spawn [OF assms(2)] by blast
next
  case (adopt cpu root)
  then show ?thesis using kinv_adopt [OF assms(2)] by blast
next
  case (commit cpu st nxt)
  then show ?thesis using kinv_commit [OF assms(2,3)] by blast
next
  case (switch sp cpu)
  then show ?thesis using kinv_switch [OF assms(2)] by blast
next
  case (publish cpu)
  then show ?thesis using kinv_publish [OF assms(2,3)] by simp
next
  case (publish_push cpu tid prio)
  then show ?thesis using kinv_publish_push [OF assms(2)] by simp
next
  case (reap cpu)
  then show ?thesis using kinv_reap [OF assms(2,3)] by blast
next
  case (install cpu)
  then show ?thesis using kinv_install [OF assms(2)] by blast
next
  case (go_online cpu)
  then show ?thesis using kinv_online [OF assms(2)] by blast
qed

text \<open>Ids are handed out in increasing order and never again.\<close>

lemma reap_ids_next_id [simp]: "next_id (reap_ids tids orphans s) = next_id s"
  by (induction tids orphans s rule: reap_ids.induct) simp_all

lemma picked_next_id: "next_id (picked cpu st miss r) = next_id (snd r)"
  by (cases "(cpu, st, miss, r)" rule: picked.cases) auto

lemma take_next_id [simp]:
  "next_id (snd (take_local cpu s)) = next_id s" "next_id (snd (take_idle cpu s)) = next_id s"
  "next_id (snd (take_remote other busy s)) = next_id s"
  by (auto simp: take_local_def take_idle_def take_remote_def rq_update_def split: prod.splits option.splits)

lemma allocate_grows: "allocate_id s = Some (t, s1) \<Longrightarrow> unat (next_id s) \<le> unat (next_id s1)"
  by (auto simp: allocate_id_Some allocate_id_unat)

lemma unpark_next_id [simp]: "next_id (unpark_section tid s) = next_id s"
  by (simp add: unpark_section_def claim_parked_handoff_def Let_def split: option.split prod.split wake_outcome.split)

lemma kstep_next_id: "kstep s s' \<Longrightarrow> unat (next_id s) \<le> unat (next_id s')"
proof (induction rule: kstep.induct)
  case (init cpu s s')
  then show ?case
    by (auto simp: init_def bind_eq_Some_conv dest!: allocate_grows)
next
  case (spawn s cpu base prio s')
  then show ?case
    by (auto simp: spawn_kernel_def bind_eq_Some_conv dest!: allocate_grows)
next
  case (commit s cpu st nxt s')
  then show ?case
    by (auto simp: schedule_section_def outgoing_def check_bind bind_eq_Some_conv Let_def split: if_splits)
next
  case (switch sp cpu s s')
  then show ?case
    by (auto simp: switch_def split: pc.splits option.splits)
next
  case (adopt s cpu root s')
  then show ?case
    by (auto simp: adopt_address_space_def check_bind bind_eq_Some_conv split: if_splits)
next
  case (park s cpu outcome s')
  then show ?case
    by (cases "park (tpark (the (threads s (current_thread s cpu))))") (auto simp: park_section_def bind_eq_Some_conv)
qed (simp_all add: picked_next_id push_in_flight_def rq_update_def publish_swap_def publish_push_def reap_def Let_def
    split: prod.split)

lemma kreach_inv:
  assumes "kstep\<^sup>*\<^sup>* kstart s" "unat (next_id s) < 2 ^ 63"
  shows "\<exists>L. kinv s L"
  using assms
proof (induction rule: rtranclp_induct)
  case base
  then show ?case using kinv_start by blast
next
  case (step s s')
  then show ?case
    using kstep_next_id [OF step.hyps(2)] kstep_inv [OF step.hyps(2)] by auto
qed

end
