(* ===== verification/Kernel_Sched_Safety.thy ===== *)
theory Kernel_Sched_Safety
  imports Kernel_Sched_Inv
begin

unbundle bit_operations_syntax

text \<open>
  What the kernel's scheduler guarantees in every reachable state, for any number of processors up
  to 64 and any interleaving of their critical sections, as long as fewer than \<open>2 ^ 63\<close> threads
  were created (the handoff tag of the source takes the top bit of an id). The last section shows
  the one place where the source does not do what its comments claim.
\<close>

section \<open>A run of two processors\<close>

text \<open>The boot threads 0 and 1 of two processors, then a thread 2 spawned on processor 0, dispatched
  there and exiting there.\<close>

definition spawned :: thread where
  "spawned = \<lparr>context_ptr = 20424, kernel_stack_top = 20480, tstate = Ready, tpriority = Normal,
     tpark = park_default, home_cpu = None, address_space = None\<rparr>"

definition booted :: kstate where
  "booted = kstart\<lparr>next_id := 2, threads := [0 \<mapsto> adopt_current 0, 1 \<mapsto> adopt_current 1], idle_installed := 3,
     block_installed := (\<lambda>_. False)(0 := True, 1 := True), current_thread := (\<lambda>_. NO_THREAD)(0 := 0, 1 := 1),
     pcs := (\<lambda>_. Off)(0 := InThread, 1 := InThread)\<rparr>"

definition queued :: kstate where
  "queued = booted\<lparr>next_id := 3, threads := (threads booted)(2 \<mapsto> spawned),
     run_queue_of := (\<lambda>_. rq_new)(0 := \<lparr>bands = [[], [2], []]\<rparr>)\<rparr>"

definition chosen :: kstate where
  "chosen = booted\<lparr>next_id := 3, threads := (threads booted)(2 \<mapsto> spawned), pcs := (pcs booted)(0 := Picked Ready 2)\<rparr>"

definition running :: kstate where
  "running = booted\<lparr>next_id := 3,
     threads := (threads booted)(0 \<mapsto> (adopt_current 0)\<lparr>tstate := Ready, context_ptr := 1\<rparr>, 2 \<mapsto> spawned\<lparr>tstate := Running\<rparr>),
     run_queue_of := (\<lambda>_. rq_new)(0 := \<lparr>bands = [[0], [], []]\<rparr>), current_thread := (current_thread booted)(0 := 2),
     kernel_rsp := (\<lambda>_. 0)(0 := 20480)\<rparr>"

definition leaving :: kstate where
  "leaving = running\<lparr>threads := (threads running)(0 \<mapsto> (adopt_current 0)\<lparr>context_ptr := 1\<rparr>, 2 \<mapsto> spawned\<lparr>tstate := Exited\<rparr>),
     reapable := [2], run_queue_of := (\<lambda>_. rq_new), current_thread := (current_thread booted)(0 := 0),
     pcs := (pcs booted)(0 := Committed 2 0 0 None 1)\<rparr>"

lemmas run_defs = kstart_def booted_def adopt_current_def spawned_def queued_def chosen_def running_def leaving_def

lemmas step_defs = init_def allocate_id_def checked_add_def NO_THREAD_def MAX_CPUS_def spawn_kernel_def new_kernel_def
  init_kernel_stack_def MIN_STACK_def push_in_flight_def push_target_def rq_update_def rq_push_def rq_new_def rq_contains_def
  take_local_def prefers_local_def rq_runnable_len_def rq_pop_def ORDER_def schedule_section_def outgoing_def
  sched_is_parked_def park_default_def is_parked_def switch_def publish_swap_def publish_push_def take_idle_def HANDOFF_PARKED_def
  priority_from_raw_def Let_def

lemma reach_booted: "kstep\<^sup>*\<^sup>* kstart booted"
proof -
  define s1 where "s1 = kstart\<lparr>block_installed := (block_installed kstart)(0 := True)\<rparr>"
  define s2 where "s2 = set_pc 0 InThread (the (init 0 s1))"
  define s3 where "s3 = s2\<lparr>block_installed := (block_installed s2)(1 := True)\<rparr>"
  have "kstep kstart s1"
    unfolding s1_def by (rule kstep.install) (simp_all add: run_defs MAX_CPUS_def)
  moreover have "kstep s1 s2"
    unfolding s2_def by (rule kstep.init) (simp_all add: s1_def run_defs step_defs)
  moreover have "kstep s2 s3"
    unfolding s3_def by (rule kstep.install) (simp_all add: s1_def s2_def run_defs step_defs)
  moreover have "kstep s3 (set_pc 1 InThread (the (init 1 s3)))"
    by (rule kstep.init) (simp_all add: s1_def s2_def s3_def run_defs step_defs bit_1_iff)
  moreover have "set_pc 1 InThread (the (init 1 s3)) = booted"
    by (simp add: s1_def s2_def s3_def run_defs step_defs bit_1_iff)
  ultimately show ?thesis by (metis converse_rtranclp_into_rtranclp rtranclp.rtrancl_refl)
qed

lemma reach_queued: "kstep\<^sup>*\<^sup>* kstart queued"
proof -
  define s1 where "s1 = the (spawn_kernel 4096 Normal booted)"
  have "kstep booted s1"
    unfolding s1_def by (rule kstep.spawn [of _ 0 4096 Normal]) (simp_all add: run_defs step_defs)
  moreover have "kstep s1 (push_in_flight 0 (2, Normal, None) s1)"
    by (rule kstep.push) (simp_all add: s1_def run_defs step_defs)
  moreover have "push_in_flight 0 (2, Normal, None) s1 = queued"
    by (simp add: s1_def run_defs step_defs)
  ultimately show ?thesis using reach_booted by (metis rtranclp.rtrancl_into_rtrancl)
qed

lemma reach_chosen: "kstep\<^sup>*\<^sup>* kstart chosen"
proof -
  have "kstep queued (picked 0 Ready (Stealing Ready (filter (\<lambda>other. other \<noteq> 0) (each_online_cpu queued))) (take_local 0 queued))"
    by (rule kstep.schedule) (simp_all add: run_defs)
  moreover have "picked 0 Ready m (take_local 0 queued) = chosen" for m
    by (simp add: run_defs step_defs fun_eq_iff)
  ultimately show ?thesis using reach_queued by (metis rtranclp.rtrancl_into_rtrancl)
qed

lemma reach_running: "kstep\<^sup>*\<^sup>* kstart running"
proof -
  define s1 where "s1 = the (schedule_section 0 Ready 2 chosen)"
  define s2 where "s2 = the (switch 0 1 s1)"
  have "kstep chosen s1"
    unfolding s1_def by (rule kstep.commit [of _ 0 Ready 2]) (simp_all add: run_defs step_defs)
  moreover have "kstep s1 s2"
    unfolding s2_def by (rule kstep.switch [of 1 0]) (simp_all add: s1_def run_defs step_defs)
  moreover have "kstep s2 (publish_swap 0 s2)"
    by (rule kstep.publish) (simp add: s1_def s2_def run_defs step_defs)
  moreover have "kstep (publish_swap 0 s2) (publish_push 0 0 Idle (publish_swap 0 s2))"
    by (rule kstep.publish_push) (simp add: s1_def s2_def run_defs step_defs)
  moreover have "publish_push 0 0 Idle (publish_swap 0 s2) = running"
    by (simp add: s1_def s2_def run_defs step_defs fun_eq_iff)
  ultimately show ?thesis using reach_chosen by (metis rtranclp.rtrancl_into_rtrancl)
qed

lemma reach_leaving: "kstep\<^sup>*\<^sup>* kstart leaving"
proof -
  define s1 where "s1 = set_pc 0 (Stealing Exited []) running"
  define s2 where "s2 = picked 0 Exited InThread (take_idle 0 s1)"
  have "kstep running (picked 0 Exited (Stealing Exited (filter (\<lambda>other. other \<noteq> 0) (each_online_cpu running))) (take_local 0 running))"
    by (rule kstep.schedule) (simp_all add: run_defs)
  moreover have "picked 0 Exited (Stealing Exited (filter (\<lambda>other. other \<noteq> 0) (each_online_cpu running))) (take_local 0 running) = s1"
    by (simp add: s1_def run_defs step_defs each_online_cpu_def)
  moreover have "kstep s1 s2"
    unfolding s2_def by (rule kstep.fallback) (simp add: s1_def)
  moreover have "kstep s2 leaving"
    by (rule kstep.commit [of _ 0 Exited 0]) (simp_all add: s1_def s2_def run_defs step_defs fun_eq_iff)
  ultimately show ?thesis using reach_running by (metis rtranclp.rtrancl_into_rtrancl)
qed

section \<open>Safety\<close>

text \<open>C1: No two processors ever stand on one stack. In every reachable state a thread's stack is
  in use on at most one processor, and a thread in a run queue is in that queue only, is on no
  processor and has a saved context to resume.\<close>

theorem one_cpu_per_stack:
  assumes "kstep\<^sup>*\<^sup>* kstart s" "unat (next_id s) < 2 ^ 63"
  shows "(on_stack s c = Some t \<longrightarrow> on_stack s d = Some t \<longrightarrow> c = d) \<and>
    (rq_contains (run_queue_of s q) t \<longrightarrow>
       on_stack s c \<noteq> Some t \<and> (rq_contains (run_queue_of s q') t \<longrightarrow> q' = q) \<and>
       (\<exists>th. threads s t = Some th \<and> context_ptr th \<noteq> 0))"
proof -
  obtain L where inv: "kinv s L"
    using kreach_inv [OF assms] by blast
  have "on_stack s c \<noteq> Some t \<and> (rq_contains (run_queue_of s q') t \<longrightarrow> q' = q) \<and>
       (\<exists>th. threads s t = Some th \<and> context_ptr th \<noteq> 0)" if q: "rq_contains (run_queue_of s q) t"
  proof -
    have at: "L t = Some (Que q)"
      using kinv_tracks [OF inv, of "Que q" t] q by simp
    obtain th where th: "threads s t = Some th"
      using kinv_live [OF inv at] by blast
    have off: "on_stack s d \<noteq> Some t" for d
      using off_stack [OF inv at] by simp
    then have "context_ptr th \<noteq> 0"
      using kinv_thread [OF inv th] by (auto simp: thread_ok_def)
    then show ?thesis
      using off th at kinv_tracks [OF inv, of "Que q'" t] by auto
  qed
  moreover have "on_stack s c = Some t \<longrightarrow> on_stack s d = Some t \<longrightarrow> c = d"
    using inv by (auto simp: kinv_def)
  ultimately show ?thesis by blast
qed

theorem one_cpu_per_stack_witness: "on_stack queued 0 \<noteq> Some 2 \<and> rq_contains (run_queue_of queued 0) 2"
  using one_cpu_per_stack [OF reach_queued, of 0 2 0 0 0] by (simp add: run_defs rq_contains_def)

text \<open>C5: A parked thread is in no run queue, and an idle thread is only ever queued on the
  processor whose boot stack it adopted; a thread is queued at its own priority.\<close>

theorem queued_threads_may_run:
  assumes "kstep\<^sup>*\<^sup>* kstart s" "unat (next_id s) < 2 ^ 63" "rq_contains (run_queue_of s q) t"
  shows "\<exists>th. threads s t = Some th \<and> \<not> is_parked (tpark th) \<and> rq_prio (run_queue_of s q) t = Some (tpriority th) \<and>
    (home_cpu th \<noteq> None \<longrightarrow> home_cpu th = Some q)"
proof -
  obtain L where inv: "kinv s L"
    using kreach_inv [OF assms(1,2)] by blast
  have at: "L t = Some (Que q)"
    using kinv_tracks [OF inv, of "Que q" t] assms(3) by simp
  obtain th where th: "threads s t = Some th"
    using kinv_live [OF inv at] by blast
  have "thread_ok s (Some (Que q)) t th"
    using kinv_thread [OF inv th] at by simp
  then have "\<not> is_parked (tpark th) \<and> rq_prio (run_queue_of s q) t = Some (tpriority th) \<and>
      (home_cpu th \<noteq> None \<longrightarrow> home_cpu th = Some q)"
    by (auto simp: thread_ok_def)
  with th show ?thesis by blast
qed

theorem queued_threads_may_run_witness: "rq_prio (run_queue_of queued 0) 2 = Some Normal"
  using queued_threads_may_run [OF reach_queued, of 0 2] by (auto simp: run_defs rq_contains_def)

text \<open>C2: No thread is stranded. In every reachable state a thread of the table that is not parked
  and has not exited is in exactly one of the places from which it gets to run: on a processor,
  picked by one, in a handoff slot, being published, in a run queue or on its way into one.\<close>

theorem no_thread_stranded:
  assumes "kstep\<^sup>*\<^sup>* kstart s" "unat (next_id s) < 2 ^ 63" "threads s t = Some th"
    and "\<not> is_parked (tpark th)" "t \<notin> set (reapable s)"
  shows "\<exists>!p. at_place s p t"
proof -
  obtain L where inv: "kinv s L"
    using kreach_inv [OF assms(1,2)] by blast
  have "L t \<noteq> None"
    using kinv_thread [OF inv assms(3)] assms(4,5) by (auto simp: thread_ok_def)
  then show ?thesis
    using kinv_tracks [OF inv] by auto
qed

theorem no_thread_stranded_witness: "\<exists>!p. at_place queued p 2"
  by (rule no_thread_stranded [OF reach_queued, where th = spawned]) (simp_all add: run_defs is_parked_def park_default_def)

text \<open>C10: The dispatch never panics. Once \<open>take_next\<close> has returned a thread, in every reachable state
  the thread is live, has a context, the outgoing thread is live, and the \<open>SCHED\<close> section of
  \<open>schedule\<close> makes it current.\<close>

theorem dispatch_never_panics:
  assumes "kstep\<^sup>*\<^sup>* kstart s" "unat (next_id s) < 2 ^ 63" "pcs s cpu = Picked st nxt"
  shows "\<exists>s'. schedule_section cpu st nxt s = Some s' \<and> current_thread s' cpu = nxt \<and>
    map_option tstate (threads s' nxt) = Some Running"
proof -
  obtain L where inv: "kinv s L"
    using kreach_inv [OF assms(1,2)] by blast
  show ?thesis
    by (rule schedule_section_eq [OF inv assms(3)]) auto
qed

theorem dispatch_never_panics_witness: "schedule_section 0 Ready 2 chosen \<noteq> None"
  using dispatch_never_panics [OF reach_chosen, of 0 Ready 2] by (auto simp: run_defs)

section \<open>Looking for work\<close>

lemma rq_runnable_found:
  assumes "rq_wf q" "0 < rq_runnable_len q"
  shows "\<exists>t q'. rq_pop q = (Some t, q') \<and> rq_prio q t \<noteq> Some Idle" "\<exists>t q'. rq_steal q = (Some t, q') \<and> rq_prio q t \<noteq> Some Idle"
proof -
  have "rq_pop q = (fst (rq_pop q), snd (rq_pop q))" "rq_steal q = (fst (rq_steal q), snd (rq_steal q))"
    by simp_all
  moreover have "fst (rq_pop q) \<noteq> None" "fst (rq_steal q) \<noteq> None"
    using assms by (auto elim!: rq_cases simp: rq_pop_def rq_steal_def ORDER_def rq_runnable_len_def split: list.splits if_splits)
  ultimately show "\<exists>t q'. rq_pop q = (Some t, q') \<and> rq_prio q t \<noteq> Some Idle" "\<exists>t q'. rq_steal q = (Some t, q') \<and> rq_prio q t \<noteq> Some Idle"
    using rq_taken_runnable [OF assms] by (metis option.exhaust)+
qed

definition queued_work :: "kstate \<Rightarrow> thread_id \<Rightarrow> bool" where
  "queued_work s t \<longleftrightarrow> (\<exists>c. rq_contains (run_queue_of s c) t \<and> rq_prio (run_queue_of s c) t \<noteq> Some Idle)"

lemma take_steal_spec:
  assumes "\<forall>c. rq_wf (run_queue_of s c)"
  shows "case take_steal os busy s of
      (Some t, s') \<Rightarrow> queued_work s t
    | (None, s') \<Rightarrow> run_queue_of s' = run_queue_of s \<and>
        (\<forall>other \<in> set os. other < MAX_CPUS \<longrightarrow> block_installed s other \<longrightarrow> \<not> busy other \<longrightarrow> rq_runnable_len (run_queue_of s other) = 0)"
  using assms
proof (induction os busy s rule: take_steal.induct)
  case (1 busy s)
  then show ?case by simp
next
  case (2 other others busy s)
  show ?case
  proof (cases "other < MAX_CPUS \<and> block_installed s other \<and> \<not> busy other \<and> 0 < rq_runnable_len (run_queue_of s other)")
    case True
    then obtain t q' where q: "rq_steal (run_queue_of s other) = (Some t, q')" "rq_prio (run_queue_of s other) t \<noteq> Some Idle"
      using rq_runnable_found(2) "2.prems" by blast
    moreover have "rq_contains (run_queue_of s other) t"
      using rq_steal_taken [OF _ q(1)] "2.prems" by (auto simp: rq_taken_def)
    ultimately show ?thesis
      using True by (auto simp: take_remote_def queued_work_def)
  next
    case False
    define s1 where "s1 = snd (take_remote other (busy other) s)"
    have s1: "take_remote other (busy other) s = (None, s1)" "run_queue_of s1 = run_queue_of s" "block_installed s1 = block_installed s"
      using False by (auto simp: take_remote_def s1_def)
    then show ?thesis
      using "2.IH" [OF s1(1) [symmetric]] "2.prems" False
      by (auto simp: queued_work_def split: option.splits prod.splits)
  qed
qed

text \<open>C22: Before running nothing, a processor looks for something. \<open>take_next\<close> answers a thread that was
  queued at \<open>Normal\<close> or \<open>High\<close> on some processor, or, when its own queue holds no such thread and no
  online processor whose queue it could lock does, its own queue's idle thread; it answers none
  only if its own queue is empty as well.\<close>

theorem take_next_looks_for_work:
  assumes "\<forall>c. rq_wf (run_queue_of s c)"
  shows "case take_next cpu busy s of
      (r, s') \<Rightarrow> (\<exists>t. r = Some t \<and> queued_work s t) \<or>
        rq_runnable_len (run_queue_of s cpu) = 0 \<and>
        (\<forall>other \<in> set (each_online_cpu s). other \<noteq> cpu \<longrightarrow> block_installed s other \<longrightarrow> \<not> busy other \<longrightarrow>
           rq_runnable_len (run_queue_of s other) = 0) \<and>
        r = fst (rq_pop (run_queue_of s cpu))"
proof (cases "0 < rq_runnable_len (run_queue_of s cpu)")
  case True
  then obtain t q' where q: "rq_pop (run_queue_of s cpu) = (Some t, q')" "rq_prio (run_queue_of s cpu) t \<noteq> Some Idle"
    using rq_runnable_found(1) assms by blast
  moreover have "rq_contains (run_queue_of s cpu) t"
    using rq_pop_taken [OF _ q(1)] assms by (auto simp: rq_taken_def)
  ultimately show ?thesis
    using True by (auto simp: take_next_def take_local_def prefers_local_def queued_work_def)
next
  case False
  then have "take_local cpu s = (None, s)"
    by (simp add: take_local_def prefers_local_def)
  then show ?thesis
    using take_steal_spec [OF assms, of "filter (\<lambda>other. other \<noteq> cpu) (each_online_cpu s)" busy] False
    by (auto simp: take_next_def take_idle_def each_online_cpu_def split: prod.splits option.splits)
qed

theorem take_next_looks_for_work_witness: "fst (take_next 0 (\<lambda>_. False) queued) = Some 2"
  using take_next_looks_for_work [of queued 0 "\<lambda>_. False"]
  by (auto simp: run_defs take_next_def take_local_def prefers_local_def rq_runnable_len_def rq_wf_def rq_new_def rq_pop_def ORDER_def)

section \<open>Exiting threads\<close>

text \<open>C23: The guard of \<open>reap\<close> does not protect an exiting thread. \<open>schedule\<close> puts the exiting thread on the
  reapable list and makes the incoming thread current in one \<open>SCHED\<close> section, before
  \<open>context::switch\<close> has left the exiting thread's stack; a \<open>reap\<close> on another processor in that window
  finds it current nowhere and frees it. A state is reachable in which a processor stands on the
  stack of a thread that is gone, and its switch stores through a dangling pointer.\<close>

theorem reap_frees_stack_in_use:
  "\<exists>s cpu t. kstep\<^sup>*\<^sup>* kstart s \<and> on_stack s cpu = Some t \<and> threads s t = None \<and> switch cpu sp s = None"
proof (intro exI conjI)
  have "kstep leaving (reap leaving)"
    by (rule kstep.reap [of _ 1]) (simp add: run_defs)
  then show "kstep\<^sup>*\<^sup>* kstart (reap leaving)"
    using reach_leaving by (metis rtranclp.rtrancl_into_rtrancl)
  have reaped: "reap leaving = leaving\<lparr>threads := (threads leaving)(2 := None), reapable := []\<rparr>"
    by (simp add: reap_def run_defs is_current_anywhere_def current_thread_of_def NO_THREAD_def image_iff)
  show "on_stack (reap leaving) 0 = Some 2" "threads (reap leaving) 2 = None" "switch 0 sp (reap leaving) = None"
    by (simp_all add: reaped) (simp_all add: run_defs on_stack_def switch_def)
qed

end
