(* ===== verification/Slab.thy ===== *)
theory Slab
  imports Bit_Count
begin

unbundle bit_operations_syntax

text \<open>
  The kernel heap, \<open>crates/qunix-mm/src/slab.rs\<close>: size classes with intrusive free lists, power-of-two lists for
  larger blocks, and a bump region behind both. Memory is an explicit store from addresses to machine words, so that
  the links of the lists live in the blocks themselves; a pointer is an address and null is 0.
\<close>

section \<open>Size classes\<close>

definition CLASSES :: "nat list" where
  "CLASSES = [8, 12, 16, 24, 32, 48, 64, 96, 128, 192, 256, 384, 512, 768, 1024, 1536, 2048]"

definition LARGE_MIN :: nat where
  "LARGE_MIN = 32"

definition LARGE_MIN_SHIFT :: nat where
  "LARGE_MIN_SHIFT = trailing_zeros 64 LARGE_MIN"

definition LARGE_LISTS :: nat where
  "LARGE_LISTS = 18"

definition MAX_CLASS_ALIGN :: nat where
  "MAX_CLASS_ALIGN = 16"

text \<open>\<open>core::alloc::Layout\<close>; \<open>layout_ok\<close> is what its constructors guarantee.\<close>

record layout =
  lsize :: nat
  lalign :: nat

definition layout_ok :: "layout \<Rightarrow> bool" where
  "layout_ok l \<longleftrightarrow> (\<exists>k < 63. lalign l = 2 ^ k) \<and> lsize l + (lalign l - 1) < 2 ^ 63"

definition large_extent :: "layout \<Rightarrow> nat" where
  "large_extent l = max (max (next_power_of_two (lsize l)) (lalign l)) LARGE_MIN"

definition large_index :: "nat \<Rightarrow> nat option" where
  "large_index extent =
     (let idx = trailing_zeros 64 extent - LARGE_MIN_SHIFT
      in if idx < LARGE_LISTS then Some idx else None)"

definition class_for :: "layout \<Rightarrow> nat option" where
  "class_for l =
     (if lalign l > MAX_CLASS_ALIGN \<or> lsize l > CLASSES ! (length CLASSES - 1) then None
      else
        (let sz = max (lsize l) (CLASSES ! 0);
             k = trailing_zeros 64 (next_power_of_two sz);
             three_quarter = 3 * 2 ^ (k - 2)
         in Some (if k \<ge> 4 \<and> sz \<le> three_quarter then 2 * (k - 3) - 1 else 2 * (k - 3))))"

section \<open>The heap\<close>

record slab =
  heap_mem :: "nat \<Rightarrow> nat"
  class_lists :: "nat list"
  large_lists :: "nat list"
  bump_next :: nat
  bump_end :: nat
  allocated :: nat

definition slab_new :: "(nat \<Rightarrow> nat) \<Rightarrow> slab" where
  "slab_new m = \<lparr>heap_mem = m, class_lists = replicate (length CLASSES) 0, large_lists = replicate LARGE_LISTS 0,
     bump_next = 0, bump_end = 0, allocated = 0\<rparr>"

definition slab_set_backing :: "slab \<Rightarrow> nat \<Rightarrow> nat \<Rightarrow> slab run" where
  "slab_set_backing s va len = do {
     check (bump_end s = 0 \<and> allocated s = 0);
     e \<leftarrow> usize_checked_add va len;
     Some (s\<lparr>bump_next := va, bump_end := e\<rparr>) }"

definition bump_remaining :: "slab \<Rightarrow> nat" where
  "bump_remaining s = bump_end s - bump_next s"

definition bump :: "slab \<Rightarrow> nat \<Rightarrow> nat \<Rightarrow> nat \<times> slab" where
  "bump s sz align =
     (case map_option (\<lambda>v. align_down v align) (usize_checked_add (bump_next s) (align - 1)) of
        None \<Rightarrow> (0, s)
      | Some start \<Rightarrow>
          (case usize_checked_add start sz of
             None \<Rightarrow> (0, s)
           | Some e \<Rightarrow> if e > bump_end s then (0, s) else (start, s\<lparr>bump_next := e\<rparr>)))"

definition credit :: "nat \<Rightarrow> slab \<Rightarrow> slab run" where
  "credit n s = do { a \<leftarrow> add64 (allocated s) n; Some (s\<lparr>allocated := a\<rparr>) }"

definition slab_alloc :: "slab \<Rightarrow> layout \<Rightarrow> (nat \<times> slab) run" where
  "slab_alloc s l =
     (case class_for l of
        Some class \<Rightarrow> do {
          sz \<leftarrow> index CLASSES class;
          head \<leftarrow> index (class_lists s) class;
          let (ptr, s) = (if head = 0 then bump s (max sz MAX_CLASS_ALIGN) MAX_CLASS_ALIGN
                          else (head, s\<lparr>class_lists := (class_lists s)[class := heap_mem s head]\<rparr>));
          if ptr \<noteq> 0 then do { s \<leftarrow> credit sz s; Some (ptr, s) } else Some (ptr, s) }
      | None \<Rightarrow> do {
          let extent = large_extent l;
          reuse \<leftarrow> (case large_index extent of
             None \<Rightarrow> Some None
           | Some idx \<Rightarrow> do {
               head \<leftarrow> index (large_lists s) idx;
               if head \<noteq> 0 then do {
                 s \<leftarrow> credit extent (s\<lparr>large_lists := (large_lists s)[idx := heap_mem s head]\<rparr>);
                 Some (Some (head, s)) }
               else Some None });
          (case reuse of
             Some r \<Rightarrow> Some r
           | None \<Rightarrow> do {
               let (ptr, s) = bump s extent extent;
               if ptr \<noteq> 0 then do { s \<leftarrow> credit extent s; Some (ptr, s) } else Some (ptr, s) }) })"

definition slab_dealloc :: "slab \<Rightarrow> nat \<Rightarrow> layout \<Rightarrow> slab run" where
  "slab_dealloc s ptr l =
     (case class_for l of
        Some class \<Rightarrow> do {
          head \<leftarrow> index (class_lists s) class;
          sz \<leftarrow> index CLASSES class;
          a \<leftarrow> sub64 (allocated s) sz;
          Some (s\<lparr>heap_mem := (heap_mem s)(ptr := head), class_lists := (class_lists s)[class := ptr], allocated := a\<rparr>) }
      | None \<Rightarrow> do {
          let extent = large_extent l;
          a \<leftarrow> sub64 (allocated s) extent;
          let s = s\<lparr>allocated := a\<rparr>;
          (case large_index extent of
             None \<Rightarrow> Some s
           | Some idx \<Rightarrow> do {
               head \<leftarrow> index (large_lists s) idx;
               Some (s\<lparr>heap_mem := (heap_mem s)(ptr := head), large_lists := (large_lists s)[idx := ptr]\<rparr>) }) })"

section \<open>The class arithmetic\<close>

lemma next_power_eq:
  assumes "2 ^ k < n" "n \<le> 2 ^ Suc k"
  shows "next_power_of_two n = 2 ^ Suc k"
proof -
  have "1 < n"
    using assms(1) by (metis One_nat_def Suc_leI le_less_trans one_le_numeral one_le_power)
  then have b: "2 ^ ilog2 (n - 1) \<le> n - 1 \<and> n - 1 < 2 ^ Suc (ilog2 (n - 1))"
    by (intro ilog2_bounds) simp
  have "(2 :: nat) ^ k < 2 ^ Suc (ilog2 (n - 1))" "(2 :: nat) ^ ilog2 (n - 1) < 2 ^ Suc k"
    using b assms by linarith+
  then have "k < Suc (ilog2 (n - 1))" "ilog2 (n - 1) < Suc k"
    by (simp_all only: power_strict_increasing_iff one_less_numeral_iff semiring_norm)
  then have "ilog2 (n - 1) = k"
    by simp
  then show ?thesis
    using \<open>1 < n\<close> by (simp add: next_power_of_two_def)
qed

lemma next_power_class:
  assumes "8 < n" "n \<le> (2048 :: nat)"
  shows "\<exists>k \<in> {3..10}. 2 ^ k < n \<and> n \<le> 2 ^ Suc k"
proof -
  define k where "k = ilog2 (n - 1)"
  have b: "2 ^ k \<le> n - 1 \<and> n - 1 < 2 ^ Suc k"
    unfolding k_def by (rule ilog2_bounds) (use assms in simp)
  have "(2 :: nat) ^ 3 < 2 ^ Suc k" "(2 :: nat) ^ k < 2 ^ 11"
    using b assms by auto
  then have "3 < Suc k" "k < 11"
    by (simp_all only: power_strict_increasing_iff one_less_numeral_iff semiring_norm)
  then show ?thesis
    using b assms by (intro bexI [of _ k]) auto
qed

lemma position_sorted:
  assumes "sorted xs" "i < length xs" "n \<le> xs ! i" "i = 0 \<or> xs ! (i - 1) < n"
  shows "position (\<lambda>c. n \<le> c) xs = Some i"
  unfolding position_Some
proof (intro conjI allI impI)
  fix j assume "j < i"
  then have "xs ! j \<le> xs ! (i - 1)"
    using assms(1,2) by (intro sorted_nth_mono) auto
  then show "\<not> n \<le> xs ! j"
    using assms(4) \<open>j < i\<close> by auto
qed (use assms in auto)

lemma CLASSES_sorted: "sorted CLASSES"
  by (simp add: CLASSES_def)

lemma class_for_eq: "class_for l = (if lalign l > MAX_CLASS_ALIGN then None else position (\<lambda>c. lsize l \<le> c) CLASSES)"
proof (cases "lalign l > MAX_CLASS_ALIGN \<or> lsize l > 2048")
  case True
  then show ?thesis
    by (auto simp: class_for_def CLASSES_def)
next
  case False
  show ?thesis
  proof (cases "lsize l \<le> 8")
    case True
    then have "max (lsize l) 8 = 8" by simp
    moreover have "next_power_of_two 8 = 2 ^ 3"
      using next_power_eq [of 2 8] by simp
    ultimately show ?thesis
      using False True trailing_zeros_power [of 3 64] by (simp add: class_for_def CLASSES_def Let_def)
  next
    case big: False
    then obtain k where k: "k \<in> {3..10}" "2 ^ k < lsize l" "lsize l \<le> 2 ^ Suc k"
      using next_power_class [of "lsize l"] False by auto
    have "max (lsize l) 8 = lsize l"
      using big by simp
    moreover have "next_power_of_two (lsize l) = 2 ^ Suc k" "trailing_zeros 64 (2 ^ Suc k :: nat) = Suc k"
      using next_power_eq [OF k(2,3)] trailing_zeros_power [of "Suc k" 64] k(1) by auto
    moreover have "k = 3 \<or> k = 4 \<or> k = 5 \<or> k = 6 \<or> k = 7 \<or> k = 8 \<or> k = 9 \<or> k = 10"
      using k(1) by auto
    ultimately have "class_for l = Some (if lsize l \<le> 3 * 2 ^ (k - 1) then 2 * (k - 2) - 1 else 2 * (k - 2))"
      using False k(1) by (simp add: class_for_def CLASSES_def Let_def numeral_eq_Suc)
    moreover have "position (\<lambda>c. lsize l \<le> c) CLASSES = Some (if lsize l \<le> 3 * 2 ^ (k - 1) then 2 * (k - 2) - 1 else 2 * (k - 2))"
      using k(2,3) \<open>k = 3 \<or> _\<close>
      by (elim disjE; intro position_sorted [OF CLASSES_sorted]) (auto simp: CLASSES_def split: if_splits)
    ultimately show ?thesis
      using False by simp
  qed
qed

section \<open>Kinds of block\<close>

text \<open>The list a layout is served from: a size class, or a power-of-two extent.\<close>

datatype kind = Cls nat | Lrg nat

definition kind_of :: "layout \<Rightarrow> kind" where
  "kind_of l = (case class_for l of Some c \<Rightarrow> Cls c | None \<Rightarrow> Lrg (large_extent l))"

fun kind_bytes :: "kind \<Rightarrow> nat" where
  "kind_bytes (Cls c) = CLASSES ! c"
| "kind_bytes (Lrg e) = e"

fun kind_extent :: "kind \<Rightarrow> nat" where
  "kind_extent (Cls c) = max (CLASSES ! c) MAX_CLASS_ALIGN"
| "kind_extent (Lrg e) = e"

fun kind_align :: "kind \<Rightarrow> nat" where
  "kind_align (Cls c) = MAX_CLASS_ALIGN"
| "kind_align (Lrg e) = e"

fun kind_ok :: "kind \<Rightarrow> bool" where
  "kind_ok (Cls c) \<longleftrightarrow> c < length CLASSES"
| "kind_ok (Lrg e) \<longleftrightarrow> (\<exists>k \<in> {5..63}. e = 2 ^ k)"

fun tracked :: "kind \<Rightarrow> bool" where
  "tracked (Cls c) \<longleftrightarrow> True"
| "tracked (Lrg e) \<longleftrightarrow> large_index e \<noteq> None"

fun head_of :: "slab \<Rightarrow> kind \<Rightarrow> nat" where
  "head_of s (Cls c) = class_lists s ! c"
| "head_of s (Lrg e) = (case large_index e of None \<Rightarrow> 0 | Some i \<Rightarrow> large_lists s ! i)"

fun set_head :: "kind \<Rightarrow> nat \<Rightarrow> slab \<Rightarrow> slab" where
  "set_head (Cls c) h s = s\<lparr>class_lists := (class_lists s)[c := h]\<rparr>"
| "set_head (Lrg e) h s = (case large_index e of None \<Rightarrow> s | Some i \<Rightarrow> s\<lparr>large_lists := (large_lists s)[i := h]\<rparr>)"

lemma large_index_power: "k \<in> {5..63} \<Longrightarrow> large_index (2 ^ k) = (if k < 23 then Some (k - 5) else None)"
  using trailing_zeros_power [of k 64] trailing_zeros_power [of 5 64]
  by (auto simp: large_index_def LARGE_MIN_SHIFT_def LARGE_MIN_def LARGE_LISTS_def Let_def)

lemma large_index_lt: "large_index e = Some i \<Longrightarrow> i < LARGE_LISTS"
  by (auto simp: large_index_def Let_def split: if_splits)

lemma head_set_head:
  assumes "kind_ok k" "tracked k" "kind_ok j" "length (class_lists s) = length CLASSES" "length (large_lists s) = LARGE_LISTS"
  shows "head_of (set_head k h s) j = (if j = k then h else head_of s j)"
  using assms by (cases k; cases j) (auto simp: large_index_power LARGE_LISTS_def split: if_splits)

lemma set_head_fields [simp]:
  "heap_mem (set_head k h s) = heap_mem s" "bump_next (set_head k h s) = bump_next s" "bump_end (set_head k h s) = bump_end s"
  "allocated (set_head k h s) = allocated s" "length (class_lists (set_head k h s)) = length (class_lists s)"
  "length (large_lists (set_head k h s)) = length (large_lists s)"
  by (cases k; simp split: option.split)+

lemma class_for_lt: "class_for l = Some c \<Longrightarrow> c < length CLASSES \<and> lsize l \<le> CLASSES ! c \<and> lalign l \<le> MAX_CLASS_ALIGN"
  by (auto simp: class_for_eq position_Some split: if_splits)

lemma kind_of_ok:
  assumes "layout_ok l"
  shows "kind_ok (kind_of l) \<and> lsize l \<le> kind_bytes (kind_of l) \<and> lalign l dvd kind_align (kind_of l)"
proof (cases "class_for l")
  case (Some c)
  obtain k where k: "lalign l = 2 ^ k"
    using assms by (auto simp: layout_ok_def)
  have "(2 :: nat) ^ k \<le> 2 ^ 4"
    using class_for_lt [OF Some] k by (simp add: MAX_CLASS_ALIGN_def)
  then have "(2 :: nat) ^ k dvd 2 ^ 4"
    by (simp only: power_increasing_iff one_less_numeral_iff semiring_norm le_imp_power_dvd)
  then show ?thesis
    using class_for_lt [OF Some] Some k by (simp add: kind_of_def MAX_CLASS_ALIGN_def)
next
  case None
  obtain k where k: "lalign l = 2 ^ k" "k < 63" and sz: "lsize l < 2 ^ 63"
    using assms by (auto simp: layout_ok_def)
  obtain i where i: "next_power_of_two (lsize l) = 2 ^ i"
    using next_power_of_two_power by blast
  have "(2 :: nat) ^ i \<le> 2 ^ 63"
    using next_power_of_two_least [of "lsize l" 63] sz i by simp
  then have i63: "i \<le> 63"
    by (simp only: power_increasing_iff one_less_numeral_iff semiring_norm)
  have max_power: "max (2 ^ a) (2 ^ b) = (2 :: nat) ^ max a b" for a b :: nat
    by (simp add: max_def)
  have min32: "LARGE_MIN = 2 ^ 5"
    by (simp add: LARGE_MIN_def)
  have ext: "large_extent l = 2 ^ max (max i k) 5"
    unfolding large_extent_def i k(1) min32 by (simp only: max_power)
  have "lsize l \<le> 2 ^ i"
    using next_power_of_two_bounds(1) [of "lsize l"] i by simp
  also have "\<dots> \<le> 2 ^ max (max i k) 5"
    by (intro power_increasing) auto
  finally have "lsize l \<le> large_extent l"
    by (simp add: ext)
  moreover have "lalign l dvd large_extent l"
    unfolding ext k(1) by (rule le_imp_power_dvd) simp
  moreover have "max (max i k) 5 \<in> {5..63}"
    using i63 k(2) by auto
  ultimately show ?thesis
    using None ext by (auto simp: kind_of_def)
qed

section \<open>Invariant\<close>

fun slist :: "(nat \<Rightarrow> nat) \<Rightarrow> nat \<Rightarrow> nat list \<Rightarrow> bool" where
  "slist m h [] \<longleftrightarrow> h = 0"
| "slist m h (x # xs) \<longleftrightarrow> h = x \<and> x \<noteq> 0 \<and> slist m (m x) xs"

lemma slist_cong: "(\<And>x. x \<in> set xs \<Longrightarrow> m' x = m x) \<Longrightarrow> slist m' h xs = slist m h xs"
  by (induction xs arbitrary: h) auto

definition srange :: "nat \<times> kind \<Rightarrow> nat set" where
  "srange B = {fst B ..< fst B + kind_extent (snd B)}"

definition listed :: "(kind \<Rightarrow> nat list) \<Rightarrow> (nat \<times> kind) set" where
  "listed L = {(x, k). x \<in> set (L k)}"

text \<open>\<open>L\<close> are the contents of the free lists and \<open>A\<close> the blocks handed out, all carved from the memory that starts at \<open>va\<close>.\<close>

definition sinv :: "slab \<Rightarrow> nat \<Rightarrow> (kind \<Rightarrow> nat list) \<Rightarrow> (nat \<times> kind) set \<Rightarrow> bool" where
  "sinv s va L A \<longleftrightarrow>
     length (class_lists s) = length CLASSES \<and> length (large_lists s) = LARGE_LISTS \<and>
     0 < va \<and> va \<le> bump_next s \<and> bump_next s \<le> bump_end s \<and> bump_end s < 2 ^ 64 \<and>
     (\<forall>(x, k) \<in> listed L \<union> A. kind_ok k \<and> kind_align k dvd x \<and> va \<le> x \<and> x + kind_extent k \<le> bump_next s) \<and>
     (\<forall>B \<in> listed L \<union> A. \<forall>B' \<in> listed L \<union> A. B \<noteq> B' \<longrightarrow> srange B \<inter> srange B' = {}) \<and> listed L \<inter> A = {} \<and>
     (\<forall>k. kind_ok k \<longrightarrow> slist (heap_mem s) (head_of s k) (L k) \<and> distinct (L k)) \<and> (\<forall>k. \<not> tracked k \<longrightarrow> L k = []) \<and>
     finite A \<and> allocated s = (\<Sum>B \<in> A. kind_bytes (snd B))"

lemma sinvD:
  assumes "sinv s va L A"
  shows "length (class_lists s) = length CLASSES" "length (large_lists s) = LARGE_LISTS" "0 < va" "va \<le> bump_next s"
    "bump_next s \<le> bump_end s" "bump_end s < 2 ^ 64"
    "(x, k) \<in> listed L \<union> A \<Longrightarrow> kind_ok k \<and> kind_align k dvd x \<and> va \<le> x \<and> x + kind_extent k \<le> bump_next s"
    "B \<in> listed L \<union> A \<Longrightarrow> B' \<in> listed L \<union> A \<Longrightarrow> a \<in> srange B \<Longrightarrow> a \<in> srange B' \<Longrightarrow> B = B'"
    "listed L \<inter> A = {}" "kind_ok j \<Longrightarrow> slist (heap_mem s) (head_of s j) (L j)" "kind_ok j \<Longrightarrow> distinct (L j)"
    "\<not> tracked j \<Longrightarrow> L j = []" "finite A" "allocated s = (\<Sum>B \<in> A. kind_bytes (snd B))"
  using assms unfolding sinv_def by blast+

lemma kind_sizes: "kind_ok k \<Longrightarrow> 0 < kind_extent k \<and> 0 < kind_bytes k \<and> kind_bytes k \<le> kind_extent k \<and> (\<exists>i < 64. kind_align k = 2 ^ i)"
proof (cases k)
  case (Cls c)
  assume "kind_ok k"
  then have "8 \<le> CLASSES ! c"
    using Cls sorted_nth_mono [OF CLASSES_sorted, of 0 c] by (simp add: CLASSES_def)
  then show ?thesis
    using Cls by (auto simp: MAX_CLASS_ALIGN_def intro: exI [of _ 4])
qed auto

lemma base_in_srange: "kind_ok k \<Longrightarrow> x \<in> srange (x, k)"
  using kind_sizes [of k] by (simp add: srange_def)

text \<open>All blocks fit side by side, so the accounting neither overflows nor underflows.\<close>

lemma allocated_bound:
  assumes inv: "sinv s va L A" and new: "X \<subseteq> listed L \<union> A" "finite X"
  shows "(\<Sum>B \<in> X. kind_bytes (snd B)) \<le> bump_next s - va"
proof -
  have "(\<Sum>B \<in> X. kind_bytes (snd B)) \<le> (\<Sum>B \<in> X. card (srange B))"
  proof (rule sum_mono)
    fix B assume "B \<in> X"
    then have "kind_ok (snd B)"
      using sinvD(7) [OF inv, of "fst B" "snd B"] new(1) by auto
    then show "kind_bytes (snd B) \<le> card (srange B)"
      using kind_sizes by (simp add: srange_def)
  qed
  also have "\<dots> = card (\<Union>B \<in> X. srange B)"
  proof (rule card_UN_disjoint [symmetric])
    show "\<forall>B \<in> X. \<forall>B' \<in> X. B \<noteq> B' \<longrightarrow> srange B \<inter> srange B' = {}"
      using inv new(1) unfolding sinv_def by blast
  qed (use new(2) in \<open>auto simp: srange_def\<close>)
  also have "\<dots> \<le> card {va..<bump_next s}"
  proof (rule card_mono)
    show "(\<Union>B \<in> X. srange B) \<subseteq> {va..<bump_next s}"
      using sinvD(7) [OF inv] new(1) by (fastforce simp: srange_def)
  qed simp
  finally show ?thesis by simp
qed

lemma slist_head: "slist m h xs \<Longrightarrow> h = 0 \<longleftrightarrow> xs = []"
  by (cases xs) auto

lemma same_block:
  assumes "sinv s va L A" "(x, k) \<in> listed L \<union> A" "(x, j) \<in> listed L \<union> A"
  shows "k = j"
  using sinvD(8) [OF assms] sinvD(7) [OF assms(1)] assms(2,3) base_in_srange by (metis prod.inject)

section \<open>The operations in terms of kinds\<close>

lemma bump_cases:
  assumes "\<exists>i < 64. al = 2 ^ i" "bump_next s < 2 ^ 64"
  shows "bump s n al = (0, s) \<or>
    (\<exists>start. bump s n al = (start, s\<lparr>bump_next := start + n\<rparr>) \<and> al dvd start \<and> bump_next s \<le> start \<and> start + n \<le> bump_end s)"
proof (cases "bump_next s + (al - 1) < 2 ^ 64")
  case True
  have pos: "0 < al" using assms(1) by auto
  let ?v = "bump_next s + (al - 1)"
  have "?v mod al < al" using pos by simp
  then have "bump_next s \<le> align_down ?v al"
    unfolding align_down_def by linarith
  then show ?thesis
    using True by (auto simp: bump_def usize_checked_add_def align_down_div)
qed (simp add: bump_def usize_checked_add_def)

lemma slab_alloc_kind:
  assumes "length (class_lists s) = length CLASSES" "length (large_lists s) = LARGE_LISTS"
  shows "slab_alloc s l =
    (let k = kind_of l; h = head_of s k;
         (p, s') = (if h = 0 then bump s (kind_extent k) (kind_align k) else (h, set_head k (heap_mem s h) s))
     in if p = 0 then Some (0, s') else do { s'' \<leftarrow> credit (kind_bytes k) s'; Some (p, s'') })"
proof (cases "class_for l")
  case (Some c)
  then show ?thesis
    using class_for_lt [OF Some] assms
    by (auto simp: slab_alloc_def kind_of_def index_def Let_def credit_def split: prod.split)
next
  case None
  then show ?thesis
    using assms large_index_lt [of "large_extent l"]
    by (cases "large_index (large_extent l)")
      (auto simp: slab_alloc_def kind_of_def index_def Let_def credit_def bind_assoc split: prod.split)
qed

lemma slab_dealloc_kind:
  assumes "length (class_lists s) = length CLASSES" "length (large_lists s) = LARGE_LISTS"
  shows "slab_dealloc s p l =
    (let k = kind_of l in do {
       a \<leftarrow> sub64 (allocated s) (kind_bytes k);
       Some (if tracked k then (set_head k p s)\<lparr>heap_mem := (heap_mem s)(p := head_of s k), allocated := a\<rparr> else s\<lparr>allocated := a\<rparr>) })"
proof (cases "class_for l")
  case (Some c)
  then show ?thesis
    using class_for_lt [OF Some] assms by (auto simp: slab_dealloc_def kind_of_def index_def Let_def split: Option.bind_split intro!: slab.equality)
next
  case None
  then show ?thesis
    using assms large_index_lt [of "large_extent l"]
    by (cases "large_index (large_extent l)")
      (auto simp: slab_dealloc_def kind_of_def index_def Let_def split: Option.bind_split intro!: slab.equality)
qed

section \<open>Every operation keeps the invariant\<close>

lemma sinv_pop:
  assumes inv: "sinv s va L A" and Lk: "L k = x # xs" and k: "kind_ok k"
    and s': "s' = (set_head k (heap_mem s x) s)\<lparr>allocated := allocated s + kind_bytes k\<rparr>"
  shows "sinv s' va (L(k := xs)) (insert (x, k) A)" "(x, k) \<notin> A"
proof -
  have tr: "tracked k"
    using sinvD(12) [OF inv, of k] Lk by auto
  have d: "distinct (x # xs)"
    using sinvD(11) [OF inv k] Lk by simp
  have in_L: "(x, k) \<in> listed L"
    using Lk by (simp add: listed_def)
  then show new: "(x, k) \<notin> A"
    using sinvD(9) [OF inv] by blast
  have listed: "listed (L(k := xs)) = listed L - {(x, k)}"
    using Lk d by (auto simp: listed_def split: if_splits)
  then have X: "listed (L(k := xs)) \<union> insert (x, k) A = listed L \<union> A"
    using in_L by blast
  have heads: "head_of s' j = (if j = k then heap_mem s x else head_of s j)" if "kind_ok j" for j
    using head_set_head [OF k tr that sinvD(1,2) [OF inv], of "heap_mem s x"] by (cases j) (auto simp: s' split: option.splits)
  have "slist (heap_mem s') (head_of s' j) ((L(k := xs)) j) \<and> distinct ((L(k := xs)) j)" if "kind_ok j" for j
    using sinvD(10,11) [OF inv that] Lk heads [OF that] by (auto simp: s')
  moreover have "allocated s' = (\<Sum>B \<in> insert (x, k) A. kind_bytes (snd B))"
    using sinvD(13,14) [OF inv] new by (simp add: s')
  moreover have "listed (L(k := xs)) \<inter> insert (x, k) A = {}"
    using listed sinvD(9) [OF inv] by auto
  ultimately show "sinv s' va (L(k := xs)) (insert (x, k) A)"
    using inv tr unfolding sinv_def X by (auto simp: s')
qed

lemma sinv_bump:
  assumes inv: "sinv s va L A" and k: "kind_ok k" "kind_align k dvd x" "bump_next s \<le> x" "x + kind_extent k \<le> bump_end s"
    and s': "s' = s\<lparr>bump_next := x + kind_extent k, allocated := allocated s + kind_bytes k\<rparr>"
  shows "sinv s' va L (insert (x, k) A)" "(x, k) \<notin> listed L \<union> A"
proof -
  have pos: "0 < kind_extent k"
    using kind_sizes [OF k(1)] by simp
  show new: "(x, k) \<notin> listed L \<union> A"
    using sinvD(7) [OF inv, of x k] k(3) pos by auto
  have out: "srange B \<inter> srange (x, k) = {}" if "B \<in> listed L \<union> A" for B
    using sinvD(7) [OF inv, of "fst B" "snd B"] that k(3) by (auto simp: srange_def)
  have X: "listed L \<union> insert (x, k) A = insert (x, k) (listed L \<union> A)"
    by blast
  have "\<forall>(y, j) \<in> insert (x, k) (listed L \<union> A). kind_ok j \<and> kind_align j dvd y \<and> va \<le> y \<and> y + kind_extent j \<le> bump_next s'"
    using sinvD(7) [OF inv] k sinvD(4) [OF inv] by (fastforce simp: s')
  moreover have "\<forall>B \<in> insert (x, k) (listed L \<union> A). \<forall>B' \<in> insert (x, k) (listed L \<union> A). B \<noteq> B' \<longrightarrow> srange B \<inter> srange B' = {}"
    using inv out unfolding sinv_def by blast
  moreover have "head_of s' j = head_of s j" for j
    by (cases j) (auto simp: s' split: option.splits)
  ultimately show "sinv s' va L (insert (x, k) A)"
    using inv new k sinvD(13,14) [OF inv] unfolding sinv_def X by (auto simp: s')
qed

lemma alloc_ok:
  assumes inv: "sinv s va L A" and l: "layout_ok l"
  shows "\<exists>p s' L'. slab_alloc s l = Some (p, s') \<and> heap_mem s' = heap_mem s \<and>
    (p = 0 \<longrightarrow> s' = s) \<and> (p \<noteq> 0 \<longrightarrow> (p, kind_of l) \<notin> A \<and> sinv s' va L' (insert (p, kind_of l) A)) \<and>
    (head_of s (kind_of l) \<noteq> 0 \<longrightarrow> p = head_of s (kind_of l))"
proof -
  let ?k = "kind_of l"
  have k: "kind_ok ?k"
    using kind_of_ok [OF l] by simp
  note alloc = slab_alloc_kind [OF sinvD(1,2) [OF inv], of l]
  have fits: "allocated s' < 2 ^ 64" if "sinv s' va L' A'" for s' L' A'
    using allocated_bound [OF that, of A'] sinvD(5,6,13,14) [OF that] by auto
  show ?thesis
  proof (cases "L ?k")
    case (Cons x xs)
    have head: "head_of s ?k = x" "x \<noteq> 0"
      using sinvD(10) [OF inv k] Cons by auto
    let ?s = "(set_head ?k (heap_mem s x) s)\<lparr>allocated := allocated s + kind_bytes ?k\<rparr>"
    note pop = sinv_pop [OF inv Cons k refl]
    have "slab_alloc s l = Some (x, ?s)"
      using alloc head fits [OF pop(1)] by (simp add: Let_def credit_def add64_def)
    then show ?thesis
      using pop head by (intro exI [of _ x] exI [of _ ?s]) auto
  next
    case Nil
    then have head: "head_of s ?k = 0"
      using sinvD(10) [OF inv k] by simp
    have "\<exists>i < 64. kind_align ?k = 2 ^ i" "bump_next s < 2 ^ 64"
      using kind_sizes [OF k] sinvD(5,6) [OF inv] by auto
    from bump_cases [OF this, of "kind_extent ?k"] show ?thesis
    proof (elim disjE exE conjE)
      assume "bump s (kind_extent ?k) (kind_align ?k) = (0, s)"
      then show ?thesis using alloc head by (intro exI [of _ 0] exI [of _ s]) (simp add: Let_def)
    next
      fix x assume b: "bump s (kind_extent ?k) (kind_align ?k) = (x, s\<lparr>bump_next := x + kind_extent ?k\<rparr>)" "kind_align ?k dvd x"
        "bump_next s \<le> x" "x + kind_extent ?k \<le> bump_end s"
      let ?s = "s\<lparr>bump_next := x + kind_extent ?k, allocated := allocated s + kind_bytes ?k\<rparr>"
      note bmp = sinv_bump [OF inv k b(2-4) refl]
      have "x \<noteq> 0"
        using b(3) sinvD(3,4) [OF inv] by simp
      then have "slab_alloc s l = Some (x, ?s)"
        using alloc head b(1) fits [OF bmp(1)] by (simp add: Let_def credit_def add64_def)
      then show ?thesis
        using bmp \<open>x \<noteq> 0\<close> head by (intro exI [of _ x] exI [of _ ?s]) auto
    qed
  qed
qed

lemma dealloc_ok:
  assumes inv: "sinv s va L A" and p: "(p, kind_of l) \<in> A"
  shows "\<exists>s' L'. slab_dealloc s p l = Some s' \<and> sinv s' va L' (A - {(p, kind_of l)}) \<and>
    (\<forall>a. a \<noteq> p \<longrightarrow> heap_mem s' a = heap_mem s a) \<and> (tracked (kind_of l) \<longrightarrow> head_of s' (kind_of l) = p)"
proof -
  let ?k = "kind_of l" and ?A = "A - {(p, kind_of l)}"
  have k: "kind_ok ?k" and pos: "p \<noteq> 0"
    using sinvD(7) [OF inv, of p ?k] sinvD(3) [OF inv] p by auto
  have sum: "allocated s = kind_bytes ?k + (\<Sum>B \<in> ?A. kind_bytes (snd B))"
    using sinvD(13,14) [OF inv] p by (simp add: sum.remove [of A "(p, ?k)"])
  note run = slab_dealloc_kind [OF sinvD(1,2) [OF inv], of p l]
  show ?thesis
  proof (cases "tracked ?k")
    case False
    let ?s = "s\<lparr>allocated := allocated s - kind_bytes ?k\<rparr>"
    have "slab_dealloc s p l = Some ?s"
      using run sum False by (simp add: Let_def sub64_def)
    moreover have "sinv ?s va L ?A"
    proof -
      have heads: "head_of ?s j = head_of s j" for j
        by (cases j) (auto split: option.splits)
      have blocks: "\<forall>(x, j) \<in> listed L \<union> ?A. kind_ok j \<and> kind_align j dvd x \<and> va \<le> x \<and> x + kind_extent j \<le> bump_next s"
        "\<forall>B \<in> listed L \<union> ?A. \<forall>B' \<in> listed L \<union> ?A. B \<noteq> B' \<longrightarrow> srange B \<inter> srange B' = {}" "listed L \<inter> ?A = {}"
        using inv unfolding sinv_def by blast+
      show ?thesis
        unfolding sinv_def heads using blocks sinvD(1-6,10-13) [OF inv] sum by simp
    qed
    ultimately show ?thesis using False by auto
  next
    case True
    define s' where "s' = (set_head ?k p s)\<lparr>heap_mem := (heap_mem s)(p := head_of s ?k), allocated := allocated s - kind_bytes ?k\<rparr>"
    let ?L = "L(?k := p # L ?k)"
    have "slab_dealloc s p l = Some s'"
      using run sum True by (simp add: Let_def sub64_def s'_def)
    moreover have heads: "head_of s' j = (if j = ?k then p else head_of s j)" if "kind_ok j" for j
      using head_set_head [OF k True that sinvD(1,2) [OF inv], of p] by (cases j) (auto simp: s'_def split: option.splits)
    have out: "p \<notin> set (L j)" for j
      using same_block [OF inv, of p j ?k] p sinvD(9) [OF inv] by (auto simp: listed_def)
    have "sinv s' va ?L ?A"
    proof -
      have X: "listed ?L \<union> ?A = listed L \<union> A" "listed ?L \<inter> ?A = {}"
        using p sinvD(9) [OF inv] by (auto simp: listed_def)
      have lists: "slist (heap_mem s') (head_of s' j) (?L j) \<and> distinct (?L j)" if "kind_ok j" for j
      proof -
        have "slist (heap_mem s') h (L j) = slist (heap_mem s) h (L j)" for h
          using out by (intro slist_cong) (auto simp: s'_def)
        then show ?thesis
          using sinvD(10,11) [OF inv that] heads [OF that] out pos by (auto simp: s'_def)
      qed
      have rest: "\<forall>j. \<not> tracked j \<longrightarrow> ?L j = []" "finite ?A" "allocated s' = (\<Sum>B \<in> ?A. kind_bytes (snd B))"
        using sinvD(12,13) [OF inv] True sum by (auto simp: s'_def)
      show ?thesis
        unfolding sinv_def X(1) using lists rest X(2) inv unfolding sinv_def by (simp add: s'_def)
    qed
    ultimately show ?thesis
      using heads [OF k] by (auto simp: s'_def)
  qed
qed

section \<open>Runs\<close>

text \<open>\<open>sreach s va A\<close>: the heap is in state \<open>s\<close>, was given memory from \<open>va\<close> on, and has handed out the blocks \<open>A\<close>. Owners
  write anything into their blocks and return them with a layout of the kind they were allocated with.\<close>

inductive sreach :: "slab \<Rightarrow> nat \<Rightarrow> (nat \<times> kind) set \<Rightarrow> bool" where
  start: "slab_set_backing (slab_new m) va len = Some s \<Longrightarrow> 0 < va \<Longrightarrow> sreach s va {}"
| alloc: "sreach s va A \<Longrightarrow> layout_ok l \<Longrightarrow> slab_alloc s l = Some (p, s') \<Longrightarrow> p \<noteq> 0 \<Longrightarrow> sreach s' va (insert (p, kind_of l) A)"
| null: "sreach s va A \<Longrightarrow> layout_ok l \<Longrightarrow> slab_alloc s l = Some (0, s') \<Longrightarrow> sreach s' va A"
| dealloc: "sreach s va A \<Longrightarrow> (p, kind_of l) \<in> A \<Longrightarrow> slab_dealloc s p l = Some s' \<Longrightarrow> sreach s' va (A - {(p, kind_of l)})"
| store: "sreach s va A \<Longrightarrow> (p, k) \<in> A \<Longrightarrow> a \<in> srange (p, k) \<Longrightarrow> sreach (s\<lparr>heap_mem := (heap_mem s)(a := v)\<rparr>) va A"

lemma start_inv:
  assumes "slab_set_backing (slab_new m) va len = Some s" "0 < va"
  shows "sinv s va (\<lambda>_. []) {}"
proof -
  have e: "va + len < 2 ^ 64" and s: "s = (slab_new m)\<lparr>bump_next := va, bump_end := va + len\<rparr>"
    using assms by (auto simp: slab_set_backing_def slab_new_def usize_checked_add_def check_bind split: if_splits)
  have "head_of s k = 0" if "kind_ok k" for k
    using that large_index_lt by (cases k) (auto simp: s slab_new_def split: option.split)
  then show ?thesis
    using e assms(2) unfolding sinv_def by (auto simp: s slab_new_def listed_def)
qed

lemma store_inv:
  assumes inv: "sinv s va L A" and p: "(p, k) \<in> A" "a \<in> srange (p, k)"
  shows "sinv (s\<lparr>heap_mem := (heap_mem s)(a := v)\<rparr>) va L A"
proof -
  let ?s = "s\<lparr>heap_mem := (heap_mem s)(a := v)\<rparr>"
  have heads: "head_of ?s j = head_of s j" for j
    by (cases j) (auto split: option.splits)
  have "slist (heap_mem ?s) h (L j) = slist (heap_mem s) h (L j)" if "kind_ok j" for h j
  proof (rule slist_cong)
    fix x assume "x \<in> set (L j)"
    then have "x \<noteq> a"
      using sinvD(8) [OF inv, of "(x, j)" "(p, k)" a] sinvD(9) [OF inv] p base_in_srange [OF that] by (auto simp: listed_def)
    then show "heap_mem ?s x = heap_mem s x" by simp
  qed
  then show ?thesis
    using inv unfolding sinv_def heads by simp
qed

lemma sreach_inv: "sreach s va A \<Longrightarrow> \<exists>L. sinv s va L A"
proof (induction rule: sreach.induct)
  case (start m va len s)
  then show ?case using start_inv by blast
next
  case (alloc s va A l p s')
  then show ?case using alloc_ok by fastforce
next
  case (null s va A l s')
  then show ?case using alloc_ok by fastforce
next
  case (dealloc s va A p l s')
  then show ?case using dealloc_ok by fastforce
next
  case (store s va A p k a v)
  then show ?case using store_inv by blast
qed

section \<open>Properties\<close>

text \<open>C33: the class arithmetic, which never scans the table, picks exactly the smallest size class that holds the
  request, and none exactly when the alignment is too strict or no class is large enough.\<close>

theorem slab_class_exact:
  "class_for l = (if lalign l > MAX_CLASS_ALIGN then None else position (\<lambda>c. lsize l \<le> c) CLASSES)"
  by (rule class_for_eq)

text \<open>C31: in every run \<open>alloc\<close> returns without panicking and writes no memory. A block it returns is aligned as asked,
  holds the request, lies inside the memory the heap was given and overlaps no block handed out; null changes nothing.\<close>

theorem slab_alloc_exclusive:
  assumes "sreach s va A" "layout_ok l"
  shows "\<exists>p s'. slab_alloc s l = Some (p, s') \<and> heap_mem s' = heap_mem s \<and>
    (if p = 0 then s' = s
     else lalign l dvd p \<and> va \<le> p \<and> p + lsize l \<le> bump_end s' \<and> bump_end s' = bump_end s \<and>
       allocated s' = allocated s + kind_bytes (kind_of l) \<and>
       (\<forall>B \<in> A. srange B \<inter> {p..<p + lsize l} = {}))"
proof -
  obtain L where inv: "sinv s va L A"
    using sreach_inv [OF assms(1)] by blast
  let ?k = "kind_of l"
  obtain p s' L' where a: "slab_alloc s l = Some (p, s')" "heap_mem s' = heap_mem s" "p = 0 \<longrightarrow> s' = s"
    "p \<noteq> 0 \<longrightarrow> (p, ?k) \<notin> A \<and> sinv s' va L' (insert (p, ?k) A)"
    using alloc_ok [OF inv assms(2)] by (elim exE conjE) (rule that; assumption)
  have k: "kind_ok ?k" "lsize l \<le> kind_bytes ?k" "lalign l dvd kind_align ?k" "kind_bytes ?k \<le> kind_extent ?k"
    using kind_of_ok [OF assms(2)] kind_sizes by auto
  show ?thesis
  proof (cases "p = 0")
    case True
    then show ?thesis using a by auto
  next
    case False
    have inv': "sinv s' va L' (insert (p, ?k) A)" and new: "(p, ?k) \<notin> A"
      using a(4) False by auto
    have blk: "kind_align ?k dvd p" "va \<le> p" "p + kind_extent ?k \<le> bump_next s'"
      using sinvD(7) [OF inv', of p ?k] by auto
    have "bump_end s' = bump_end s"
      using a(1) slab_alloc_kind [OF sinvD(1,2) [OF inv], of l]
      by (auto simp: Let_def credit_def add64_def bump_def usize_checked_add_def bind_eq_Some_conv split: if_splits option.splits)
    moreover have "allocated s' = allocated s + kind_bytes ?k"
      using sinvD(13,14) [OF inv] sinvD(14) [OF inv'] new by simp
    moreover have "srange B \<inter> {p..<p + lsize l} = {}" if "B \<in> A" for B
    proof -
      have "{p..<p + lsize l} \<subseteq> srange (p, ?k)"
        using k(2,4) by (auto simp: srange_def)
      moreover have "srange B \<inter> srange (p, ?k) = {}"
        using sinvD(8) [OF inv', of B "(p, ?k)"] that new by blast
      ultimately show ?thesis by blast
    qed
    ultimately show ?thesis
      using a(1,2) False blk k sinvD(5) [OF inv'] by (auto intro: dvd_trans)
  qed
qed


section \<open>A concrete run\<close>

definition ex_layout :: layout where
  "ex_layout = \<lparr>lsize = 100, lalign = 8\<rparr>"

lemma ex_layout_ok: "layout_ok ex_layout" "kind_of ex_layout = Cls 8"
  by (auto simp: layout_ok_def ex_layout_def kind_of_def class_for_eq CLASSES_def MAX_CLASS_ALIGN_def intro!: exI [of _ 3])

definition ex_heap :: slab where
  "ex_heap = \<lparr>heap_mem = \<lambda>_. 0, class_lists = replicate (length CLASSES) 0, large_lists = replicate LARGE_LISTS 0, bump_next = 0x1000, bump_end = 0x2000, allocated = 0\<rparr>"

lemma ex_heap_reach: "sreach ex_heap 0x1000 {}"
  by (rule sreach.start [of "\<lambda>_. 0" _ "0x1000"])
    (simp_all add: slab_set_backing_def slab_new_def usize_checked_add_def ex_heap_def CLASSES_def LARGE_LISTS_def)

lemma ex_alloc: "slab_alloc ex_heap ex_layout = Some (0x1000, ex_heap\<lparr>bump_next := 0x1080, allocated := 128\<rparr>)"
proof -
  have "length (class_lists ex_heap) = length CLASSES" "length (large_lists ex_heap) = LARGE_LISTS" "head_of ex_heap (Cls 8) = 0"
    by (simp_all add: ex_heap_def CLASSES_def)
  then show ?thesis
    by (simp add: slab_alloc_kind ex_layout_ok)
      (simp add: ex_heap_def credit_def add64_def CLASSES_def bump_def usize_checked_add_def align_down_def MAX_CLASS_ALIGN_def)
qed

theorem slab_alloc_exclusive_witness:
  "sreach ex_heap 0x1000 {} \<and> layout_ok ex_layout \<and> (\<exists>s'. slab_alloc ex_heap ex_layout = Some (0x1000, s') \<and> allocated s' = 128)"
  using slab_alloc_exclusive [OF ex_heap_reach ex_layout_ok(1)] ex_alloc ex_heap_reach ex_layout_ok
  by (simp add: CLASSES_def ex_heap_def)


end
