(* ===== verification/Abi.thy ===== *)
theory Abi
  imports Qunix_Prelude
begin

unbundle bit_operations_syntax

text \<open>
  The kernel's binary interface, \<open>crates/qunix-abi/src/lib.rs\<close>: system-call numbers, error returns, open flags,
  seek references and the records system calls fill in. A \<open>repr(i64)\<close> enum is a datatype with the function that gives
  its value; a \<open>from_raw\<close> is a function to \<open>option\<close>.
\<close>

datatype exit_code = Exit_Success | Exit_Failure

definition exit_code_value :: "exit_code \<Rightarrow> u32" where
  "exit_code_value c = (case c of Exit_Success \<Rightarrow> 0x10 | Exit_Failure \<Rightarrow> 0x11)"

definition HOST_STATUS_SUCCESS :: int where "HOST_STATUS_SUCCESS = 33"
definition HOST_STATUS_FAILURE :: int where "HOST_STATUS_FAILURE = 35"

datatype sys = Exit | Write | Yield | GetPid | Open | Read | Close | Lseek | Readdir | Stat

definition sys_value :: "sys \<Rightarrow> u64" where
  "sys_value s = (case s of Exit \<Rightarrow> 0 | Write \<Rightarrow> 1 | Yield \<Rightarrow> 2 | GetPid \<Rightarrow> 3 | Open \<Rightarrow> 4 | Read \<Rightarrow> 5 | Close \<Rightarrow> 6
     | Lseek \<Rightarrow> 7 | Readdir \<Rightarrow> 8 | Stat \<Rightarrow> 9)"

definition sys_from_raw :: "u64 \<Rightarrow> sys option" where
  "sys_from_raw nr =
     (if nr = 0 then Some Exit else if nr = 1 then Some Write else if nr = 2 then Some Yield else if nr = 3 then Some GetPid
      else if nr = 4 then Some Open else if nr = 5 then Some Read else if nr = 6 then Some Close else if nr = 7 then Some Lseek
      else if nr = 8 then Some Readdir else if nr = 9 then Some Stat else None)"

datatype errno = Ok | BadSyscall | BadAddress | BadArgument | NoEntry | NotDirectory | IsDirectory | BadDescriptor
  | NameTooLong | TooManyLinks | TooManyFiles | NotSupported

definition errno_value :: "errno \<Rightarrow> int" where
  "errno_value e = (case e of Ok \<Rightarrow> 0 | BadSyscall \<Rightarrow> -1 | BadAddress \<Rightarrow> -2 | BadArgument \<Rightarrow> -3 | NoEntry \<Rightarrow> -4
     | NotDirectory \<Rightarrow> -5 | IsDirectory \<Rightarrow> -6 | BadDescriptor \<Rightarrow> -7 | NameTooLong \<Rightarrow> -8 | TooManyLinks \<Rightarrow> -9
     | TooManyFiles \<Rightarrow> -10 | NotSupported \<Rightarrow> -11)"

record open_flags =
  flag_bits :: u32

definition OpenFlags_READ :: open_flags where "OpenFlags_READ = \<lparr>flag_bits = push_bit 0 1\<rparr>"
definition OpenFlags_WRITE :: open_flags where "OpenFlags_WRITE = \<lparr>flag_bits = push_bit 1 1\<rparr>"
definition OpenFlags_KNOWN :: u32 where "OpenFlags_KNOWN = flag_bits OpenFlags_READ OR flag_bits OpenFlags_WRITE"

definition flags_from_bits :: "u32 \<Rightarrow> open_flags option" where
  "flags_from_bits bits = (if bits AND NOT OpenFlags_KNOWN \<noteq> 0 then None else Some \<lparr>flag_bits = bits\<rparr>)"

definition is_readable :: "open_flags \<Rightarrow> bool" where
  "is_readable f \<longleftrightarrow> flag_bits f AND flag_bits OpenFlags_READ \<noteq> 0"

definition is_writable :: "open_flags \<Rightarrow> bool" where
  "is_writable f \<longleftrightarrow> flag_bits f AND flag_bits OpenFlags_WRITE \<noteq> 0"

datatype whence = WSet | WCurrent | WEnd

definition whence_value :: "whence \<Rightarrow> u64" where
  "whence_value w = (case w of WSet \<Rightarrow> 0 | WCurrent \<Rightarrow> 1 | WEnd \<Rightarrow> 2)"

definition whence_from_raw :: "u64 \<Rightarrow> whence option" where
  "whence_from_raw raw = (if raw = 0 then Some WSet else if raw = 1 then Some WCurrent else if raw = 2 then Some WEnd else None)"

definition NAME_MAX :: usize where "NAME_MAX = 248"
definition PATH_MAX :: usize where "PATH_MAX = 4096"

lemma sys_from_raw_value: "sys_from_raw nr = Some s \<longleftrightarrow> nr = sys_value s"
  by (cases s) (auto simp: sys_from_raw_def sys_value_def)

lemma sys_from_raw_None: "sys_from_raw nr = None \<longleftrightarrow> 9 < nr"
proof (cases "9 < nr")
  case False
  then have "unat nr \<le> 9" by (simp add: word_less_nat_alt)
  then have "unat nr = 0 \<or> unat nr = 1 \<or> unat nr = 2 \<or> unat nr = 3 \<or> unat nr = 4 \<or> unat nr = 5 \<or> unat nr = 6 \<or>
      unat nr = 7 \<or> unat nr = 8 \<or> unat nr = 9"
    by arith
  moreover have "nr = word_of_nat (unat nr)" by simp
  ultimately show ?thesis
    using False by (elim disjE) (simp_all add: sys_from_raw_def)
qed (auto simp: sys_from_raw_def word_less_nat_alt)

lemma errno_value_bounds: "-11 \<le> errno_value e" "errno_value e \<le> 0" "errno_value e = 0 \<longleftrightarrow> e = Ok"
  by (cases e; simp add: errno_value_def)+

lemma errno_value_inj: "errno_value e = errno_value e' \<longleftrightarrow> e = e'"
  by (cases e; cases e'; simp add: errno_value_def)

lemma flags_from_bits_Some: "flags_from_bits b = Some f \<longleftrightarrow> b = flag_bits f \<and> b < 4"
proof -
  have "b AND NOT (mask 2) = 0 \<longleftrightarrow> b AND mask 2 = b"
    by (auto simp: bit_eq_iff bit_simps)
  also have "\<dots> \<longleftrightarrow> b < 4"
    by (simp add: take_bit_eq_mask [symmetric] word_unat_eq_iff [of "take_bit 2 b"] unsigned_take_bit_eq take_bit_nat_eq_self_iff word_less_nat_alt)
  finally show ?thesis
    by (cases f) (auto simp: flags_from_bits_def OpenFlags_KNOWN_def OpenFlags_READ_def OpenFlags_WRITE_def mask_eq_exp_minus_1)
qed

end
