(* ===== verification/Vfs_Path.thy ===== *)
theory Vfs_Path
  imports Abi
begin

text \<open>
  Paths, \<open>crates/qunix-vfs/src/path.rs\<close>: validation of a path and the components a walker visits. A \<open>&str\<close> is its bytes
  (\<open>string\<close>, whose characters are eight bits wide), as the length bounds count bytes and \<open>/\<close> is one byte in UTF-8.
\<close>

section \<open>Model\<close>

datatype component = Current | Parent | Name string



text \<open>\<open>str::split\<close> with a character: one piece more than there are separators.\<close>

fun split_on :: "char \<Rightarrow> string \<Rightarrow> string list" where
  "split_on c [] = [[]]"
| "split_on c (x # xs) = (if x = c then [] # split_on c xs else (x # hd (split_on c xs)) # tl (split_on c xs))"



definition to_component :: "string \<Rightarrow> component" where
  "to_component s = (if s = ''.'' then Current else if s = ''..'' then Parent else Name s)"


section \<open>Specification\<close>

text \<open>How a component is spelt, the shortest spelling of a path, and the components a path may have.\<close>

fun spell :: "component \<Rightarrow> string" where
  "spell Current = ''.''"
| "spell Parent = ''..''"
| "spell (Name s) = s"




section \<open>Splitting\<close>

lemma split_on_ne [simp]: "split_on c xs \<noteq> []"
  by (cases xs) simp_all







lemma spell_to_component [simp]: "spell (to_component s) = s"
  by (simp add: to_component_def)





section \<open>Properties\<close>



end
