(* ===== verification/Buddy.thy ===== *)
theory Buddy
  imports Bit_Count
begin

unbundle bit_operations_syntax

text \<open>
  The physical frame allocator, \<open>crates/qunix-mm/src/buddy.rs\<close>: binary buddies whose free lists are threaded
  through the first three words of every free block. Physical memory (the \<open>FrameBacking\<close>) is an explicit store
  from addresses to 64-bit words, so that what the allocator writes into memory it handed out, and what the
  owners of that memory write under it, can be stated. Addresses and counters are naturals below \<open>2 ^ 64\<close>;
  arithmetic that would overflow panics, as in the profile with overflow checks.
\<close>

section \<open>Constants\<close>

definition PAGE_SIZE :: nat where
  "PAGE_SIZE = 4096"

definition MAX_ORDER :: nat where
  "MAX_ORDER = 18"

definition buddy_NIL :: nat where
  "buddy_NIL = 2 ^ 64 - 1"

definition OFF_NEXT :: nat where
  "OFF_NEXT = 0"

definition OFF_PREV :: nat where
  "OFF_PREV = 8"

definition OFF_TAG :: nat where
  "OFF_TAG = 16"

definition TAG_SEED :: nat where
  "TAG_SEED = 0x51554E49585F4652"

definition MAX_REGIONS :: nat where
  "MAX_REGIONS = 128"

section \<open>State\<close>

record buddy =
  backing :: "nat \<Rightarrow> nat"
  free_lists :: "nat list"
  nonempty :: u32
  free_bytes :: nat
  foreign_frees :: nat
  rejected_unlinks :: nat
  truncated_lists :: nat
  regions :: "(nat \<times> nat) list"
  region_count :: nat
  edge_dropped_bytes :: nat
  refused_region_bytes :: nat
  refused_regions :: nat
  malformed_region_bytes :: nat

definition buddy_new :: "(nat \<Rightarrow> nat) \<Rightarrow> buddy" where
  "buddy_new m = \<lparr>backing = m, free_lists = replicate (MAX_ORDER + 1) buddy_NIL, nonempty = 0, free_bytes = 0,
     foreign_frees = 0, rejected_unlinks = 0, truncated_lists = 0, regions = replicate MAX_REGIONS (0, 0),
     region_count = 0, edge_dropped_bytes = 0, refused_region_bytes = 0, refused_regions = 0, malformed_region_bytes = 0\<rparr>"

definition set_backing :: "buddy \<Rightarrow> (nat \<Rightarrow> nat) \<Rightarrow> buddy run" where
  "set_backing b m = do { check (region_count b = 0); Some (b\<lparr>backing := m\<rparr>) }"

definition dropped_bytes :: "buddy \<Rightarrow> nat run" where
  "dropped_bytes b = do {
     s \<leftarrow> add64 (edge_dropped_bytes b) (refused_region_bytes b);
     add64 s (malformed_region_bytes b) }"

definition region_of :: "buddy \<Rightarrow> nat \<Rightarrow> (nat \<times> nat) option" where
  "region_of b block = find (\<lambda>(s, e). s \<le> block \<and> block < e) (take (region_count b) (regions b))"

definition block_size :: "nat \<Rightarrow> nat" where
  "block_size order = PAGE_SIZE * 2 ^ order"

definition free_tag :: "nat \<Rightarrow> nat \<Rightarrow> nat" where
  "free_tag pa order = ((TAG_SEED XOR pa) XOR (order * 0x9E3779B97F4A7C15) mod 2 ^ 64) OR 1"

definition word :: "buddy \<Rightarrow> nat \<Rightarrow> nat \<Rightarrow> nat" where
  "word b pa offset = backing b (pa + offset)"

definition set_word :: "buddy \<Rightarrow> nat \<Rightarrow> nat \<Rightarrow> nat \<Rightarrow> buddy" where
  "set_word b pa offset value = b\<lparr>backing := (backing b)(pa + offset := value)\<rparr>"

section \<open>Free lists\<close>

definition push :: "buddy \<Rightarrow> nat \<Rightarrow> nat \<Rightarrow> buddy run" where
  "push b pa order = do {
     head \<leftarrow> index (free_lists b) order;
     let b = set_word b pa OFF_NEXT head;
     let b = set_word b pa OFF_PREV buddy_NIL;
     let b = set_word b pa OFF_TAG (free_tag pa order);
     let b = (if head \<noteq> buddy_NIL then set_word b head OFF_PREV pa else b);
     Some (b\<lparr>free_lists := (free_lists b)[order := pa], nonempty := nonempty b OR push_bit order 1\<rparr>) }"

definition plausible_link :: "buddy \<Rightarrow> nat \<Rightarrow> nat \<Rightarrow> bool" where
  "plausible_link b link order \<longleftrightarrow>
     link = buddy_NIL \<or> (link mod block_size order = 0 \<and> region_of b link \<noteq> None)"

definition pop :: "buddy \<Rightarrow> nat \<Rightarrow> (nat option \<times> buddy) run" where
  "pop b order = do {
     head \<leftarrow> index (free_lists b) order;
     if head = buddy_NIL then Some (None, b)
     else do {
       let link = word b head OFF_NEXT;
       (next_pa, b) \<leftarrow> (if plausible_link b link order then Some (link, b)
                       else do {
                         t \<leftarrow> add64 (truncated_lists b) 1;
                         Some (buddy_NIL, b\<lparr>truncated_lists := t\<rparr>) });
       let b = b\<lparr>free_lists := (free_lists b)[order := next_pa]\<rparr>;
       let b = (if next_pa = buddy_NIL then b\<lparr>nonempty := nonempty b AND NOT (push_bit order 1)\<rparr>
                else set_word b next_pa OFF_PREV buddy_NIL);
       Some (Some head, set_word b head OFF_TAG 0) } }"

definition free_neighbour :: "buddy \<Rightarrow> nat \<Rightarrow> nat \<Rightarrow> bool" where
  "free_neighbour b link order \<longleftrightarrow>
     link = buddy_NIL \<or> (plausible_link b link order \<and> word b link OFF_TAG = free_tag link order)"

definition unlink :: "buddy \<Rightarrow> nat \<Rightarrow> nat \<Rightarrow> (bool \<times> buddy) run" where
  "unlink b pa order =
     (if word b pa OFF_TAG \<noteq> free_tag pa order then Some (False, b)
      else do {
        let prev_pa = word b pa OFF_PREV;
        let next_pa = word b pa OFF_NEXT;
        if \<not> free_neighbour b prev_pa order \<or> \<not> free_neighbour b next_pa order
        then do {
          r \<leftarrow> add64 (rejected_unlinks b) 1;
          Some (False, b\<lparr>rejected_unlinks := r\<rparr>) }
        else do {
          b \<leftarrow> (if prev_pa = buddy_NIL
               then do {
                 _ \<leftarrow> index (free_lists b) order;
                 let b = b\<lparr>free_lists := (free_lists b)[order := next_pa]\<rparr>;
                 Some (if next_pa = buddy_NIL then b\<lparr>nonempty := nonempty b AND NOT (push_bit order 1)\<rparr> else b) }
               else Some (set_word b prev_pa OFF_NEXT next_pa));
          let b = (if next_pa \<noteq> buddy_NIL then set_word b next_pa OFF_PREV prev_pa else b);
          Some (True, set_word b pa OFF_TAG 0) } })"

section \<open>Regions, allocation and release\<close>

definition order_at :: "nat \<Rightarrow> nat \<Rightarrow> nat" where
  "order_at addr end_pa =
     (let by_align = trailing_zeros 64 addr - trailing_zeros 64 PAGE_SIZE;
          by_fit = ilog2 ((end_pa - addr) div PAGE_SIZE)
      in min (min by_align by_fit) MAX_ORDER)"

lemma block_size_pos: "0 < block_size order"
  by (simp add: block_size_def PAGE_SIZE_def)

function add_blocks :: "buddy \<Rightarrow> nat \<Rightarrow> nat \<Rightarrow> buddy run" where
  "add_blocks b addr end_pa =
     (if addr < end_pa then do {
        let order = order_at addr end_pa;
        b \<leftarrow> push b addr order;
        f \<leftarrow> add64 (free_bytes b) (block_size order);
        add_blocks (b\<lparr>free_bytes := f\<rparr>) (addr + block_size order) end_pa }
      else Some b)"
  by pat_completeness auto
termination
  by (relation "measure (\<lambda>(b, addr, end_pa). end_pa - addr)")
    (auto simp: block_size_pos intro: diff_less_mono2 dest: less_le_trans)

declare add_blocks.simps [simp del]

definition add_region :: "buddy \<Rightarrow> nat \<Rightarrow> nat \<Rightarrow> buddy run" where
  "add_region b start len =
     (case (u64_checked_next_multiple_of start PAGE_SIZE, usize_checked_add start len) of
        (Some addr, Some limit) \<Rightarrow>
          let end_pa = align_down limit PAGE_SIZE in
          if end_pa \<le> addr then do {
            m \<leftarrow> add64 (malformed_region_bytes b) len;
            Some (b\<lparr>malformed_region_bytes := m\<rparr>) }
          else do {
            d \<leftarrow> add64 (edge_dropped_bytes b) ((addr - start) + (limit - end_pa));
            let b = b\<lparr>edge_dropped_bytes := d\<rparr>;
            if region_count b = MAX_REGIONS then do {
              r \<leftarrow> add64 (refused_region_bytes b) (end_pa - addr);
              check (refused_regions b + 1 < 2 ^ 32);
              Some (b\<lparr>refused_region_bytes := r, refused_regions := refused_regions b + 1\<rparr>) }
            else do {
              _ \<leftarrow> index (regions b) (region_count b);
              add_blocks (b\<lparr>regions := (regions b)[region_count b := (addr, end_pa)], region_count := region_count b + 1\<rparr>)
                addr end_pa } }
      | _ \<Rightarrow> do {
          m \<leftarrow> add64 (malformed_region_bytes b) len;
          Some (b\<lparr>malformed_region_bytes := m\<rparr>) })"

text \<open>The split loop of \<open>alloc\<close>; the last argument counts \<open>source - order\<close>.\<close>

fun split_down :: "buddy \<Rightarrow> nat \<Rightarrow> nat \<Rightarrow> nat \<Rightarrow> buddy run" where
  "split_down b pa order 0 = Some b"
| "split_down b pa order (Suc n) = do {
     b \<leftarrow> push b (pa + block_size (order + n)) (order + n);
     split_down b pa order n }"

definition buddy_alloc :: "buddy \<Rightarrow> nat \<Rightarrow> (nat option \<times> buddy) run" where
  "buddy_alloc b order =
     (if order > MAX_ORDER then Some (None, b)
      else do {
        let usable = nonempty b AND NOT (push_bit order 1 - 1);
        if usable = 0 then Some (None, b)
        else do {
          let source = trailing_zeros 32 usable;
          (r, b) \<leftarrow> pop b source;
          (case r of
             None \<Rightarrow> Some (None, b)
           | Some pa \<Rightarrow> do {
               b \<leftarrow> split_down b pa order (source - order);
               f \<leftarrow> sub64 (free_bytes b) (block_size order);
               Some (Some pa, b\<lparr>free_bytes := f\<rparr>) }) } })"

text \<open>The scan for a free block that contains the one being freed, and the merge loop.\<close>

function scan_free :: "buddy \<Rightarrow> nat \<Rightarrow> nat \<Rightarrow> u32 \<Rightarrow> unit run" where
  "scan_free b pa region_start mask_bits =
     (if mask_bits = 0 then Some ()
      else do {
        let order = trailing_zeros 32 mask_bits;
        let containing = align_down pa (block_size order);
        if containing < region_start then Some ()
        else do {
          check (word b containing OFF_TAG \<noteq> free_tag containing order);
          scan_free b pa region_start (mask_bits AND (mask_bits - 1)) } })"
  by pat_completeness auto
termination
  by (relation "measure (\<lambda>(b, pa, region_start, mask_bits). unat mask_bits)") (auto simp: unat_clear_lowest)

declare scan_free.simps [simp del]

function merge_up :: "buddy \<Rightarrow> nat \<Rightarrow> nat \<Rightarrow> nat \<Rightarrow> nat \<Rightarrow> (buddy \<times> nat \<times> nat) run" where
  "merge_up b region_start region_end pa order =
     (if order < MAX_ORDER then
        (let size_b = block_size order; buddy_pa = pa XOR size_b in
         if buddy_pa < region_start \<or> buddy_pa \<ge> region_end \<or> region_end - buddy_pa < size_b then Some (b, pa, order)
         else do {
           (ok, b) \<leftarrow> unlink b buddy_pa order;
           if \<not> ok then Some (b, pa, order)
           else merge_up b region_start region_end (min pa buddy_pa) (order + 1) })
      else Some (b, pa, order))"
  by pat_completeness auto
termination
  by (relation "measure (\<lambda>(b, region_start, region_end, pa, order). MAX_ORDER - order)") auto

declare merge_up.simps [simp del]

definition refuse :: "buddy \<Rightarrow> nat \<Rightarrow> buddy run" where
  "refuse b order = do {
     f \<leftarrow> sub64 (free_bytes b) (block_size order);
     g \<leftarrow> add64 (foreign_frees b) (block_size order);
     Some (b\<lparr>free_bytes := f, foreign_frees := g\<rparr>) }"

definition buddy_free :: "buddy \<Rightarrow> nat \<Rightarrow> nat \<Rightarrow> buddy run" where
  "buddy_free b pa order = do {
     check (order \<le> MAX_ORDER);
     check (region_count b > 0);
     f \<leftarrow> add64 (free_bytes b) (block_size order);
     let b = b\<lparr>free_bytes := f\<rparr>;
     (case region_of b pa of
        None \<Rightarrow> refuse b order
      | Some (region_start, region_end) \<Rightarrow>
          if region_end - pa < block_size order then refuse b order
          else if pa mod block_size order \<noteq> 0 then refuse b order
          else do {
            scan_free b pa region_start (nonempty b);
            (b, pa', order') \<leftarrow> merge_up b region_start region_end pa order;
            push b pa' order' }) }"

end
