(* ===== verification/Buddy_Inv.thy ===== *)
theory Buddy_Inv
  imports Buddy
begin

unbundle bit_operations_syntax

text \<open>
  The invariant of the frame allocator. The ghost state is the contents of each free list, the blocks handed out,
  the blocks an operation has in hand between two lists, and the addresses of a region not yet carved into blocks.
  Together they partition the managed memory. One lemma per list operation shows that it keeps the invariant and
  writes into no block handed out.
\<close>

section \<open>Bits and alignment\<close>

lemma block_size_power: "block_size k = 2 ^ (k + 12)"
  by (simp add: block_size_def PAGE_SIZE_def power_add)

lemma block_size_Suc: "block_size (Suc k) = 2 * block_size k"
  by (simp add: block_size_def)

lemma block_size_mono: "j \<le> k \<Longrightarrow> block_size j \<le> block_size k"
  by (simp add: block_size_power)

lemma block_size_dvd: "j \<le> k \<Longrightarrow> block_size j dvd block_size k"
  by (simp add: block_size_power le_imp_power_dvd)

lemma page_dvd: "block_size k dvd x \<Longrightarrow> PAGE_SIZE dvd x"
  by (auto simp: block_size_def intro: dvd_trans)

lemma page_le: "PAGE_SIZE \<le> block_size k"
  by (simp add: block_size_def)

lemma align_down_cong:
  "a div block_size i = a' div block_size i \<Longrightarrow> i \<le> j \<Longrightarrow> align_down a (block_size j) = align_down a' (block_size j)"
proof -
  assume eq: "a div block_size i = a' div block_size i" and "i \<le> j"
  then have "block_size j = block_size i * 2 ^ (j - i)"
    by (simp add: block_size_power flip: power_add)
  then show ?thesis
    by (simp add: align_down_div div_mult2_eq eq)
qed

lemma align_down_antimono: "j \<le> k \<Longrightarrow> align_down a (block_size k) \<le> align_down a (block_size j)"
proof -
  assume "j \<le> k"
  then have "block_size j dvd align_down a (block_size k)"
    using block_size_dvd by (simp add: align_down_div)
  then obtain q where q: "align_down a (block_size k) = block_size j * q" ..
  then have "block_size j * q \<le> a"
    using align_down_le [of a "block_size k"] by simp
  then have "q \<le> a div block_size j"
    using block_size_pos [of j] by (simp add: less_eq_div_iff_mult_less_eq mult.commute)
  then show ?thesis
    using q by (simp add: align_down_div)
qed

text \<open>The buddy of a block: the other half of the enclosing block.\<close>

lemma buddy_xor:
  assumes "block_size k dvd pa"
  shows "pa XOR block_size k = (if even (pa div block_size k) then pa + block_size k else pa - block_size k)"
proof -
  obtain q where q: "pa = push_bit (k + 12) q"
    using assms by (auto simp: block_size_power push_bit_eq_mult mult.commute elim: dvdE)
  have b: "block_size k = push_bit (k + 12) 1"
    by (simp add: block_size_power push_bit_of_1)
  have "pa XOR block_size k = push_bit (k + 12) (q XOR 1)"
    by (simp add: q b push_bit_xor)
  moreover have "pa div block_size k = q"
    by (simp add: q block_size_power push_bit_eq_mult)
  ultimately show ?thesis
    by (auto simp: xor_Suc_0_eq q b push_bit_eq_mult distrib_right diff_mult_distrib elim!: oddE)
qed

lemma buddy_props:
  assumes "block_size k dvd pa"
  shows "block_size k dvd pa XOR block_size k" "pa XOR block_size k \<noteq> pa"
    "(pa XOR block_size k) div block_size (Suc k) = pa div block_size (Suc k)"
    "block_size (Suc k) dvd min pa (pa XOR block_size k)"
    "max pa (pa XOR block_size k) = min pa (pa XOR block_size k) + block_size k"
    "(pa XOR block_size k) XOR block_size k = pa"
proof -
  obtain q where q: "pa = block_size k * q"
    using assms ..
  have pos: "0 < block_size k"
    by (rule block_size_pos)
  have d: "pa div block_size k = q"
    using pos q by simp
  have half: "a div block_size (Suc k) = a div block_size k div 2" for a
    by (simp add: block_size_Suc mult.commute [of 2] div_mult2_eq)
  have xor: "pa XOR block_size k = block_size k * (if even q then q + 1 else q - 1)"
    using buddy_xor [OF assms] d q by (auto simp: distrib_left diff_mult_distrib2)
  show "block_size k dvd pa XOR block_size k"
    by (simp add: xor)
  show "pa XOR block_size k \<noteq> pa"
    unfolding xor unfolding q using pos by (auto elim!: oddE)
  show "(pa XOR block_size k) div block_size (Suc k) = pa div block_size (Suc k)"
    unfolding half d unfolding xor using pos by (auto elim!: evenE oddE)
  show "block_size (Suc k) dvd min pa (pa XOR block_size k)"
    unfolding xor unfolding q using pos by (auto simp: block_size_Suc min_def elim!: evenE oddE)
  show "max pa (pa XOR block_size k) = min pa (pa XOR block_size k) + block_size k"
    unfolding xor unfolding q using pos by (auto simp: min_def max_def distrib_left elim!: evenE oddE)
  show "(pa XOR block_size k) XOR block_size k = pa"
    by (simp add: ac_simps)
qed

section \<open>Tags\<close>

lemma free_tag_pos: "free_tag x k \<noteq> 0"
  by (simp add: free_tag_def or_eq_0_iff)

lemma free_tag_inj:
  assumes "free_tag x j = free_tag x k" "j \<le> MAX_ORDER" "k \<le> MAX_ORDER"
  shows "j = k"
proof -
  define m :: "nat \<Rightarrow> nat" where "m i = (i * 0x9E3779B97F4A7C15) mod 2 ^ 64" for i
  have half: "((a XOR b) OR 1) div 2 = a div 2 XOR b div 2" for a b :: nat
    by (rule bit_eqI) (simp add: bit_or_iff bit_xor_iff bit_1_iff flip: bit_Suc)
  have tag: "free_tag x i = ((TAG_SEED XOR x) XOR m i) OR 1" for i
    by (simp only: free_tag_def m_def)
  have "(TAG_SEED XOR x) div 2 XOR m j div 2 = (TAG_SEED XOR x) div 2 XOR m k div 2"
    using assms(1) unfolding tag by (simp only: half [symmetric])
  then have eq: "m j div 2 = m k div 2"
    by (metis xor.left_neutral xor.assoc xor_self_eq)
  have "distinct (map (\<lambda>i. m i div 2) [0..<19])"
    by (simp add: upt_rec m_def)
  then have "inj_on (\<lambda>i. m i div 2) (set [0..<19])"
    by (simp add: distinct_map)
  then show ?thesis
    using eq assms(2,3) by (auto simp: MAX_ORDER_def dest!: inj_onD)
qed


section \<open>Partitions of the managed memory\<close>

definition brange :: "nat \<times> nat \<Rightarrow> nat set" where
  "brange B = {fst B ..< fst B + block_size (snd B)}"

definition managed :: "(nat \<times> nat) list \<Rightarrow> nat set" where
  "managed R = (\<Union>(s, e) \<in> set R. {s..<e})"

definition regions_ok :: "(nat \<times> nat) list \<Rightarrow> bool" where
  "regions_ok R \<longleftrightarrow> (\<forall>(s, e) \<in> set R. PAGE_SIZE dvd s \<and> PAGE_SIZE dvd e \<and> s < e \<and> e < 2 ^ 64) \<and>
     sorted_wrt (\<lambda>(s, e) (s', e'). e \<le> s' \<or> e' \<le> s) R"

definition block_in :: "(nat \<times> nat) list \<Rightarrow> nat \<times> nat \<Rightarrow> bool" where
  "block_in R B \<longleftrightarrow> snd B \<le> MAX_ORDER \<and> block_size (snd B) dvd fst B \<and>
     (\<exists>(s, e) \<in> set R. s \<le> fst B \<and> fst B + block_size (snd B) \<le> e)"

text \<open>The blocks \<open>X\<close> partition the managed memory but for the addresses \<open>W\<close>.\<close>

definition part :: "(nat \<times> nat) list \<Rightarrow> nat set \<Rightarrow> (nat \<times> nat) set \<Rightarrow> bool" where
  "part R W X \<longleftrightarrow> (\<forall>B \<in> X. block_in R B) \<and> (\<forall>B \<in> X. \<forall>B' \<in> X. B \<noteq> B' \<longrightarrow> brange B \<inter> brange B' = {}) \<and>
     (\<Union>B \<in> X. brange B) = managed R - W"

lemma partI:
  assumes "\<And>B. B \<in> X \<Longrightarrow> block_in R B" "\<And>B B' a. B \<in> X \<Longrightarrow> B' \<in> X \<Longrightarrow> a \<in> brange B \<Longrightarrow> a \<in> brange B' \<Longrightarrow> B = B'"
    "(\<Union>B \<in> X. brange B) = managed R - W"
  shows "part R W X"
  unfolding part_def using assms by blast

lemma partD:
  assumes "part R W X"
  shows "B \<in> X \<Longrightarrow> block_in R B" "B \<in> X \<Longrightarrow> B' \<in> X \<Longrightarrow> a \<in> brange B \<Longrightarrow> a \<in> brange B' \<Longrightarrow> B = B'"
    "a \<in> managed R \<Longrightarrow> a \<notin> W \<Longrightarrow> \<exists>B \<in> X. a \<in> brange B" "B \<in> X \<Longrightarrow> a \<in> brange B \<Longrightarrow> a \<in> managed R \<and> a \<notin> W"
    "(\<Union>B \<in> X. brange B) = managed R - W"
  using assms unfolding part_def by blast+

lemma managedI: "(s, e) \<in> set R \<Longrightarrow> s \<le> a \<Longrightarrow> a < e \<Longrightarrow> a \<in> managed R"
  by (auto simp: managed_def intro!: bexI [of _ "(s, e)"])

lemma brange_managed: "block_in R B \<Longrightarrow> brange B \<subseteq> managed R"
proof
  fix a assume "block_in R B" "a \<in> brange B"
  then obtain s e where "(s, e) \<in> set R" "s \<le> a" "a < e"
    by (auto simp: block_in_def brange_def)
  then show "a \<in> managed R"
    by (rule managedI)
qed

lemma base_in_brange: "x \<in> brange (x, k)"
  using block_size_pos by (simp add: brange_def)

lemma page_in_brange: "i < PAGE_SIZE \<Longrightarrow> x + i \<in> brange (x, k)"
  using page_le [of k] by (simp add: brange_def)

lemma in_brange: "block_size k dvd x \<Longrightarrow> a \<in> brange (x, k) \<longleftrightarrow> align_down a (block_size k) = x"
proof -
  assume "block_size k dvd x"
  then obtain q where q: "x = block_size k * q" ..
  have pos: "0 < block_size k" by (rule block_size_pos)
  have "a div block_size k = q \<longleftrightarrow> block_size k * q \<le> a \<and> a < block_size k * Suc q"
    using pos by (simp only: div_eq_dividend_iff [symmetric] mult.commute) (metis div_nat_eqI mult.commute div_times_less_eq_dividend dividend_less_div_times mult_Suc_right)
  then show ?thesis
    using pos by (auto simp: brange_def q align_down_div)
qed

lemma regions_disjoint:
  assumes "regions_ok R" "(s, e) \<in> set R" "(s', e') \<in> set R" "s \<le> a" "a < e" "s' \<le> a" "a < e'"
  shows "s = s' \<and> e = e'"
proof (rule ccontr)
  assume ne: "\<not> (s = s' \<and> e = e')"
  have sorted: "sorted_wrt (\<lambda>(s, e) (s', e'). e \<le> s' \<or> e' \<le> s) R"
    using assms(1) unfolding regions_ok_def by (rule conjunct2)
  obtain i j where ij: "i < length R" "R ! i = (s, e)" "j < length R" "R ! j = (s', e')"
    using assms(2,3) by (auto simp: in_set_conv_nth)
  then have "i \<noteq> j"
    using ne by auto
  then consider "i < j" | "j < i" by linarith
  then have "e \<le> s' \<or> e' \<le> s"
  proof cases
    case 1
    show ?thesis using sorted_wrt_nth_less [OF sorted 1 ij(3)] ij(2,4) by simp
  next
    case 2
    show ?thesis using sorted_wrt_nth_less [OF sorted 2 ij(1)] ij(2,4) by auto
  qed
  then show False using assms(4-7) by linarith
qed

text \<open>Two aligned blocks that meet are nested, so a block is found at the base of any aligned piece of a region
  that no larger block swallows.\<close>

lemma base_found:
  assumes "part R {} X" "(pa, j) \<in> X" "block_size k dvd c" "c \<in> managed R"
    and "\<And>i. k < i \<Longrightarrow> align_down c (block_size i) = align_down pa (block_size i)"
    and "c \<le> pa \<or> j = k"
  shows "\<exists>i. (c, i) \<in> X"
proof -
  obtain d i where di: "(d, i) \<in> X" "c \<in> brange (d, i)"
    using partD(3) [OF assms(1,4)] by auto
  have al: "block_size i dvd d" "block_size j dvd pa"
    using partD(1) [OF assms(1)] di(1) assms(2) by (auto simp: block_in_def)
  have d: "align_down c (block_size i) = d"
    using di(2) in_brange [OF al(1)] by simp
  show ?thesis
  proof (cases "k < i")
    case True
    then have "pa \<in> brange (d, i)"
      using d assms(5) in_brange [OF al(1)] by simp
    then have "(d, i) = (pa, j)"
      using partD(2) [OF assms(1) di(1) assms(2)] base_in_brange by blast
    then show ?thesis
      using assms(2,6) True d align_down_le [of c "block_size i"] by auto
  next
    case False
    then have "block_size i dvd c"
      using assms(3) block_size_dvd [of i k] dvd_trans by auto
    then have "d = c"
      using d by (simp add: align_down_def)
    then show ?thesis using di(1) by blast
  qed
qed

lemma containing_base:
  assumes "part R {} X" "(pa, j) \<in> X" "align_down pa (block_size k) \<in> managed R"
  shows "\<exists>i. (align_down pa (block_size k), i) \<in> X"
proof (rule base_found [OF assms(1,2) _ assms(3)])
  show "align_down (align_down pa (block_size k)) (block_size i) = align_down pa (block_size i)" if "k < i" for i
    using that block_size_pos [of k] by (intro align_down_cong [of _ k]) (auto simp: align_down_div)
qed (auto simp: align_down_div align_down_le)

lemma buddy_base:
  assumes "part R {} X" "(pa, k) \<in> X" "pa XOR block_size k \<in> managed R"
  shows "\<exists>i. (pa XOR block_size k, i) \<in> X"
proof -
  have al: "block_size k dvd pa"
    using partD(1) [OF assms(1,2)] by (simp add: block_in_def)
  show ?thesis
  proof (rule base_found [OF assms(1,2) buddy_props(1) [OF al] assms(3)])
    show "align_down (pa XOR block_size k) (block_size i) = align_down pa (block_size i)" if "k < i" for i
      using that buddy_props(3) [OF al] by (intro align_down_cong [of _ "Suc k"]) auto
  qed simp
qed

lemma brange_halves: "brange (x, Suc k) = brange (x, k) \<union> brange (x + block_size k, k)"
  by (auto simp: brange_def block_size_Suc)

lemma part_split:
  assumes one: "part R W (insert (x, Suc k) X)" and new: "(x, Suc k) \<notin> X"
  shows "part R W (insert (x, k) (insert (x + block_size k, k) X))"
proof (rule partI)
  show "(\<Union>B \<in> insert (x, k) (insert (x + block_size k, k) X). brange B) = managed R - W"
    using partD(5) [OF one] by (simp add: brange_halves Un_assoc)
next
  have "block_in R (x, Suc k)"
    using partD(1) [OF one] by simp
  then obtain s e where se: "(s, e) \<in> set R" "s \<le> x" "x + 2 * block_size k \<le> e" "Suc k \<le> MAX_ORDER" "2 * block_size k dvd x"
    by (auto simp: block_in_def block_size_Suc)
  have "block_size k dvd x"
    using se(5) by (rule dvd_mult_right)
  then have "block_in R (x, k)" "block_in R (x + block_size k, k)"
    using se by (auto simp: block_in_def intro!: bexI [of _ "(s, e)"])
  then show "block_in R B" if "B \<in> insert (x, k) (insert (x + block_size k, k) X)" for B
    using that partD(1) [OF one] by blast
next
  fix B B' a
  assume B: "B \<in> insert (x, k) (insert (x + block_size k, k) X)" "B' \<in> insert (x, k) (insert (x + block_size k, k) X)"
    and a: "a \<in> brange B" "a \<in> brange B'"
  have out: "a \<notin> brange (x, k)" "a \<notin> brange (x + block_size k, k)" if "C \<in> X" "a \<in> brange C" for C
    using partD(2) [OF one, of C "(x, Suc k)" a] that new by (auto simp: brange_halves)
  have "a \<notin> brange (x + block_size k, k)" if "a \<in> brange (x, k)"
    using that by (simp add: brange_def)
  then show "B = B'"
    using B a out partD(2) [OF one, of B B' a] by blast
qed

lemma part_merge:
  assumes two: "part R W (insert (x, k) (insert (x + block_size k, k) X))" and new: "(x, k) \<notin> X" "(x + block_size k, k) \<notin> X"
    and inR: "block_in R (x, Suc k)"
  shows "part R W (insert (x, Suc k) X)"
proof (rule partI)
  show "(\<Union>B \<in> insert (x, Suc k) X. brange B) = managed R - W"
    using partD(5) [OF two] by (simp add: brange_halves Un_assoc)
next
  show "block_in R B" if "B \<in> insert (x, Suc k) X" for B
    using that partD(1) [OF two] inR by blast
next
  fix B B' a
  assume B: "B \<in> insert (x, Suc k) X" "B' \<in> insert (x, Suc k) X" and a: "a \<in> brange B" "a \<in> brange B'"
  have no: False if "C \<in> X" "a \<in> brange C" "a \<in> brange (x, Suc k)" for C
    using that partD(2) [OF two, of C "(x, k)" a] partD(2) [OF two, of C "(x + block_size k, k)" a] new
    by (auto simp: brange_halves)
  then show "B = B'"
    using B a partD(2) [OF two, of B B' a] by blast
qed

text \<open>Carving the first block out of the addresses not yet partitioned.\<close>

lemma part_carve:
  assumes part: "part R {x..<e} X" and inR: "block_in R (x, k)" "x + block_size k \<le> e"
  shows "part R {x + block_size k..<e} (insert (x, k) X)"
proof (rule partI)
  have "brange (x, k) \<subseteq> managed R"
    by (rule brange_managed [OF inR(1)])
  moreover have "brange (x, k) \<inter> {x + block_size k..<e} = {}" "{x..<e} = brange (x, k) \<union> {x + block_size k..<e}"
    using inR(2) by (auto simp: brange_def)
  ultimately show "(\<Union>B \<in> insert (x, k) X. brange B) = managed R - {x + block_size k..<e}"
    using partD(5) [OF part] by auto
next
  show "block_in R B" if "B \<in> insert (x, k) X" for B
    using that partD(1) [OF part] inR by blast
next
  fix B B' a
  assume B: "B \<in> insert (x, k) X" "B' \<in> insert (x, k) X" and a: "a \<in> brange B" "a \<in> brange B'"
  have no: False if "C \<in> X" "a \<in> brange C" "a \<in> brange (x, k)" for C
    using that partD(4) [OF part, of C a] inR(2) by (auto simp: brange_def)
  then show "B = B'"
    using B a partD(2) [OF part, of B B' a] by blast
qed


section \<open>Words of a block\<close>

lemma off_simps [simp]:
  "OFF_NEXT < PAGE_SIZE" "OFF_PREV < PAGE_SIZE" "OFF_TAG < PAGE_SIZE"
  "OFF_NEXT \<noteq> OFF_PREV" "OFF_PREV \<noteq> OFF_NEXT" "OFF_NEXT \<noteq> OFF_TAG" "OFF_TAG \<noteq> OFF_NEXT" "OFF_PREV \<noteq> OFF_TAG" "OFF_TAG \<noteq> OFF_PREV"
  by (simp_all add: OFF_NEXT_def OFF_PREV_def OFF_TAG_def PAGE_SIZE_def)

lemma page_offset_eq:
  assumes "PAGE_SIZE dvd x" "PAGE_SIZE dvd y" "i < PAGE_SIZE" "j < PAGE_SIZE"
  shows "x + i = y + j \<longleftrightarrow> x = y \<and> i = j"
proof
  assume eq: "x + i = y + j"
  have "(x + i) div PAGE_SIZE = x div PAGE_SIZE" "(y + j) div PAGE_SIZE = y div PAGE_SIZE"
    using assms by (auto simp: div_add)
  then have "x div PAGE_SIZE = y div PAGE_SIZE"
    using eq by simp
  then have "x = y"
    using assms(1,2) by (metis dvd_div_mult_self)
  then show "x = y \<and> i = j" using eq by simp
qed simp

lemma word_set_word [simp]:
  "PAGE_SIZE dvd x \<Longrightarrow> PAGE_SIZE dvd y \<Longrightarrow> i < PAGE_SIZE \<Longrightarrow> j < PAGE_SIZE \<Longrightarrow>
   word (set_word b x i v) y j = (if x = y \<and> i = j then v else word b y j)"
  using page_offset_eq [of y x j i] by (auto simp: word_def set_word_def)

lemma set_word_fields [simp]:
  "free_lists (set_word b x i v) = free_lists b" "nonempty (set_word b x i v) = nonempty b"
  "free_bytes (set_word b x i v) = free_bytes b" "foreign_frees (set_word b x i v) = foreign_frees b"
  "rejected_unlinks (set_word b x i v) = rejected_unlinks b" "truncated_lists (set_word b x i v) = truncated_lists b"
  "regions (set_word b x i v) = regions b" "region_count (set_word b x i v) = region_count b"
  "edge_dropped_bytes (set_word b x i v) = edge_dropped_bytes b"
  by (simp_all add: set_word_def)

lemma word_fields [simp]:
  "word (b\<lparr>free_lists := l\<rparr>) x i = word b x i" "word (b\<lparr>nonempty := n\<rparr>) x i = word b x i" "word (b\<lparr>free_bytes := f\<rparr>) x i = word b x i"
  "word (b\<lparr>regions := r\<rparr>) x i = word b x i" "word (b\<lparr>region_count := c\<rparr>) x i = word b x i"
  "word (b\<lparr>edge_dropped_bytes := f\<rparr>) x i = word b x i"
  by (simp_all add: word_def)

lemma NIL_not_page: "\<not> PAGE_SIZE dvd buddy_NIL"
  by (simp add: PAGE_SIZE_def buddy_NIL_def)

text \<open>The addresses an operation may have written: those in the pages at \<open>ps\<close>.\<close>

definition writes_only :: "nat set \<Rightarrow> buddy \<Rightarrow> buddy \<Rightarrow> bool" where
  "writes_only ps b b' \<longleftrightarrow> (\<forall>a. (\<forall>p \<in> ps. a \<notin> {p..<p + PAGE_SIZE}) \<longrightarrow> backing b' a = backing b a)"

lemma writes_only_set_word: "i < PAGE_SIZE \<Longrightarrow> x \<in> ps \<Longrightarrow> writes_only ps b b' \<Longrightarrow> writes_only ps b (set_word b' x i v)"
  by (auto simp: writes_only_def set_word_def)

lemma writes_only_refl [simp]: "writes_only ps b b"
  by (simp add: writes_only_def)

lemma writes_only_fields [simp]:
  "writes_only ps b (b'\<lparr>free_lists := l\<rparr>) = writes_only ps b b'" "writes_only ps b (b'\<lparr>nonempty := n\<rparr>) = writes_only ps b b'"
  by (simp_all add: writes_only_def)

definition same_rest :: "buddy \<Rightarrow> buddy \<Rightarrow> bool" where
  "same_rest b b' \<longleftrightarrow> regions b' = regions b \<and> region_count b' = region_count b \<and>
     rejected_unlinks b' = rejected_unlinks b \<and> truncated_lists b' = truncated_lists b \<and>
     free_bytes b' = free_bytes b \<and> foreign_frees b' = foreign_frees b \<and>
     edge_dropped_bytes b' = edge_dropped_bytes b"

section \<open>Lists in memory\<close>

fun first :: "nat list \<Rightarrow> nat" where
  "first [] = buddy_NIL"
| "first (x # xs) = x"

fun nexts :: "(nat \<Rightarrow> nat) \<Rightarrow> nat list \<Rightarrow> nat \<Rightarrow> bool" where
  "nexts f [] q \<longleftrightarrow> True"
| "nexts f (x # xs) q \<longleftrightarrow> f x = (if xs = [] then q else hd xs) \<and> nexts f xs q"

fun prevs :: "(nat \<Rightarrow> nat) \<Rightarrow> nat \<Rightarrow> nat list \<Rightarrow> bool" where
  "prevs f p [] \<longleftrightarrow> True"
| "prevs f p (x # xs) \<longleftrightarrow> f x = p \<and> prevs f x xs"

lemma first_hd: "first xs = (if xs = [] then buddy_NIL else hd xs)"
  by (cases xs) auto

lemma nexts_cong: "(\<And>x. x \<in> set xs \<Longrightarrow> f x = g x) \<Longrightarrow> nexts f xs q = nexts g xs q"
  by (induction xs) auto

lemma prevs_cong: "(\<And>x. x \<in> set xs \<Longrightarrow> f x = g x) \<Longrightarrow> prevs f p xs = prevs g p xs"
  by (induction xs arbitrary: p) auto

lemma nexts_append: "nexts f (us @ vs) q \<longleftrightarrow> nexts f us (if vs = [] then q else hd vs) \<and> nexts f vs q"
  by (induction us) (auto simp: hd_append)

lemma prevs_append: "prevs f p (us @ vs) \<longleftrightarrow> prevs f p us \<and> prevs f (if us = [] then p else last us) vs"
  by (induction us arbitrary: p) auto

definition list_at :: "buddy \<Rightarrow> nat \<Rightarrow> nat list \<Rightarrow> bool" where
  "list_at b k xs \<longleftrightarrow> distinct xs \<and> nexts (\<lambda>x. word b x OFF_NEXT) xs buddy_NIL \<and> prevs (\<lambda>x. word b x OFF_PREV) buddy_NIL xs \<and>
     free_lists b ! k = first xs \<and> (bit (nonempty b) k \<longleftrightarrow> xs \<noteq> []) \<and>
     (\<forall>x \<in> set xs. word b x OFF_TAG = free_tag x k \<and> PAGE_SIZE dvd x)"

lemma list_at_frame:
  assumes "list_at b k xs" "free_lists b' ! k = free_lists b ! k" "bit (nonempty b') k = bit (nonempty b) k"
    "\<And>x. x \<in> set xs \<Longrightarrow> word b' x OFF_NEXT = word b x OFF_NEXT \<and> word b' x OFF_PREV = word b x OFF_PREV \<and> word b' x OFF_TAG = word b x OFF_TAG"
  shows "list_at b' k xs"
  using assms nexts_cong [of xs "\<lambda>x. word b' x OFF_NEXT" "\<lambda>x. word b x OFF_NEXT"]
    prevs_cong [of xs "\<lambda>x. word b' x OFF_PREV" "\<lambda>x. word b x OFF_PREV"]
  by (simp add: list_at_def)

section \<open>The invariant\<close>

abbreviation Rg :: "buddy \<Rightarrow> (nat \<times> nat) list" where
  "Rg b \<equiv> take (region_count b) (regions b)"

definition fblocks :: "(nat \<Rightarrow> nat list) \<Rightarrow> (nat \<times> nat) set" where
  "fblocks L = {(x, k). k \<le> MAX_ORDER \<and> x \<in> set (L k)}"

text \<open>No two buddies of one region are both free: coalescing is complete.\<close>

definition coalesced :: "(nat \<times> nat) list \<Rightarrow> (nat \<Rightarrow> nat list) \<Rightarrow> bool" where
  "coalesced R L \<longleftrightarrow> (\<forall>k < MAX_ORDER. \<forall>x \<in> set (L k). \<forall>(s, e) \<in> set R.
     s \<le> x \<and> x + block_size k \<le> e \<and> s \<le> x XOR block_size k \<and> (x XOR block_size k) + block_size k \<le> e \<longrightarrow> x XOR block_size k \<notin> set (L k))"

definition core :: "buddy \<Rightarrow> (nat \<Rightarrow> nat list) \<Rightarrow> (nat \<times> nat) set \<Rightarrow> (nat \<times> nat) set \<Rightarrow> nat set \<Rightarrow> bool" where
  "core b L A H W \<longleftrightarrow>
     length (free_lists b) = Suc MAX_ORDER \<and> length (regions b) = MAX_REGIONS \<and> region_count b \<le> MAX_REGIONS \<and>
     regions_ok (Rg b) \<and> part (Rg b) W (fblocks L \<union> A \<union> H) \<and>
     fblocks L \<inter> A = {} \<and> fblocks L \<inter> H = {} \<and> A \<inter> H = {} \<and>
     (\<forall>k \<le> MAX_ORDER. list_at b k (L k)) \<and> (\<forall>k > MAX_ORDER. \<not> bit (nonempty b) k) \<and>
     (\<forall>(x, k) \<in> A. \<forall>j \<le> MAX_ORDER. word b x OFF_TAG \<noteq> free_tag x j) \<and>
     truncated_lists b = 0 \<and> rejected_unlinks b = 0 \<and> coalesced (Rg b) L"

lemma coreD:
  assumes "core b L A H W"
  shows "length (free_lists b) = Suc MAX_ORDER" "length (regions b) = MAX_REGIONS" "region_count b \<le> MAX_REGIONS"
    "regions_ok (Rg b)" "part (Rg b) W (fblocks L \<union> A \<union> H)"
    "fblocks L \<inter> A = {}" "fblocks L \<inter> H = {}" "A \<inter> H = {}"
    "k \<le> MAX_ORDER \<Longrightarrow> list_at b k (L k)" "bit (nonempty b) k \<Longrightarrow> k \<le> MAX_ORDER"
    "(x, i) \<in> A \<Longrightarrow> j \<le> MAX_ORDER \<Longrightarrow> word b x OFF_TAG \<noteq> free_tag x j"
    "truncated_lists b = 0" "rejected_unlinks b = 0" "coalesced (Rg b) L"
  using assms unfolding core_def by (auto simp: not_less [symmetric] simp del: not_less)

lemma same_base:
  assumes "part R W X" "(x, j) \<in> X" "(x, k) \<in> X"
  shows "j = k"
  using partD(2) [OF assms base_in_brange base_in_brange] by simp

lemma core_page:
  assumes "core b L A H W" "(x, k) \<in> fblocks L \<union> A \<union> H"
  shows "k \<le> MAX_ORDER \<and> block_size k dvd x \<and> PAGE_SIZE dvd x"
proof -
  have "block_in (Rg b) (x, k)"
    by (rule partD(1) [OF coreD(5) [OF assms(1)] assms(2)])
  then show ?thesis
    using page_dvd [of k x] by (auto simp: block_in_def)
qed

text \<open>What \<open>push\<close> writes, word by word.\<close>

lemma push_run:
  assumes "length (free_lists b) = Suc MAX_ORDER" "k \<le> MAX_ORDER" "PAGE_SIZE dvd x" "free_lists b ! k = h"
    "h = buddy_NIL \<or> PAGE_SIZE dvd h \<and> h \<noteq> x"
  shows "\<exists>b'. push b x k = Some b' \<and>
    (\<forall>y. PAGE_SIZE dvd y \<longrightarrow> word b' y OFF_NEXT = (if y = x then h else word b y OFF_NEXT) \<and>
       word b' y OFF_PREV = (if y = x then buddy_NIL else if y = h then x else word b y OFF_PREV) \<and>
       word b' y OFF_TAG = (if y = x then free_tag x k else word b y OFF_TAG)) \<and>
    free_lists b' = (free_lists b)[k := x] \<and> nonempty b' = nonempty b OR push_bit k 1 \<and> same_rest b b' \<and>
    writes_only (insert x (if h = buddy_NIL then {} else {h})) b b'"
proof -
  define b1 where "b1 = set_word (set_word (set_word b x OFF_NEXT h) x OFF_PREV buddy_NIL) x OFF_TAG (free_tag x k)"
  define b2 where "b2 = (if h \<noteq> buddy_NIL then set_word b1 h OFF_PREV x else b1)"
  let ?b = "b2\<lparr>free_lists := (free_lists b2)[k := x], nonempty := nonempty b2 OR push_bit k 1\<rparr>"
  have run: "push b x k = Some ?b"
    using assms by (simp add: push_def index_def b2_def b1_def Let_def)
  have w: "word ?b y OFF_NEXT = (if y = x then h else word b y OFF_NEXT) \<and>
       word ?b y OFF_PREV = (if y = x then buddy_NIL else if y = h then x else word b y OFF_PREV) \<and>
       word ?b y OFF_TAG = (if y = x then free_tag x k else word b y OFF_TAG)" if "PAGE_SIZE dvd y" for y
    using that assms(3,5) NIL_not_page by (auto simp: b2_def b1_def)
  have wr: "writes_only (insert x (if h = buddy_NIL then {} else {h})) b b2"
    unfolding b2_def b1_def by (auto intro!: writes_only_set_word)
  then have wr': "writes_only (insert x (if h = buddy_NIL then {} else {h})) b ?b"
    by (simp add: writes_only_def)
  show ?thesis
    using run w wr' by (intro exI [of _ ?b]) (simp add: b2_def b1_def same_rest_def)
qed

lemma fblocks_push: "k \<le> MAX_ORDER \<Longrightarrow> fblocks (L(k := x # L k)) = insert (x, k) (fblocks L)"
  by (auto simp: fblocks_def)

lemma frame_blocks:
  assumes "writes_only ps b b'" "part R W X" "B \<in> X" "a \<in> brange B"
    and "\<And>p. p \<in> ps \<Longrightarrow> \<exists>k. (p, k) \<in> X \<and> (p, k) \<noteq> B"
  shows "backing b' a = backing b a"
proof -
  have "a \<notin> {p..<p + PAGE_SIZE}" if p: "p \<in> ps" for p
  proof
    assume "a \<in> {p..<p + PAGE_SIZE}"
    obtain k where k: "(p, k) \<in> X" "(p, k) \<noteq> B"
      using assms(5) [OF p] by blast
    have "a \<in> brange (p, k)"
      using \<open>a \<in> {p..<p + PAGE_SIZE}\<close> page_le [of k] by (auto simp: brange_def)
    then show False
      using partD(2) [OF assms(2) k(1) assms(3) _ assms(4)] k(2) by blast
  qed
  then show ?thesis
    using assms(1) by (simp add: writes_only_def)
qed

text \<open>The hypothesis under which a block may be put on a list: its buddy is not free.\<close>

definition lone :: "(nat \<times> nat) list \<Rightarrow> (nat \<Rightarrow> nat list) \<Rightarrow> nat \<Rightarrow> nat \<Rightarrow> bool" where
  "lone R L x k \<longleftrightarrow> (k < MAX_ORDER \<longrightarrow> (\<forall>(s, e) \<in> set R. s \<le> x \<and> x + block_size k \<le> e \<and> s \<le> x XOR block_size k \<and>
     (x XOR block_size k) + block_size k \<le> e \<longrightarrow> x XOR block_size k \<notin> set (L k)))"

lemma coalesced_lone: "coalesced R L \<longleftrightarrow> (\<forall>k < MAX_ORDER. \<forall>x \<in> set (L k). lone R L x k)"
  by (simp add: coalesced_def lone_def)

lemma coalesced_push:
  assumes "coalesced R L" "lone R L x k" "block_size k dvd x" "\<forall>y \<in> set (L k). block_size k dvd y"
  shows "coalesced R (L(k := x # L k))"
  unfolding coalesced_def
proof (intro allI impI ballI, clarify)
  fix j y s e
  assume y: "j < MAX_ORDER" "y \<in> set ((L(k := x # L k)) j)" "(s, e) \<in> set R" "s \<le> y" "y + block_size j \<le> e"
      "s \<le> y XOR block_size j" "(y XOR block_size j) + block_size j \<le> e" "y XOR block_size j \<in> set ((L(k := x # L k)) j)"
  show False
  proof (cases "j = k \<and> (y = x \<or> y XOR block_size j = x)")
    case True
    have "block_size k dvd y" "y XOR block_size k \<noteq> y" "(y XOR block_size k) XOR block_size k = y"
      using True y(2) assms(3,4) buddy_props(2,6) by auto
    then have "x XOR block_size k \<in> set (L k)"
      using True y(2,8) buddy_props(2) [OF assms(3)] by auto
    moreover have "s \<le> x \<and> x + block_size k \<le> e \<and> s \<le> x XOR block_size k \<and> (x XOR block_size k) + block_size k \<le> e"
      using True y \<open>(y XOR block_size k) XOR block_size k = y\<close> by auto
    ultimately show False
      using assms(2) y(1,3) True unfolding lone_def by blast
  next
    case False
    then have "y \<in> set (L j)" "y XOR block_size j \<in> set (L j)"
      using y(2,8) by (auto split: if_splits)
    then show False
      using assms(1) y(1,3-7) unfolding coalesced_def by blast
  qed
qed

lemma push_lists:
  assumes core: "core b L A H W" and x: "(x, k) \<in> H" and j: "j \<le> MAX_ORDER"
    and w: "\<And>y. PAGE_SIZE dvd y \<Longrightarrow> word b' y OFF_NEXT = (if y = x then first (L k) else word b y OFF_NEXT)"
      "\<And>y. PAGE_SIZE dvd y \<Longrightarrow> word b' y OFF_PREV = (if y = x then buddy_NIL else if y = first (L k) then x else word b y OFF_PREV)"
      "\<And>y. PAGE_SIZE dvd y \<Longrightarrow> word b' y OFF_TAG = (if y = x then free_tag x k else word b y OFF_TAG)"
    and b': "free_lists b' = (free_lists b)[k := x]" "nonempty b' = nonempty b OR push_bit k 1"
  shows "list_at b' j ((L(k := x # L k)) j)"
proof -
  note part = coreD(5) [OF core]
  have k: "k \<le> MAX_ORDER" "PAGE_SIZE dvd x"
    using core_page [OF core, of x k] x by auto
  have lk: "list_at b k (L k)"
    by (rule coreD(9) [OF core k(1)])
  have out: "x \<notin> set (L j)" if "j \<le> MAX_ORDER" for j
    using same_base [OF part, of x j k] coreD(7) [OF core] x that by (auto simp: fblocks_def)
  have page: "PAGE_SIZE dvd y" if "y \<in> set (L j)" "j \<le> MAX_ORDER" for y j
    using core_page [OF core, of y j] that by (auto simp: fblocks_def)
  have bits: "bit (nonempty b') j \<longleftrightarrow> bit (nonempty b) j \<or> j = k" for j
    using b'(2) k(1) by (auto simp: bit_simps MAX_ORDER_def)
  show ?thesis
  proof (cases "j = k")
    case False
    have "list_at b' j (L j)"
    proof (rule list_at_frame [OF coreD(9) [OF core j]])
      fix y assume y: "y \<in> set (L j)"
      have "y \<noteq> first (L k)"
        using same_base [OF part, of y j k] y j k(1) False NIL_not_page page [OF y j]
        by (cases "L k") (auto simp: fblocks_def)
      then show "word b' y OFF_NEXT = word b y OFF_NEXT \<and> word b' y OFF_PREV = word b y OFF_PREV \<and> word b' y OFF_TAG = word b y OFF_TAG"
        using w [OF page [OF y j]] out [OF j] y by auto
    qed (use False b' bits in auto)
    then show ?thesis using False by simp
  next
    case True
    have nx: "nexts (\<lambda>y. word b' y OFF_NEXT) (L k) buddy_NIL"
      using lk out [OF k(1)] page [OF _ k(1)] w(1) by (subst nexts_cong [of _ _ "\<lambda>y. word b y OFF_NEXT"]) (auto simp: list_at_def)
    have pv: "prevs (\<lambda>y. word b' y OFF_PREV) x (L k)"
    proof (cases "L k")
      case (Cons y ys)
      have d: "distinct (y # ys)" "prevs (\<lambda>y. word b y OFF_PREV) y ys"
        using lk Cons by (auto simp: list_at_def)
      have "prevs (\<lambda>y. word b' y OFF_PREV) y ys"
        using d out [OF k(1)] page [OF _ k(1)] w(2) Cons by (subst prevs_cong [of _ _ "\<lambda>y. word b y OFF_PREV"]) auto
      moreover have "word b' y OFF_PREV = x"
        using w(2) [of y] page [OF _ k(1), of y] out [OF k(1)] Cons by auto
      ultimately show ?thesis using Cons by simp
    qed simp
    have "list_at b' k (x # L k)"
      using lk nx pv out [OF k(1)] w k bits b'(1) coreD(1) [OF core]
      by (auto simp: list_at_def first_hd)
    then show ?thesis using True by simp
  qed
qed

lemma push_core:
  assumes core: "core b L A H W" and x: "(x, k) \<in> H" and lone: "lone (Rg b) L x k"
  shows "\<exists>b'. push b x k = Some b' \<and> core b' (L(k := x # L k)) A (H - {(x, k)}) W \<and> same_rest b b' \<and>
    (\<forall>B \<in> A \<union> (H - {(x, k)}). \<forall>a \<in> brange B. backing b' a = backing b a) \<and>
    (\<forall>y. PAGE_SIZE dvd y \<longrightarrow> y \<noteq> x \<longrightarrow> word b' y OFF_TAG = word b y OFF_TAG)"
proof -
  note part = coreD(5) [OF core]
  have k: "k \<le> MAX_ORDER" "block_size k dvd x" "PAGE_SIZE dvd x"
    using core_page [OF core, of x k] x by auto
  have lk: "list_at b k (L k)"
    by (rule coreD(9) [OF core k(1)])
  have "x \<notin> set (L k)"
    using coreD(7) [OF core] x k(1) by (auto simp: fblocks_def)
  then have h: "first (L k) = buddy_NIL \<or> PAGE_SIZE dvd first (L k) \<and> first (L k) \<noteq> x"
    using lk by (cases "L k") (auto simp: list_at_def)
  obtain b' where b': "push b x k = Some b'"
    "\<And>y. PAGE_SIZE dvd y \<Longrightarrow> word b' y OFF_NEXT = (if y = x then first (L k) else word b y OFF_NEXT)"
    "\<And>y. PAGE_SIZE dvd y \<Longrightarrow> word b' y OFF_PREV = (if y = x then buddy_NIL else if y = first (L k) then x else word b y OFF_PREV)"
    "\<And>y. PAGE_SIZE dvd y \<Longrightarrow> word b' y OFF_TAG = (if y = x then free_tag x k else word b y OFF_TAG)"
    "free_lists b' = (free_lists b)[k := x]" "nonempty b' = nonempty b OR push_bit k 1" "same_rest b b'"
    "writes_only (insert x (if first (L k) = buddy_NIL then {} else {first (L k)})) b b'"
    using push_run [OF coreD(1) [OF core] k(1,3) _ h] lk unfolding list_at_def by blast
  have tags: "word b' y OFF_TAG \<noteq> free_tag y j" if y: "(y, i) \<in> A" "j \<le> MAX_ORDER" for y i j
  proof -
    have "y \<noteq> x"
      using same_base [OF part, of y i k] coreD(8) [OF core] x y(1) by auto
    then show ?thesis
      using b'(4) [of y] coreD(11) [OF core y] core_page [OF core, of y i] y(1) by auto
  qed
  have blocks: "fblocks (L(k := x # L k)) \<union> A \<union> (H - {(x, k)}) = fblocks L \<union> A \<union> H"
    using x k(1) by (auto simp: fblocks_push)
  have rest: "regions b' = regions b" "region_count b' = region_count b" "truncated_lists b' = truncated_lists b"
    "rejected_unlinks b' = rejected_unlinks b"
    using b'(7) by (auto simp: same_rest_def)
  have "\<forall>y \<in> set (L k). block_size k dvd y"
    using core_page [OF core, of _ k] k(1) by (auto simp: fblocks_def)
  then have coal: "coalesced (Rg b) (L(k := x # L k))"
    by (rule coalesced_push [OF coreD(14) [OF core] lone k(2)])
  have lists: "list_at b' j ((L(k := x # L k)) j)" if "j \<le> MAX_ORDER" for j
    by (rule push_lists [OF core x that b'(2-6)])
  have high: "\<not> bit (nonempty b') j" if "MAX_ORDER < j" for j
    using that coreD(10) [OF core, of j] b'(6) k(1) by (auto simp: bit_simps)
  have frame: "backing b' a = backing b a" if B: "B \<in> A \<union> (H - {(x, k)})" "a \<in> brange B" for B a
  proof (rule frame_blocks [OF b'(8) part _ B(2)])
    show "B \<in> fblocks L \<union> A \<union> H" using B(1) by blast
    fix p assume "p \<in> insert x (if first (L k) = buddy_NIL then {} else {first (L k)})"
    then have "p = x \<or> p \<in> set (L k)"
      by (cases "L k") (auto split: if_splits)
    then show "\<exists>j. (p, j) \<in> fblocks L \<union> A \<union> H \<and> (p, j) \<noteq> B"
      using x B(1) k(1) coreD(6-8) [OF core] by (intro exI [of _ k]) (auto simp: fblocks_def)
  qed
  have "core b' (L(k := x # L k)) A (H - {(x, k)}) W"
    unfolding core_def blocks rest
    using coreD(1-4,6-8,12,13) [OF core] b'(5) part lists tags coal high x k(1)
    by (auto simp: fblocks_push)
  then show ?thesis
    using b'(1,4,7) frame by auto
qed


text \<open>Taking a block off its list, from the head (\<open>pop\<close>) or from anywhere (\<open>unlink\<close>).\<close>

lemma removed_lists:
  assumes core: "core b L A H W" and Lk: "L k = us @ x # vs" and k: "k \<le> MAX_ORDER" and j: "j \<le> MAX_ORDER"
    and w: "\<And>y. PAGE_SIZE dvd y \<Longrightarrow> word b' y OFF_NEXT = (if us \<noteq> [] \<and> y = last us then first vs else word b y OFF_NEXT)"
      "\<And>y. PAGE_SIZE dvd y \<Longrightarrow> word b' y OFF_PREV = (if vs \<noteq> [] \<and> y = hd vs then (if us = [] then buddy_NIL else last us) else word b y OFF_PREV)"
      "\<And>y. PAGE_SIZE dvd y \<Longrightarrow> word b' y OFF_TAG = (if y = x then 0 else word b y OFF_TAG)"
    and b': "free_lists b' = (if us = [] then (free_lists b)[k := first vs] else free_lists b)"
      "nonempty b' = (if us = [] \<and> vs = [] then nonempty b AND NOT (push_bit k 1) else nonempty b)"
  shows "list_at b' j ((L(k := us @ vs)) j)"
proof -
  note part = coreD(5) [OF core]
  have lk: "list_at b k (us @ x # vs)"
    using coreD(9) [OF core k] Lk by simp
  have page: "PAGE_SIZE dvd y" if "y \<in> set (L j)" "j \<le> MAX_ORDER" for y j
    using core_page [OF core, of y j] that by (auto simp: fblocks_def)
  have bits: "bit (nonempty b') j \<longleftrightarrow> (if us = [] \<and> vs = [] then bit (nonempty b) j \<and> j \<noteq> k else bit (nonempty b) j)" for j
    using b'(2) k coreD(10) [OF core, of j] by (auto simp: bit_simps MAX_ORDER_def)
  show ?thesis
  proof (cases "j = k")
    case False
    have "list_at b' j (L j)"
    proof (rule list_at_frame [OF coreD(9) [OF core j]])
      fix y assume y: "y \<in> set (L j)"
      have "y \<notin> set (L k)"
        using same_base [OF part, of y j k] y j k False by (auto simp: fblocks_def)
      then have "y \<noteq> x" "us \<noteq> [] \<longrightarrow> y \<noteq> last us" "vs \<noteq> [] \<longrightarrow> y \<noteq> hd vs"
        using Lk last_in_set [of us] hd_in_set [of vs] by auto
      then show "word b' y OFF_NEXT = word b y OFF_NEXT \<and> word b' y OFF_PREV = word b y OFF_PREV \<and> word b' y OFF_TAG = word b y OFF_TAG"
        using w [OF page [OF y j]] by auto
    qed (use False b' bits in auto)
    then show ?thesis using False by simp
  next
    case True
    have pg: "PAGE_SIZE dvd y" if "y \<in> set (us @ x # vs)" for y
      using page [of y k] that Lk k by simp
    have d: "distinct (us @ x # vs)"
      using lk by (simp add: list_at_def)
    have nx: "nexts (\<lambda>y. word b y OFF_NEXT) us x" "nexts (\<lambda>y. word b y OFF_NEXT) vs buddy_NIL"
      and pv: "prevs (\<lambda>y. word b y OFF_PREV) buddy_NIL us" "prevs (\<lambda>y. word b y OFF_PREV) x vs"
      using lk by (auto simp: list_at_def nexts_append prevs_append)
    have "nexts (\<lambda>y. word b' y OFF_NEXT) us (first vs)"
    proof (cases us rule: rev_cases)
      case (snoc ys z)
      have "nexts (\<lambda>y. word b' y OFF_NEXT) ys z = nexts (\<lambda>y. word b y OFF_NEXT) ys z"
        using d pg w(1) snoc by (intro nexts_cong) auto
      then show ?thesis
        using nx(1) snoc w(1) [of z] pg by (simp add: nexts_append)
    qed simp
    moreover have "nexts (\<lambda>y. word b' y OFF_NEXT) vs buddy_NIL"
    proof -
      have "us \<noteq> [] \<Longrightarrow> last us \<notin> set vs"
        using d last_in_set [of us] by (auto simp: disjoint_iff)
      then have "nexts (\<lambda>y. word b' y OFF_NEXT) vs buddy_NIL = nexts (\<lambda>y. word b y OFF_NEXT) vs buddy_NIL"
        using pg w(1) by (intro nexts_cong) auto
      then show ?thesis using nx(2) by simp
    qed
    moreover have "prevs (\<lambda>y. word b' y OFF_PREV) buddy_NIL us"
    proof -
      have "vs \<noteq> [] \<Longrightarrow> hd vs \<notin> set us"
        using d hd_in_set [of vs] by (auto simp: disjoint_iff)
      then have "prevs (\<lambda>y. word b' y OFF_PREV) buddy_NIL us = prevs (\<lambda>y. word b y OFF_PREV) buddy_NIL us"
        using pg w(2) by (intro prevs_cong) auto
      then show ?thesis using pv(1) by simp
    qed
    moreover have "prevs (\<lambda>y. word b' y OFF_PREV) (if us = [] then buddy_NIL else last us) vs"
    proof (cases vs)
      case (Cons z zs)
      have "prevs (\<lambda>y. word b' y OFF_PREV) z zs = prevs (\<lambda>y. word b y OFF_PREV) z zs"
        using d pg w(2) Cons by (intro prevs_cong) auto
      then show ?thesis using pv(2) Cons w(2) [of z] pg by simp
    qed simp
    ultimately have "list_at b' k (us @ vs)"
      using lk d w(3) b' bits coreD(1) [OF core] k
      by (auto simp: list_at_def nexts_append prevs_append first_hd)
    then show ?thesis using True by simp
  qed
qed


lemma coalesced_mono: "coalesced R L \<Longrightarrow> (\<And>j. set (L' j) \<subseteq> set (L j)) \<Longrightarrow> coalesced R L'"
  unfolding coalesced_def by blast

text \<open>What an operation that takes \<open>x\<close> off the list of order \<open>k\<close> establishes.\<close>

definition taken :: "buddy \<Rightarrow> buddy \<Rightarrow> (nat \<Rightarrow> nat list) \<Rightarrow> (nat \<times> nat) set \<Rightarrow> (nat \<times> nat) set \<Rightarrow> nat set \<Rightarrow> nat \<Rightarrow> nat \<Rightarrow> nat list \<Rightarrow> bool" where
  "taken b b' L A H W x k ys \<longleftrightarrow> core b' (L(k := ys)) A (insert (x, k) H) W \<and> same_rest b b' \<and>
     (\<forall>B \<in> A \<union> H. \<forall>a \<in> brange B. backing b' a = backing b a) \<and> word b' x OFF_TAG = 0 \<and>
     (\<forall>y. PAGE_SIZE dvd y \<longrightarrow> y \<noteq> x \<longrightarrow> word b' y OFF_TAG = word b y OFF_TAG)"

lemma removed_core:
  assumes core: "core b L A H W" and Lk: "L k = us @ x # vs" and k: "k \<le> MAX_ORDER"
    and w: "\<And>y. PAGE_SIZE dvd y \<Longrightarrow> word b' y OFF_NEXT = (if us \<noteq> [] \<and> y = last us then first vs else word b y OFF_NEXT)"
      "\<And>y. PAGE_SIZE dvd y \<Longrightarrow> word b' y OFF_PREV = (if vs \<noteq> [] \<and> y = hd vs then (if us = [] then buddy_NIL else last us) else word b y OFF_PREV)"
      "\<And>y. PAGE_SIZE dvd y \<Longrightarrow> word b' y OFF_TAG = (if y = x then 0 else word b y OFF_TAG)"
    and b': "free_lists b' = (if us = [] then (free_lists b)[k := first vs] else free_lists b)"
      "nonempty b' = (if us = [] \<and> vs = [] then nonempty b AND NOT (push_bit k 1) else nonempty b)"
    and rest: "same_rest b b'" and wr: "writes_only (set (L k)) b b'"
  shows "taken b b' L A H W x k (us @ vs)"
proof -
  note part = coreD(5) [OF core]
  let ?L = "L(k := us @ vs)"
  have d: "distinct (us @ x # vs)"
    using coreD(9) [OF core k] Lk by (simp add: list_at_def)
  have xF: "(x, k) \<in> fblocks L"
    using Lk k by (simp add: fblocks_def)
  have F: "fblocks ?L = fblocks L - {(x, k)}"
    using Lk d by (auto simp: fblocks_def split: if_splits)
  have blocks: "fblocks ?L \<union> A \<union> insert (x, k) H = fblocks L \<union> A \<union> H"
    using xF F by auto
  have same: "regions b' = regions b" "region_count b' = region_count b" "truncated_lists b' = truncated_lists b"
    "rejected_unlinks b' = rejected_unlinks b"
    using rest by (auto simp: same_rest_def)
  have lists: "list_at b' j (?L j)" if "j \<le> MAX_ORDER" for j
    by (rule removed_lists [OF core Lk k that w b'])
  have high: "\<not> bit (nonempty b') j" if "MAX_ORDER < j" for j
    using that coreD(10) [OF core, of j] b'(2) by (auto simp: bit_simps)
  have tags: "word b' y OFF_TAG \<noteq> free_tag y j" if y: "(y, i) \<in> A" "j \<le> MAX_ORDER" for y i j
    using w(3) [of y] coreD(11) [OF core y] core_page [OF core, of y i] y(1) free_tag_pos [of y j] by auto
  have coal: "coalesced (Rg b) ?L"
    using coreD(14) [OF core] by (rule coalesced_mono) (auto simp: Lk)
  have frame: "backing b' a = backing b a" if B: "B \<in> A \<union> H" "a \<in> brange B" for B a
  proof (rule frame_blocks [OF wr part _ B(2)])
    show "B \<in> fblocks L \<union> A \<union> H" using B(1) by blast
    show "\<exists>j. (p, j) \<in> fblocks L \<union> A \<union> H \<and> (p, j) \<noteq> B" if "p \<in> set (L k)" for p
      using that B(1) k coreD(6,7) [OF core] by (intro exI [of _ k]) (auto simp: fblocks_def)
  qed
  have "core b' ?L A (insert (x, k) H) W"
    unfolding core_def blocks same
    using coreD(1-4,6-8,12,13) [OF core] b'(1) part lists tags coal high xF
    by (auto simp: F)
  then show ?thesis
    using frame w(3) rest core_page [OF core, of x k] xF by (auto simp: taken_def)
qed

lemma find_unique:
  assumes "x \<in> set xs" "P x" "\<And>y. y \<in> set xs \<Longrightarrow> P y \<Longrightarrow> y = x"
  shows "find P xs = Some x"
proof (cases "find P xs")
  case None
  then show ?thesis using assms(1,2) by (auto simp: find_None_iff)
next
  case (Some y)
  then have "y \<in> set xs" "P y" by (auto simp: find_Some_iff)
  then show ?thesis using Some assms(3) by blast
qed

lemma region_of_eq:
  assumes "regions_ok (Rg b)" "(s, e) \<in> set (Rg b)" "s \<le> a" "a < e"
  shows "region_of b a = Some (s, e)"
  unfolding region_of_def
proof (rule find_unique)
  show "r = (s, e)" if "r \<in> set (Rg b)" "case r of (s, e) \<Rightarrow> s \<le> a \<and> a < e" for r
    using regions_disjoint [OF assms(1) _ assms(2)] that assms(3,4) by (cases r) auto
qed (use assms in auto)

lemma region_of_block:
  assumes "core b L A H W" "(x, k) \<in> fblocks L \<union> A \<union> H"
  shows "\<exists>s e. (s, e) \<in> set (Rg b) \<and> region_of b x = Some (s, e) \<and> s \<le> x \<and> x + block_size k \<le> e"
proof -
  have "block_in (Rg b) (x, k)"
    by (rule partD(1) [OF coreD(5) [OF assms(1)] assms(2)])
  then obtain s e where "(s, e) \<in> set (Rg b)" "s \<le> x" "x + block_size k \<le> e"
    by (auto simp: block_in_def)
  then show ?thesis
    using region_of_eq [OF coreD(4) [OF assms(1)], of s e x] block_size_pos [of k] by auto
qed

lemma neighbour_ok:
  assumes "core b L A H W" "y \<in> set (L k)" "k \<le> MAX_ORDER"
  shows "plausible_link b y k" "free_neighbour b y k"
proof -
  have F: "(y, k) \<in> fblocks L"
    using assms by (simp add: fblocks_def)
  show "plausible_link b y k"
    using region_of_block [OF assms(1), of y k] core_page [OF assms(1), of y k] F
    by (auto simp: plausible_link_def)
  then show "free_neighbour b y k"
    using coreD(9) [OF assms(1,3)] assms(2) by (auto simp: free_neighbour_def list_at_def)
qed

lemma nil_neighbour: "plausible_link b buddy_NIL k" "free_neighbour b buddy_NIL k"
  by (simp_all add: plausible_link_def free_neighbour_def)

lemma pop_core:
  assumes core: "core b L A H W" and Lk: "L k = x # vs" and k: "k \<le> MAX_ORDER"
  shows "\<exists>b'. pop b k = Some (Some x, b') \<and> taken b b' L A H W x k vs"
proof -
  have lk: "list_at b k (x # vs)"
    using coreD(9) [OF core k] Lk by simp
  have pg: "PAGE_SIZE dvd y" if "y \<in> set (x # vs)" for y
    using lk that unfolding list_at_def by blast
  have nx: "word b x OFF_NEXT = first vs" and hd: "free_lists b ! k = x" and xn: "x \<noteq> buddy_NIL"
    using lk pg [of x] NIL_not_page by (auto simp: list_at_def first_hd)
  have pl: "plausible_link b (first vs) k"
    using neighbour_ok(1) [OF core _ k, of "hd vs"] nil_neighbour Lk by (cases vs) auto
  have nil: "first vs = buddy_NIL \<longleftrightarrow> vs = []"
    using pg NIL_not_page by (cases vs) auto
  define b1 where "b1 = b\<lparr>free_lists := (free_lists b)[k := first vs]\<rparr>"
  define b2 where "b2 = (if vs = [] then b1\<lparr>nonempty := nonempty b AND NOT (push_bit k 1)\<rparr> else set_word b1 (first vs) OFF_PREV buddy_NIL)"
  let ?b = "set_word b2 x OFF_TAG 0"
  have run: "pop b k = Some (Some x, ?b)"
    using nx hd xn pl nil k coreD(1) [OF core] by (simp add: pop_def index_def Let_def b2_def b1_def)
  have fp: "vs \<noteq> [] \<Longrightarrow> PAGE_SIZE dvd first vs" "vs \<noteq> [] \<Longrightarrow> first vs = hd vs"
    using pg by (cases vs; simp)+
  have "taken b ?b L A H W x k ([] @ vs)"
  proof (rule removed_core [OF core _ k])
    show "writes_only (set (L k)) b ?b"
      unfolding b2_def b1_def using fp(2) Lk by (auto intro!: writes_only_set_word)
  qed (use Lk fp pg [of x] in \<open>auto simp: b2_def b1_def same_rest_def\<close>)
  then show ?thesis using run by simp
qed


lemma unlink_core:
  assumes core: "core b L A H W" and Lk: "L k = us @ x # vs" and k: "k \<le> MAX_ORDER"
  shows "\<exists>b'. unlink b x k = Some (True, b') \<and> taken b b' L A H W x k (us @ vs)"
proof -
  have lk: "list_at b k (us @ x # vs)"
    using coreD(9) [OF core k] Lk by simp
  have pg: "PAGE_SIZE dvd y" if "y \<in> set (us @ x # vs)" for y
    using lk that unfolding list_at_def by blast
  define p where "p = (if us = [] then buddy_NIL else last us)"
  have w: "word b x OFF_NEXT = first vs" "word b x OFF_PREV = p" "word b x OFF_TAG = free_tag x k"
    using lk by (auto simp: list_at_def first_hd p_def nexts_append prevs_append)
  have fp: "vs \<noteq> [] \<Longrightarrow> PAGE_SIZE dvd first vs" "vs \<noteq> [] \<Longrightarrow> first vs = hd vs" "us \<noteq> [] \<Longrightarrow> PAGE_SIZE dvd p" "us \<noteq> [] \<Longrightarrow> p = last us"
    using pg hd_in_set [of vs] last_in_set [of us] by (auto simp: first_hd p_def)
  have nil: "first vs = buddy_NIL \<longleftrightarrow> vs = []" "p = buddy_NIL \<longleftrightarrow> us = []"
    using fp(1,3) NIL_not_page by (cases vs; force simp: p_def)+
  have ok: "free_neighbour b p k" "free_neighbour b (first vs) k"
    using neighbour_ok(2) [OF core _ k] nil_neighbour Lk by (auto simp: p_def first_hd)
  define b1 where "b1 = (if us = [] then (let b' = b\<lparr>free_lists := (free_lists b)[k := first vs]\<rparr> in
      if vs = [] then b'\<lparr>nonempty := nonempty b AND NOT (push_bit k 1)\<rparr> else b')
    else set_word b p OFF_NEXT (first vs))"
  define b2 where "b2 = (if vs \<noteq> [] then set_word b1 (first vs) OFF_PREV p else b1)"
  let ?b = "set_word b2 x OFF_TAG 0"
  have run: "unlink b x k = Some (True, ?b)"
    using w ok nil k coreD(1) [OF core] by (simp add: unlink_def index_def Let_def b2_def b1_def)
  have "taken b ?b L A H W x k (us @ vs)"
  proof (rule removed_core [OF core Lk k])
    show "writes_only (set (L k)) b ?b"
      unfolding b2_def b1_def Let_def using fp(2,4) Lk by (auto intro!: writes_only_set_word)
    show "same_rest b ?b"
      by (simp add: b2_def b1_def same_rest_def Let_def)
    show "free_lists ?b = (if us = [] then (free_lists b)[k := first vs] else free_lists b)"
      "nonempty ?b = (if us = [] \<and> vs = [] then nonempty b AND NOT (push_bit k 1) else nonempty b)"
      by (simp_all add: b2_def b1_def Let_def)
  qed (use fp pg [of x] in \<open>auto simp: b2_def b1_def Let_def p_def\<close>)
  then show ?thesis using run by blast
qed

text \<open>A valid tag at the base of a block says that the block is on that list.\<close>

lemma tag_means_free:
  assumes core: "core b L A H W" and x: "(x, j) \<in> fblocks L \<union> A" "word b x OFF_TAG = free_tag x k" and k: "k \<le> MAX_ORDER"
  shows "x \<in> set (L k)"
proof (cases "(x, j) \<in> A")
  case True
  then show ?thesis using coreD(11) [OF core True k] x(2) by simp
next
  case False
  then have j: "j \<le> MAX_ORDER" "x \<in> set (L j)"
    using x(1) by (auto simp: fblocks_def)
  then have "free_tag x j = free_tag x k"
    using coreD(9) [OF core j(1)] x(2) by (simp add: list_at_def)
  then show ?thesis
    using free_tag_inj [of x j k] j k by auto
qed

lemma unlink_not_free:
  assumes core: "core b L A H W" and x: "x \<notin> set (L k)" "(x, j) \<in> fblocks L \<union> A" and k: "k \<le> MAX_ORDER"
  shows "unlink b x k = Some (False, b)"
  using tag_means_free [OF core x(2) _ k] x(1) by (auto simp: unlink_def)

end
