(* ===== verification/Buddy_Safety.thy ===== *)
theory Buddy_Safety
  imports Buddy_Inv
begin

unbundle bit_operations_syntax

text \<open>
  Every run of the frame allocator: \<open>alloc\<close>, \<open>free\<close> and \<open>add_region\<close> keep the invariant of \<open>Buddy_Inv\<close>, whatever the
  owners of the blocks write into them short of a free tag at the base of a block. The theorems are about the runs
  \<open>breach\<close>: blocks handed out never overlap and are never written, nothing leaks, a request is refused only when no
  aligned block of that size is free, and erroneous frees are refused or panic.
\<close>

section \<open>Splitting, merging and handing over\<close>

lemma core_field [simp]: "core (b\<lparr>free_bytes := f\<rparr>) L A H W = core b L A H W"
  by (simp add: core_def list_at_def)

lemma core_exchange:
  assumes core: "core b L A H W" and part: "part (Rg b) W (fblocks L \<union> A \<union> H')"
    and "fblocks L \<inter> H' = {}" "A \<inter> H' = {}"
  shows "core b L A H' W"
  using assms unfolding core_def by simp

lemma core_split:
  assumes core: "core b L A H W" and x: "(x, Suc k) \<in> H"
  shows "core b L A (insert (x, k) (insert (x + block_size k, k) (H - {(x, Suc k)}))) W"
proof -
  note part = coreD(5) [OF core]
  let ?X = "fblocks L \<union> A \<union> (H - {(x, Suc k)})"
  have X: "fblocks L \<union> A \<union> H = insert (x, Suc k) ?X" "(x, Suc k) \<notin> ?X"
    using x coreD(7,8) [OF core] by auto
  have eq: "fblocks L \<union> A \<union> insert (x, k) (insert (x + block_size k, k) (H - {(x, Suc k)}))
      = insert (x, k) (insert (x + block_size k, k) ?X)"
    by blast
  have no: "B \<notin> fblocks L \<union> A" if "B = (x, k) \<or> B = (x + block_size k, k)" for B
  proof
    assume B: "B \<in> fblocks L \<union> A"
    have "fst B \<in> brange B" "fst B \<in> brange (x, Suc k)"
      using that base_in_brange block_size_pos [of k] by (auto simp: brange_def block_size_Suc)
    then have "B = (x, Suc k)"
      using partD(2) [OF part, of B "(x, Suc k)" "fst B"] B x by blast
    then show False using that by auto
  qed
  show ?thesis
  proof (rule core_exchange [OF core])
    show "part (Rg b) W (fblocks L \<union> A \<union> insert (x, k) (insert (x + block_size k, k) (H - {(x, Suc k)})))"
      unfolding eq by (rule part_split) (use part X in simp_all)
  qed (use no coreD(7,8) [OF core] in auto)
qed

lemma core_merge:
  assumes core: "core b L A H W" and x: "(x, k) \<in> H" "(x + block_size k, k) \<in> H" and inR: "block_in (Rg b) (x, Suc k)"
  shows "core b L A (insert (x, Suc k) (H - {(x, k), (x + block_size k, k)})) W"
proof -
  note part = coreD(5) [OF core]
  let ?X = "fblocks L \<union> A \<union> (H - {(x, k), (x + block_size k, k)})"
  have X: "fblocks L \<union> A \<union> H = insert (x, k) (insert (x + block_size k, k) ?X)" "(x, k) \<notin> ?X" "(x + block_size k, k) \<notin> ?X"
    using x coreD(7,8) [OF core] by auto
  have eq: "fblocks L \<union> A \<union> insert (x, Suc k) (H - {(x, k), (x + block_size k, k)}) = insert (x, Suc k) ?X"
    by blast
  have no: "(x, Suc k) \<notin> fblocks L \<union> A"
    using same_base [OF part, of x "Suc k" k] x(1) by auto
  show ?thesis
  proof (rule core_exchange [OF core])
    show "part (Rg b) W (fblocks L \<union> A \<union> insert (x, Suc k) (H - {(x, k), (x + block_size k, k)}))"
      unfolding eq by (rule part_merge [OF _ X(2,3) inR]) (use part X(1) in simp)
  qed (use no coreD(7,8) [OF core] in auto)
qed

lemma core_give:
  assumes core: "core b L A {(x, k)} W" and tag: "word b x OFF_TAG = 0"
  shows "core b L (insert (x, k) A) {} W"
  using assms free_tag_pos unfolding core_def by (auto simp: Un_commute)

lemma core_hold:
  assumes "core b L A {} W" "B \<in> A"
  shows "core b L (A - {B}) {B} W"
proof -
  have "fblocks L \<union> (A - {B}) \<union> {B} = fblocks L \<union> A \<union> {}"
    using assms(2) by blast
  then show ?thesis
    using assms unfolding core_def by auto
qed

section \<open>Allocation\<close>

lemma split_core:
  assumes "core b L A {(pa, k + n)} W" "word b pa OFF_TAG = 0"
  shows "\<exists>b' L'. split_down b pa k n = Some b' \<and> core b' L' A {(pa, k)} W \<and> same_rest b b' \<and> word b' pa OFF_TAG = 0 \<and>
    (\<forall>B \<in> A. \<forall>a \<in> brange B. backing b' a = backing b a)"
  using assms
proof (induction n arbitrary: b L)
  case 0
  then show ?case by (auto simp: same_rest_def)
next
  case (Suc n)
  let ?k = "k + n" and ?u = "pa + block_size (k + n)"
  have al: "block_size (Suc ?k) dvd pa" "block_size ?k dvd pa" "PAGE_SIZE dvd pa"
    using core_page [OF Suc.prems(1), of pa "Suc ?k"] block_size_dvd [of ?k "Suc ?k"] by (auto dest: dvd_trans)
  have ne: "?u \<noteq> pa"
    using block_size_pos [of ?k] by simp
  have split: "core b L A {(pa, ?k), (?u, ?k)} W"
    using core_split [OF Suc.prems(1), of pa ?k] by simp
  have "even (pa div block_size ?k)"
    using al(1) block_size_pos [of ?k] by (auto simp: block_size_Suc elim!: dvdE)
  then have "pa XOR block_size ?k = ?u"
    using buddy_xor [OF al(2)] by simp
  then have "?u XOR block_size ?k = pa"
    using buddy_props(6) [OF al(2)] by simp
  moreover have "pa \<notin> set (L ?k)"
    using coreD(7) [OF split] core_page [OF split, of pa ?k] by (auto simp: fblocks_def)
  ultimately have lone: "lone (Rg b) L ?u ?k"
    by (simp add: lone_def)
  have H: "{(pa, ?k), (?u, ?k)} - {(?u, ?k)} = {(pa, ?k)}"
    using ne by auto
  obtain b1 where b1: "push b ?u ?k = Some b1" "core b1 (L(?k := ?u # L ?k)) A {(pa, ?k)} W" "same_rest b b1"
    "\<forall>B \<in> A \<union> {(pa, ?k)}. \<forall>a \<in> brange B. backing b1 a = backing b a"
    "\<forall>y. PAGE_SIZE dvd y \<longrightarrow> y \<noteq> ?u \<longrightarrow> word b1 y OFF_TAG = word b y OFF_TAG"
    using push_core [OF split _ lone] unfolding H by auto
  have "word b1 pa OFF_TAG = 0"
    using b1(5) al(3) ne Suc.prems(2) by auto
  from Suc.IH [OF b1(2) this] obtain b' L' where "split_down b1 pa k n = Some b'" "core b' L' A {(pa, k)} W"
    "same_rest b1 b'" "word b' pa OFF_TAG = 0" "\<forall>B \<in> A. \<forall>a \<in> brange B. backing b' a = backing b1 a"
    by blast
  then show ?case
    using b1 by (auto simp: same_rest_def)
qed


section \<open>Accounting\<close>

definition live_bytes :: "(nat \<times> nat) set \<Rightarrow> nat" where
  "live_bytes A = (\<Sum>B \<in> A. block_size (snd B))"

lemma managed_bound: "regions_ok R \<Longrightarrow> finite (managed R) \<and> card (managed R) < 2 ^ 64"
proof -
  assume ok: "regions_ok R"
  have sub: "managed R \<subseteq> {..<2 ^ 64 - 1}"
  proof
    fix a assume "a \<in> managed R"
    then obtain s e where se: "(s, e) \<in> set R" "a < e"
      by (auto simp: managed_def)
    then have "e < 2 ^ 64"
      using ok unfolding regions_ok_def by auto
    then show "a \<in> {..<2 ^ 64 - 1}" using se(2) by simp
  qed
  then have "card (managed R) \<le> 2 ^ 64 - 1"
    using card_mono [OF _ sub] by simp
  then show ?thesis
    using finite_subset [OF sub] by simp
qed

lemma blocks_finite:
  assumes "part R W X" "regions_ok R"
  shows "finite X"
proof (rule finite_imageD)
  have "fst ` X \<subseteq> managed R"
    using partD(4) [OF assms(1)] base_in_brange by fastforce
  then show "finite (fst ` X)"
    using managed_bound [OF assms(2)] finite_subset by blast
  show "inj_on fst X"
    using same_base [OF assms(1)] by (force simp: inj_on_def)
qed

lemma card_brange [simp]: "card (brange B) = block_size (snd B)" "finite (brange B)"
  by (simp_all add: brange_def)

lemma live_card:
  assumes "part R W X" "regions_ok R" "Y \<subseteq> X"
  shows "live_bytes Y = card (\<Union>B \<in> Y. brange B)"
proof -
  have "finite Y"
    using blocks_finite [OF assms(1,2)] assms(3) finite_subset by blast
  moreover have "\<forall>B \<in> Y. \<forall>B' \<in> Y. B \<noteq> B' \<longrightarrow> brange B \<inter> brange B' = {}"
    using assms(1,3) unfolding part_def by blast
  ultimately have "card (\<Union>B \<in> Y. brange B) = (\<Sum>B \<in> Y. card (brange B))"
    by (intro card_UN_disjoint) auto
  then show ?thesis by (simp add: live_bytes_def)
qed

lemma live_le:
  assumes "part R W X" "regions_ok R" "Y \<subseteq> X"
  shows "live_bytes Y \<le> card (managed R - W)"
proof -
  have "(\<Union>B \<in> Y. brange B) \<subseteq> managed R - W"
    using partD(5) [OF assms(1)] assms(3) by blast
  then show ?thesis
    using live_card [OF assms] managed_bound [OF assms(2)] by (simp add: card_mono)
qed

lemma live_insert: "finite A \<Longrightarrow> (x, k) \<notin> A \<Longrightarrow> live_bytes (insert (x, k) A) = live_bytes A + block_size k"
  by (simp add: live_bytes_def)

lemma live_remove: "finite A \<Longrightarrow> (x, k) \<in> A \<Longrightarrow> live_bytes (A - {(x, k)}) + block_size k = live_bytes A"
  by (simp add: live_bytes_def sum.remove [of A "(x, k)"])

text \<open>The invariant between operations.\<close>

definition binv :: "buddy \<Rightarrow> (nat \<Rightarrow> nat list) \<Rightarrow> (nat \<times> nat) set \<Rightarrow> bool" where
  "binv b L A \<longleftrightarrow> core b L A {} {} \<and> free_bytes b + live_bytes A = card (managed (Rg b))"

lemma binv_finite: "binv b L A \<Longrightarrow> finite A"
  using blocks_finite [OF coreD(5) coreD(4)] unfolding binv_def by blast

lemma usable_bits: "k \<le> MAX_ORDER \<Longrightarrow> bit (n AND NOT (push_bit k 1 - 1)) i \<longleftrightarrow> bit (n :: u32) i \<and> k \<le> i"
  by (auto simp: push_bit_of_1 mask_eq_exp_minus_1 [symmetric] bit_simps MAX_ORDER_def dest: bit_imp_le_length)

lemma alloc_refused:
  assumes inv: "binv b L A" and k: "k \<le> MAX_ORDER" and none: "\<forall>j \<le> MAX_ORDER. k \<le> j \<longrightarrow> L j = []"
  shows "buddy_alloc b k = Some (None, b)"
proof -
  have core: "core b L A {} {}"
    using inv by (simp add: binv_def)
  have "\<not> bit (nonempty b) i" if "k \<le> i" for i
    using that none coreD(9) [OF core, of i] coreD(10) [OF core, of i] by (auto simp: list_at_def)
  then have "nonempty b AND NOT (push_bit k 1 - 1) = 0"
    using usable_bits [OF k] by (auto simp: word_zero_bits)
  then show ?thesis
    using k by (simp add: buddy_alloc_def)
qed

lemma alloc_granted:
  assumes inv: "binv b L A" and k: "k \<le> MAX_ORDER" and some: "j \<le> MAX_ORDER" "k \<le> j" "L j \<noteq> []"
  shows "\<exists>pa b' L'. buddy_alloc b k = Some (Some pa, b') \<and> (pa, k) \<notin> A \<and> binv b' L' (insert (pa, k) A) \<and>
    Rg b' = Rg b \<and> foreign_frees b' = foreign_frees b \<and> free_bytes b' + block_size k = free_bytes b \<and>
    (\<forall>B \<in> A. \<forall>a \<in> brange B. backing b' a = backing b a)"
proof -
  have core: "core b L A {} {}" and acc: "free_bytes b + live_bytes A = card (managed (Rg b))"
    using inv by (auto simp: binv_def)
  define u where "u = nonempty b AND NOT (push_bit k 1 - 1)"
  define n where "n = trailing_zeros 32 u"
  have bits: "bit u i \<longleftrightarrow> bit (nonempty b) i \<and> k \<le> i" for i
    using usable_bits [OF k] by (simp add: u_def)
  have "bit u j" "j < 32"
    using some coreD(9) [OF core some(1)] by (auto simp: bits list_at_def MAX_ORDER_def)
  then have u: "u \<noteq> 0" "bit u n"
    using trailing_zeros_least(1) [of u j 32] by (auto simp: n_def)
  then have n: "k \<le> n" "n \<le> MAX_ORDER" "L n \<noteq> []"
    using bits [of n] coreD(10) [OF core, of n] coreD(9) [OF core, of n] by (auto simp: list_at_def)
  obtain pa vs where Ln: "L n = pa # vs"
    using n(3) by (cases "L n") auto
  obtain b1 where b1: "pop b n = Some (Some pa, b1)" "taken b b1 L A {} {} pa n vs"
    using pop_core [OF core Ln n(2)] by blast
  have c1: "core b1 (L(n := vs)) A {(pa, k + (n - k))} {}" "word b1 pa OFF_TAG = 0"
    using b1(2) n(1) by (auto simp: taken_def)
  from split_core [OF this] obtain b2 L' where b2: "split_down b1 pa k (n - k) = Some b2" "core b2 L' A {(pa, k)} {}"
    "same_rest b1 b2" "word b2 pa OFF_TAG = 0" "\<forall>B \<in> A. \<forall>a \<in> brange B. backing b2 a = backing b1 a"
    by blast
  have give: "core b2 L' (insert (pa, k) A) {} {}"
    by (rule core_give [OF b2(2,4)])
  have new: "(pa, k) \<notin> A"
    using coreD(8) [OF b2(2)] by auto
  have rest: "free_bytes b2 = free_bytes b" "regions b2 = regions b" "region_count b2 = region_count b" "foreign_frees b2 = foreign_frees b"
    using b1(2) b2(3) by (auto simp: taken_def same_rest_def)
  have "live_bytes (insert (pa, k) A) \<le> card (managed (Rg b2) - {})"
    by (rule live_le [OF coreD(5) [OF give] coreD(4) [OF give]]) auto
  then have le: "live_bytes A + block_size k \<le> card (managed (Rg b))"
    using live_insert [OF binv_finite [OF inv] new] rest by simp
  then have size: "block_size k \<le> free_bytes b"
    using acc by linarith
  have "buddy_alloc b k = Some (Some pa, b2\<lparr>free_bytes := free_bytes b - block_size k\<rparr>)"
    unfolding buddy_alloc_def Let_def u_def [symmetric] n_def [symmetric]
    using k u(1) b1(1) b2(1) size rest(1) by (simp add: sub64_def)
  moreover have "binv (b2\<lparr>free_bytes := free_bytes b - block_size k\<rparr>) L' (insert (pa, k) A)"
    using give acc size live_insert [OF binv_finite [OF inv] new] rest by (simp add: binv_def)
  moreover have "\<forall>B \<in> A. \<forall>a \<in> brange B. backing b2 a = backing b a"
    using b1(2) b2(5) by (auto simp: taken_def)
  ultimately show ?thesis
    using new rest size by (intro exI conjI) (assumption | simp)+
qed


section \<open>Release\<close>

lemma lowest_bit:
  assumes "mask_bits \<noteq> (0 :: u32)"
  shows "bit mask_bits (trailing_zeros 32 mask_bits)"
    "bit (mask_bits AND (mask_bits - 1)) i \<longleftrightarrow> bit mask_bits i \<and> i \<noteq> trailing_zeros 32 mask_bits"
proof -
  obtain i where i: "bit mask_bits i" "i < 32"
    using assms by (auto simp: word_zero_bits)
  show "bit mask_bits (trailing_zeros 32 mask_bits)"
    by (rule trailing_zeros_least(1) [OF i])
  then show "bit (mask_bits AND (mask_bits - 1)) i \<longleftrightarrow> bit mask_bits i \<and> i \<noteq> trailing_zeros 32 mask_bits" for i
    using bit_clear_lowest [of mask_bits "trailing_zeros 32 mask_bits" i] trailing_zeros_least(3) [OF i] by blast
qed

lemma scan_passes:
  assumes core: "core b L A {} {}" and pa: "(pa, k) \<in> A" and se: "(s, e) \<in> set (Rg b)" "s \<le> pa" "pa < e"
    and mask: "\<And>i. bit m i \<Longrightarrow> i \<le> MAX_ORDER"
  shows "scan_free b pa s m = Some ()"
  using mask
proof (induction "unat m" arbitrary: m rule: less_induct)
  case less
  note part = coreD(5) [OF core]
  let ?t = "trailing_zeros 32 m" and ?c = "align_down pa (block_size (trailing_zeros 32 m))"
  show ?case
  proof (cases "m = 0 \<or> ?c < s")
    case True
    then show ?thesis by (subst scan_free.simps) auto
  next
    case False
    then have m: "m \<noteq> 0" "s \<le> ?c" by auto
    have t: "?t \<le> MAX_ORDER"
      using less.prems lowest_bit(1) [OF m(1)] by blast
    have "?c \<in> managed (Rg b)"
      using m(2) align_down_le [of pa "block_size ?t"] se(3) by (intro managedI [OF se(1)]) auto
    then obtain i where i: "(?c, i) \<in> fblocks L \<union> A"
      using containing_base [of "Rg b" "fblocks L \<union> A \<union> {}" pa k ?t] part pa by auto
    have "word b ?c OFF_TAG \<noteq> free_tag ?c ?t"
    proof
      assume "word b ?c OFF_TAG = free_tag ?c ?t"
      from tag_means_free [OF core i this t] have F: "(?c, ?t) \<in> fblocks L"
        using t by (simp add: fblocks_def)
      have "pa \<in> brange (?c, ?t)"
        using in_brange [of ?t ?c pa] by (simp add: align_down_div)
      then have "(?c, ?t) = (pa, k)"
        using partD(2) [OF part, of "(?c, ?t)" "(pa, k)" pa] F pa base_in_brange by blast
      then show False
        using F pa coreD(6) [OF core] by auto
    qed
    moreover have "scan_free b pa s (m AND (m - 1)) = Some ()"
      using less.hyps [OF unat_clear_lowest [OF m(1)]] less.prems lowest_bit(2) [OF m(1)] by blast
    ultimately show ?thesis
      using m by (subst scan_free.simps) (simp add: Let_def)
  qed
qed

lemma scan_catches:
  assumes "bit m k" "s \<le> align_down pa (block_size k)"
    "word b (align_down pa (block_size k)) OFF_TAG = free_tag (align_down pa (block_size k)) k"
  shows "scan_free b pa s m = None"
  using assms(1)
proof (induction "unat m" arbitrary: m rule: less_induct)
  case less
  let ?t = "trailing_zeros 32 m"
  have m: "m \<noteq> 0" using less.prems by auto
  have "?t \<le> k"
    using trailing_zeros_least(2) [OF less.prems, of 32] bit_imp_le_length [OF less.prems] by simp
  then have c: "s \<le> align_down pa (block_size ?t)"
    using align_down_antimono [of ?t k pa] assms(2) by linarith
  show ?case
  proof (cases "?t = k")
    case True
    then show ?thesis using m c assms(3) by (subst scan_free.simps) (simp add: Let_def)
  next
    case False
    then have "scan_free b pa s (m AND (m - 1)) = None"
      using less.hyps [OF unat_clear_lowest [OF m]] less.prems lowest_bit(2) [OF m] by blast
    then show ?thesis
      using m c by (subst scan_free.simps) (simp add: Let_def check_bind)
  qed
qed

lemma merge_core:
  assumes "core b L A {(pa, k)} {}" "(s, e) \<in> set (Rg b)" "s \<le> pa" "pa + block_size k \<le> e"
  shows "\<exists>b' L' x j. merge_up b s e pa k = Some (b', x, j) \<and> core b' L' A {(x, j)} {} \<and> lone (Rg b') L' x j \<and> same_rest b b' \<and>
    (\<forall>B \<in> A. \<forall>a \<in> brange B. backing b' a = backing b a)"
  using assms
proof (induction "MAX_ORDER - k" arbitrary: b L pa k)
  case 0
  then have "\<not> k < MAX_ORDER" by simp
  then have "merge_up b s e pa k = Some (b, pa, k)" "lone (Rg b) L pa k"
    by (auto simp: merge_up.simps lone_def)
  then show ?case using 0 by (auto simp: same_rest_def)
next
  case (Suc n)
  note core = Suc.prems(1) and part = coreD(5) [OF Suc.prems(1)]
  let ?y = "pa XOR block_size k"
  have k: "k < MAX_ORDER" using Suc.hyps(2) by simp
  have al: "block_size k dvd pa" "?y \<noteq> pa"
    using core_page [OF core, of pa k] buddy_props(2) [of k pa] by auto
  have stop: ?case if "merge_up b s e pa k = Some (b, pa, k)" "lone (Rg b) L pa k"
    using that core by (auto simp: same_rest_def)
  show ?case
  proof (cases "?y < s \<or> ?y \<ge> e \<or> e - ?y < block_size k")
    case True
    have "lone (Rg b) L pa k"
      unfolding lone_def
    proof (intro impI ballI, clarify)
      fix s' e' assume se': "(s', e') \<in> set (Rg b)" "s' \<le> pa" "pa + block_size k \<le> e'" "s' \<le> ?y" "?y + block_size k \<le> e'"
      have "s = s' \<and> e = e'"
        using regions_disjoint [OF coreD(4) [OF core] Suc.prems(2) se'(1), of pa] Suc.prems(3,4) se'(2,3) block_size_pos [of k] by simp
      then show False using True se'(4,5) block_size_pos [of k] by auto
    qed
    moreover have "merge_up b s e pa k = Some (b, pa, k)"
      using k True by (subst merge_up.simps) (auto simp: Let_def)
    ultimately show ?thesis by (rule stop [rotated])
  next
    case False
    have "?y \<in> managed (Rg b)"
      using False by (intro managedI [OF Suc.prems(2)]) auto
    then obtain i where "(?y, i) \<in> fblocks L \<union> A \<union> {(pa, k)}"
      using buddy_base [OF part, of pa k] by auto
    then have i: "(?y, i) \<in> fblocks L \<union> A"
      using al(2) by auto
    show ?thesis
    proof (cases "?y \<in> set (L k)")
      case notfree: False
      then have "unlink b ?y k = Some (False, b)"
        using unlink_not_free [OF core notfree i] k by simp
      then have "merge_up b s e pa k = Some (b, pa, k)"
        using k False by (subst merge_up.simps) (auto simp: Let_def)
      moreover have "lone (Rg b) L pa k"
        using notfree by (auto simp: lone_def)
      ultimately show ?thesis by (rule stop)
    next
      case True
      then obtain us vs where Lk: "L k = us @ ?y # vs"
        by (meson split_list)
      obtain b1 where b1: "unlink b ?y k = Some (True, b1)" "taken b b1 L A {(pa, k)} {} ?y k (us @ vs)"
        using unlink_core [OF core Lk] k by auto
      let ?lo = "min pa ?y"
      have two: "{(?y, k), (pa, k)} = {(?lo, k), (?lo + block_size k, k)}"
        using buddy_props(5) [OF al(1)] by (auto simp: min_def max_def split: if_splits)
      have same: "Rg b1 = Rg b"
        using b1(2) by (simp add: taken_def same_rest_def)
      have "max pa ?y + block_size k \<le> e" "s \<le> ?lo"
        using False Suc.prems(3,4) by (auto simp: max_def)
      then have lo: "?lo + block_size (Suc k) \<le> e" "s \<le> ?lo"
        using buddy_props(5) [OF al(1)] by (auto simp: block_size_Suc)
      then have "block_in (Rg b1) (?lo, Suc k)"
        unfolding block_in_def same using Suc.prems(2) k buddy_props(4) [OF al(1)] by auto
      moreover have "core b1 (L(k := us @ vs)) A {(?lo, k), (?lo + block_size k, k)} {}"
        using b1(2) unfolding taken_def two by simp
      ultimately have c1: "core b1 (L(k := us @ vs)) A {(?lo, Suc k)} {}"
        using core_merge [of b1 "L(k := us @ vs)" A "{(?lo, k), (?lo + block_size k, k)}" "{}" ?lo k] by auto
      have "merge_up b s e pa k = merge_up b1 s e ?lo (Suc k)"
        using k False b1(1) by (subst merge_up.simps) (auto simp: Let_def)
      moreover have "\<exists>b' L' x j. merge_up b1 s e ?lo (Suc k) = Some (b', x, j) \<and> core b' L' A {(x, j)} {} \<and>
          lone (Rg b') L' x j \<and> same_rest b1 b' \<and> (\<forall>B \<in> A. \<forall>a \<in> brange B. backing b' a = backing b1 a)"
        using Suc.hyps(1) [OF _ c1] Suc.hyps(2) Suc.prems(2) same lo by simp
      ultimately show ?thesis
        using b1(2) unfolding taken_def same_rest_def by (elim exE conjE) (intro exI conjI; simp)
    qed
  qed
qed


lemma find_SomeD: "find P xs = Some x \<Longrightarrow> x \<in> set xs \<and> P x"
  by (induction xs) (auto split: if_splits)

lemma region_count_pos: "(s, e) \<in> set (Rg b) \<Longrightarrow> 0 < region_count b"
  by (cases "region_count b") auto

lemma region_of_bytes [simp]: "region_of (b\<lparr>free_bytes := f\<rparr>) pa = region_of b pa"
  by (simp add: region_of_def)

lemma free_live:
  assumes inv: "binv b L A" and pa: "(pa, k) \<in> A"
  shows "\<exists>b' L'. buddy_free b pa k = Some b' \<and> binv b' L' (A - {(pa, k)}) \<and> Rg b' = Rg b \<and>
    foreign_frees b' = foreign_frees b \<and> free_bytes b' = free_bytes b + block_size k \<and>
    (\<forall>B \<in> A - {(pa, k)}. \<forall>a \<in> brange B. backing b' a = backing b a)"
proof -
  have core: "core b L A {} {}" and acc: "free_bytes b + live_bytes A = card (managed (Rg b))"
    using inv by (auto simp: binv_def)
  have k: "k \<le> MAX_ORDER" "block_size k dvd pa"
    using core_page [OF core, of pa k] pa by auto
  obtain s e where se: "(s, e) \<in> set (Rg b)" "region_of b pa = Some (s, e)" "s \<le> pa" "pa + block_size k \<le> e"
    using region_of_block [OF core, of pa k] pa by blast
  have lt: "pa < e"
    using se(4) block_size_pos [of k] by linarith
  have fits: "free_bytes b + block_size k < 2 ^ 64"
    using live_remove [OF binv_finite [OF inv] pa] acc managed_bound [OF coreD(4) [OF core]] by linarith
  define b0 where "b0 = b\<lparr>free_bytes := free_bytes b + block_size k\<rparr>"
  have core0: "core b0 L A {} {}" and se0: "(s, e) \<in> set (Rg b0)"
    using core se(1) by (auto simp: b0_def)
  have scan: "scan_free b0 pa s (nonempty b0) = Some ()"
    using scan_passes [OF core0 pa se0 se(3) lt] coreD(10) [OF core0] by blast
  obtain b1 L1 x j where b1: "merge_up b0 s e pa k = Some (b1, x, j)" "core b1 L1 (A - {(pa, k)}) {(x, j)} {}" "lone (Rg b1) L1 x j"
    "same_rest b0 b1" "\<forall>B \<in> A - {(pa, k)}. \<forall>a \<in> brange B. backing b1 a = backing b0 a"
    using merge_core [OF core_hold [OF core0 pa] se0 se(3,4)] by blast
  obtain b2 where b2: "push b1 x j = Some b2" "core b2 (L1(j := x # L1 j)) (A - {(pa, k)}) {} {}" "same_rest b1 b2"
    "\<forall>B \<in> A - {(pa, k)}. \<forall>a \<in> brange B. backing b2 a = backing b1 a"
    using push_core [OF b1(2) _ b1(3)] by auto
  have "e - pa \<ge> block_size k" "pa mod block_size k = 0"
    using se(4) k(2) by auto
  then have run: "buddy_free b pa k = Some b2"
    using k(1) region_count_pos [OF se(1)] fits se(2) scan b1(1) b2(1)
    by (simp add: buddy_free_def add64_def Let_def b0_def)
  have rest: "free_bytes b2 = free_bytes b + block_size k" "regions b2 = regions b" "region_count b2 = region_count b" "foreign_frees b2 = foreign_frees b"
    using b1(4) b2(3) by (auto simp: same_rest_def b0_def)
  have "binv b2 (L1(j := x # L1 j)) (A - {(pa, k)})"
    using b2(2) acc live_remove [OF binv_finite [OF inv] pa] rest by (simp add: binv_def)
  moreover have "\<forall>B \<in> A - {(pa, k)}. \<forall>a \<in> brange B. backing b2 a = backing b a"
    using b1(5) b2(4) by (simp add: b0_def)
  ultimately show ?thesis
    using run rest by (intro exI conjI) (assumption | simp)+
qed

lemma free_foreign:
  assumes k: "k \<le> MAX_ORDER" "region_count b > 0" "free_bytes b + block_size k < 2 ^ 64" "foreign_frees b + block_size k < 2 ^ 64"
    and foreign: "\<And>s e. region_of b pa = Some (s, e) \<Longrightarrow> e - pa < block_size k \<or> pa mod block_size k \<noteq> 0"
  shows "buddy_free b pa k = Some (b\<lparr>foreign_frees := foreign_frees b + block_size k\<rparr>)"
proof -
  have "refuse (b\<lparr>free_bytes := free_bytes b + block_size k\<rparr>) k = Some (b\<lparr>foreign_frees := foreign_frees b + block_size k\<rparr>)"
    using k by (simp add: refuse_def sub64_def add64_def)
  then show ?thesis
    using k foreign by (auto simp: buddy_free_def add64_def Let_def split: option.split)
qed

lemma free_twice:
  assumes inv: "binv b L A" and pa: "region_of b pa = Some (s, e)" "block_size k \<le> e - pa" "pa mod block_size k = 0"
    and free: "\<And>B. B \<in> A \<Longrightarrow> pa \<notin> brange B"
  shows "buddy_free b pa k = None"
proof -
  have core: "core b L A {} {}"
    using inv by (simp add: binv_def)
  have se: "(s, e) \<in> set (Rg b)" "s \<le> pa" "pa < e"
    using pa(1) by (auto simp: region_of_def dest!: find_SomeD)
  obtain c j where c: "(c, j) \<in> fblocks L" "pa \<in> brange (c, j)"
    using partD(3) [OF coreD(5) [OF core], of pa] managedI [OF se] free by auto
  have j: "j \<le> MAX_ORDER" "c \<in> set (L j)" and al: "block_size j dvd c"
    using c(1) core_page [OF core, of c j] by (auto simp: fblocks_def)
  have ca: "align_down pa (block_size j) = c"
    using c(2) in_brange [OF al] by simp
  obtain s' e' where se': "(s', e') \<in> set (Rg b)" "s' \<le> c" "c + block_size j \<le> e'"
    using region_of_block [OF core, of c j] c(1) by auto
  have "s = s'"
    using regions_disjoint [OF coreD(4) [OF core] se(1) se'(1) se(2,3)] se' c(2) by (auto simp: brange_def)
  then have "scan_free b pa s (nonempty b) = None"
    using scan_catches [of "nonempty b" j s pa b] se'(2) coreD(9) [OF core j(1)] j(2) by (auto simp: ca list_at_def)
  moreover have "scan_free (b\<lparr>free_bytes := f\<rparr>) pa s m = scan_free b pa s m" for f m
    by (induction b pa s m rule: scan_free.induct) (subst (1 2) scan_free.simps, auto simp: Let_def check_bind)
  ultimately show ?thesis
    using pa by (auto simp: buddy_free_def check_bind add64_def Let_def)
qed


section \<open>Completeness\<close>

lemma aligned_fits:
  assumes "j \<le> k" "block_size k dvd c" and z: "block_size j dvd z" "z \<in> brange (c, k)"
  shows "z + block_size j \<le> c + block_size k \<and> c \<le> z"
proof -
  have "block_size j dvd c + block_size k"
    using assms(2) block_size_dvd [OF assms(1)] by (meson dvd_add dvd_refl dvd_trans)
  then obtain p q where pq: "z = block_size j * p" "c + block_size k = block_size j * q"
    using z(1) by (metis dvdE)
  then have "p < q"
    using z(2) by (auto simp: brange_def)
  then have "block_size j * Suc p \<le> block_size j * q"
    by (intro mult_le_mono2) simp
  then show ?thesis
    using pq z(2) by (simp add: brange_def)
qed

lemma room_has_block:
  assumes inv: "binv b L A" and k: "k \<le> MAX_ORDER" and c: "(s, e) \<in> set (Rg b)" "block_size k dvd c" "s \<le> c" "c + block_size k \<le> e"
    and room: "\<And>B. B \<in> A \<Longrightarrow> brange B \<inter> brange (c, k) = {}"
  shows "\<exists>j. k \<le> j \<and> j \<le> MAX_ORDER \<and> L j \<noteq> []"
proof (rule ccontr)
  assume none: "\<not> (\<exists>j. k \<le> j \<and> j \<le> MAX_ORDER \<and> L j \<noteq> [])"
  have core: "core b L A {} {}"
    using inv by (simp add: binv_def)
  note part = coreD(5) [OF core, simplified]
  have inR: "brange (c, k) \<subseteq> managed (Rg b)"
    by (rule brange_managed) (use k c in \<open>auto simp: block_in_def\<close>)
  have short: "j < k" if "(x, j) \<in> fblocks L" for x j
    using that none by (force simp: fblocks_def)
  have covered: "\<exists>x j. (x, j) \<in> fblocks L \<and> a \<in> brange (x, j) \<and> j < k" if a: "a \<in> brange (c, k)" for a
  proof -
    obtain B where B: "B \<in> fblocks L \<union> A" "a \<in> brange B"
      using partD(3) [OF part, of a] inR a by blast
    then have "B \<in> fblocks L"
      using room [of B] a by blast
    then show ?thesis using B short by (cases B) blast
  qed
  define S where "S = {j. j < k \<and> (\<exists>x \<in> brange (c, k). (x, j) \<in> fblocks L)}"
  have base: "x \<in> brange (c, k)" if x: "(x, j) \<in> fblocks L" "a \<in> brange (x, j)" "a \<in> brange (c, k)" "j < k" for x j a
  proof -
    have al: "block_size j dvd x"
      using core_page [OF core, of x j] x(1) by auto
    then have "a div block_size j = x div block_size j"
      using x(2) in_brange [OF al] block_size_pos [of j] by (auto simp: align_down_div)
    then have "align_down x (block_size k) = align_down a (block_size k)"
      using align_down_cong [of x j a k] x(4) by simp
    then show ?thesis using x(3) in_brange [OF c(2)] by simp
  qed
  have "S \<noteq> {}"
    using covered [OF base_in_brange] base [OF _ _ base_in_brange] by (fastforce simp: S_def)
  then have "(LEAST j. j \<in> S) \<in> S"
    using LeastI_ex [of "\<lambda>j. j \<in> S"] by blast
  then obtain x j where x: "j < k" "(x, j) \<in> fblocks L" "x \<in> brange (c, k)" and least: "\<And>i. i \<in> S \<Longrightarrow> j \<le> i"
    using Least_le [of "\<lambda>j. j \<in> S"] unfolding S_def by blast
  let ?y = "x XOR block_size j"
  have al: "block_size j dvd x" and xL: "x \<in> set (L j)"
    using core_page [OF core, of x j] x(2) by (auto simp: fblocks_def)
  have "align_down ?y (block_size k) = align_down x (block_size k)"
    using align_down_cong [OF buddy_props(3) [OF al], of k] x(1) by simp
  then have y: "?y \<in> brange (c, k)"
    using x(3) in_brange [OF c(2)] by simp
  have fit: "z + block_size j \<le> e \<and> s \<le> z" if "z \<in> brange (c, k)" "block_size j dvd z" for z
    using aligned_fits [OF _ c(2) that(2,1)] x(1) c(3,4) by simp
  obtain i where i: "(?y, i) \<in> fblocks L \<union> A"
    using buddy_base [OF part, of x j] x(2) y inR by blast
  then have iF: "(?y, i) \<in> fblocks L"
    using room [of "(?y, i)"] y base_in_brange by blast
  then have "j \<le> i"
    using least short [OF iF] y by (auto simp: S_def)
  have "i = j"
  proof (rule ccontr)
    assume "i \<noteq> j"
    then have "Suc j \<le> i" using \<open>j \<le> i\<close> by simp
    have al': "block_size i dvd ?y"
      using core_page [OF core, of ?y i] iF by auto
    have "align_down x (block_size i) = ?y"
      using align_down_cong [OF buddy_props(3) [OF al] \<open>Suc j \<le> i\<close>] al' by (simp add: align_down_def)
    then have "x \<in> brange (?y, i)"
      using in_brange [OF al'] by simp
    then show False
      using partD(2) [OF part, of "(?y, i)" "(x, j)" x] iF x(2) base_in_brange \<open>i \<noteq> j\<close> by auto
  qed
  then have "?y \<in> set (L j)"
    using iF by (simp add: fblocks_def)
  moreover have "j < MAX_ORDER"
    using x(1) k by simp
  ultimately show False
    using coreD(14) [OF core] xL c(1) fit [OF x(3) al] fit [OF y buddy_props(1) [OF al]] unfolding coalesced_def by blast
qed


section \<open>Adding a region\<close>

lemma trailing_zeros_page: "trailing_zeros 64 PAGE_SIZE = 12"
proof -
  have "12 \<le> trailing_zeros 64 PAGE_SIZE" "\<not> 13 \<le> trailing_zeros 64 PAGE_SIZE"
    by (simp_all add: trailing_zeros_ge PAGE_SIZE_def)
  then show ?thesis by simp
qed

lemma order_at_ok:
  assumes "PAGE_SIZE dvd x" "PAGE_SIZE dvd e" "x < e"
  shows "order_at x e \<le> MAX_ORDER" "block_size (order_at x e) dvd x" "x + block_size (order_at x e) \<le> e"
    "Suc (order_at x e) \<le> MAX_ORDER \<Longrightarrow> block_size (Suc (order_at x e)) dvd x \<Longrightarrow> e < x + block_size (Suc (order_at x e))"
proof -
  let ?k = "order_at x e" and ?n = "(e - x) div PAGE_SIZE"
  have align: "j \<le> trailing_zeros 64 x - trailing_zeros 64 PAGE_SIZE \<longleftrightarrow> block_size j dvd x" if "j \<le> MAX_ORDER" for j
  proof -
    have "12 \<le> trailing_zeros 64 x"
      using trailing_zeros_ge [of 12 64 x] assms(1) by (simp add: PAGE_SIZE_def)
    moreover have "j + 12 \<le> trailing_zeros 64 x \<longleftrightarrow> 2 ^ (j + 12) dvd x"
      by (rule trailing_zeros_ge) (use that in \<open>simp add: MAX_ORDER_def\<close>)
    ultimately show ?thesis
      by (simp add: trailing_zeros_page block_size_power) linarith
  qed
  have "PAGE_SIZE \<le> e - x"
    using assms by (intro dvd_imp_le) (auto intro: dvd_diff_nat)
  then have n: "0 < ?n"
    by (simp add: div_greater_zero_iff PAGE_SIZE_def)
  have page: "0 < PAGE_SIZE"
    by (simp add: PAGE_SIZE_def)
  show max: "?k \<le> MAX_ORDER"
    by (simp add: order_at_def Let_def)
  have "?k \<le> trailing_zeros 64 x - trailing_zeros 64 PAGE_SIZE"
    by (simp add: order_at_def Let_def)
  then show "block_size ?k dvd x"
    using align [OF max] by simp
  have "?k \<le> ilog2 ?n"
    by (simp add: order_at_def Let_def)
  then have "(2 :: nat) ^ ?k \<le> 2 ^ ilog2 ?n"
    by simp
  also have "\<dots> \<le> ?n"
    using ilog2_bounds [OF n] by simp
  finally have "PAGE_SIZE * 2 ^ ?k \<le> PAGE_SIZE * ?n"
    by simp
  then have "block_size ?k \<le> e - x"
    unfolding block_size_def using times_div_less_eq_dividend [of PAGE_SIZE "e - x"] by linarith
  then show "x + block_size ?k \<le> e"
    using assms(3) by simp
  assume Suc: "Suc ?k \<le> MAX_ORDER" "block_size (Suc ?k) dvd x"
  then have "?k = ilog2 ?n"
    using align [OF Suc(1)] by (auto simp: order_at_def Let_def min_def split: if_splits)
  then have "?n < 2 ^ Suc ?k"
    using ilog2_bounds [OF n] by simp
  then have "e - x < block_size (Suc ?k)"
    using page by (simp add: block_size_def less_mult_imp_div_less div_less_iff_less_mult mult.commute)
  then show "e < x + block_size (Suc ?k)"
    using assms(3) by simp
qed

lemma core_carve:
  assumes core: "core b L A {} {x..<e}" and inR: "block_in (Rg b) (x, k)" "x + block_size k \<le> e"
  shows "core b L A {(x, k)} {x + block_size k..<e}"
proof -
  have out: "(x, j) \<notin> fblocks L \<union> A" for j
    using partD(4) [OF coreD(5) [OF core], of "(x, j)" x] base_in_brange inR(2) block_size_pos [of k] by auto
  have "part (Rg b) {x + block_size k..<e} (insert (x, k) (fblocks L \<union> A \<union> {}))"
    by (rule part_carve [OF coreD(5) [OF core] inR])
  moreover have "fblocks L \<union> A \<union> {(x, k)} = insert (x, k) (fblocks L \<union> A \<union> {})"
    by blast
  ultimately show ?thesis
    using core out unfolding core_def by auto
qed

lemma card_carve:
  assumes "finite M" "{x..<e} \<subseteq> M" "x + n \<le> e"
  shows "card (M - {x + n..<e}) = card (M - {x..<e}) + n"
proof -
  have "M - {x + n..<e} = (M - {x..<e}) \<union> {x..<x + n}" "(M - {x..<e}) \<inter> {x..<x + n} = {}"
    using assms(2,3) by auto
  then show ?thesis
    using assms(1) by (simp add: card_Un_disjoint)
qed


lemma lone_greedy:
  assumes core: "core b L A {} {x..<e}" and se: "(s, e) \<in> set (Rg b)" "s \<le> x" "x < e" "PAGE_SIZE dvd x"
    and greedy: "\<And>k y. k \<le> MAX_ORDER \<Longrightarrow> y \<in> set (L k) \<Longrightarrow> s \<le> y \<Longrightarrow> y < e \<Longrightarrow> k = order_at y e"
  shows "lone (Rg b) L x (order_at x e)"
  unfolding lone_def
proof (intro impI ballI, clarify)
  let ?k = "order_at x e" and ?y = "x XOR block_size (order_at x e)"
  fix s' e'
  assume k: "?k < MAX_ORDER" and se': "(s', e') \<in> set (Rg b)" "s' \<le> x" "x + block_size ?k \<le> e'" "s' \<le> ?y" "?y + block_size ?k \<le> e'"
    and y: "?y \<in> set (L ?k)"
  have pe: "PAGE_SIZE dvd e"
    using coreD(4) [OF core] se(1) by (auto simp: regions_ok_def)
  note ok = order_at_ok [OF se(4) pe se(3)]
  have same: "s' = s" "e' = e"
    using regions_disjoint [OF coreD(4) [OF core] se'(1) se(1), of x] se' se(2,3) block_size_pos [of ?k] by auto
  have F: "(?y, ?k) \<in> fblocks L"
    using y k by (simp add: fblocks_def)
  have "?y \<notin> {x..<e}"
    using partD(4) [OF coreD(5) [OF core], of "(?y, ?k)" ?y] F base_in_brange by blast
  then have lt: "?y < x"
    using se'(5) same block_size_pos [of ?k] by auto
  then have min: "min x ?y = ?y" "max x ?y = x" by auto
  have dvd: "block_size (Suc ?k) dvd ?y" and x: "x = ?y + block_size ?k"
    using buddy_props(4,5) [OF ok(2)] unfolding min by auto
  have py: "PAGE_SIZE dvd ?y"
    using page_dvd [OF dvd] .
  have "?k = order_at ?y e"
    using greedy [OF _ y] k se'(4,5) same block_size_pos [of ?k] by simp
  then have "e < ?y + block_size (Suc ?k)"
    using order_at_ok(4) [OF py pe] lt se(3) k dvd by simp
  then show False
    using x ok(3) by (simp add: block_size_Suc)
qed

lemma add_blocks_core:
  assumes "core b L A {} {x..<e}" "(s, e) \<in> set (Rg b)" "s \<le> x" "x \<le> e" "PAGE_SIZE dvd x"
    "\<And>k y. k \<le> MAX_ORDER \<Longrightarrow> y \<in> set (L k) \<Longrightarrow> s \<le> y \<Longrightarrow> y < e \<Longrightarrow> k = order_at y e"
    "free_bytes b + live_bytes A = card (managed (Rg b) - {x..<e})"
  shows "\<exists>b' L'. add_blocks b x e = Some b' \<and> binv b' L' A \<and> Rg b' = Rg b \<and> foreign_frees b' = foreign_frees b \<and>
    edge_dropped_bytes b' = edge_dropped_bytes b \<and> (\<forall>B \<in> A. \<forall>a \<in> brange B. backing b' a = backing b a)"
  using assms
proof (induction "e - x" arbitrary: b L x rule: less_induct)
  case less
  note core = less.prems(1)
  show ?case
  proof (cases "x < e")
    case False
    then have "{x..<e} = {}" "add_blocks b x e = Some b"
      by (auto simp: add_blocks.simps)
    then show ?thesis
      using less.prems(1,7) unfolding binv_def by auto
  next
    case True
    let ?k = "order_at x e"
    have pe: "PAGE_SIZE dvd e"
      using coreD(4) [OF core] less.prems(2) by (auto simp: regions_ok_def)
    note ok = order_at_ok [OF less.prems(5) pe True]
    have inR: "block_in (Rg b) (x, ?k)"
      using ok less.prems(2,3) by (auto simp: block_in_def)
    have carve: "core b L A {(x, ?k)} {x + block_size ?k..<e}"
      by (rule core_carve [OF core inR ok(3)])
    obtain b1 where b1: "push b x ?k = Some b1" "core b1 (L(?k := x # L ?k)) A {} {x + block_size ?k..<e}" "same_rest b b1"
      "\<forall>B \<in> A. \<forall>a \<in> brange B. backing b1 a = backing b a" "edge_dropped_bytes b1 = edge_dropped_bytes b"
      using push_core [OF carve _ lone_greedy [OF core less.prems(2,3) True less.prems(5,6)]] by (auto simp: same_rest_def)
    have fin: "finite (managed (Rg b))" "card (managed (Rg b)) < 2 ^ 64"
      using managed_bound [OF coreD(4) [OF core]] by auto
    have sub: "{x..<e} \<subseteq> managed (Rg b)"
      using less.prems(2,3) by (auto intro: managedI)
    have acc: "free_bytes b + block_size ?k + live_bytes A = card (managed (Rg b) - {x + block_size ?k..<e})"
      using card_carve [OF fin(1) sub ok(3)] less.prems(7) by linarith
    then have fits: "free_bytes b + block_size ?k < 2 ^ 64"
      using fin card_mono [OF fin(1), of "managed (Rg b) - {x + block_size ?k..<e}"] by auto
    let ?b = "b1\<lparr>free_bytes := free_bytes b + block_size ?k\<rparr>"
    have rest: "regions b1 = regions b" "region_count b1 = region_count b" "foreign_frees b1 = foreign_frees b" "free_bytes b1 = free_bytes b"
      using b1(3) by (auto simp: same_rest_def)
    have step: "add_blocks b x e = add_blocks ?b (x + block_size ?k) e"
      using True b1(1) fits rest by (subst add_blocks.simps) (simp add: add64_def Let_def)
    have "\<exists>b' L'. add_blocks ?b (x + block_size ?k) e = Some b' \<and> binv b' L' A \<and> Rg b' = Rg ?b \<and> foreign_frees b' = foreign_frees ?b \<and>
        edge_dropped_bytes b' = edge_dropped_bytes ?b \<and> (\<forall>B \<in> A. \<forall>a \<in> brange B. backing b' a = backing ?b a)"
    proof (rule less.hyps)
      show "core ?b (L(?k := x # L ?k)) A {} {x + block_size ?k..<e}" using b1(2) by simp
      show "PAGE_SIZE dvd x + block_size ?k"
        using less.prems(5) by (simp add: block_size_def)
      show "j = order_at y e" if "j \<le> MAX_ORDER" "y \<in> set ((L(?k := x # L ?k)) j)" "s \<le> y" "y < e" for j y
        using that less.prems(6) by (auto split: if_splits)
    qed (use True ok(3) block_size_pos [of ?k] less.prems(2,3) rest acc in auto)
    then show ?thesis
      using step b1(4,5) rest by auto
  qed
qed


lemma managed_append: "managed (R @ [(s, e)]) = managed R \<union> {s..<e}"
  by (auto simp: managed_def)

lemma core_grow:
  assumes core: "core b L A {} {}" and room: "region_count b < MAX_REGIONS"
    and new: "PAGE_SIZE dvd x" "PAGE_SIZE dvd e" "x < e" "e < 2 ^ 64" "{x..<e} \<inter> managed (Rg b) = {}"
    and b': "b' = b\<lparr>edge_dropped_bytes := d, regions := (regions b)[region_count b := (x, e)], region_count := region_count b + 1\<rparr>"
  shows "core b' L A {} {x..<e} \<and> Rg b' = Rg b @ [(x, e)]"
proof -
  have R: "Rg b' = Rg b @ [(x, e)]"
    using coreD(2) [OF core] room by (simp add: b' take_Suc_conv_app_nth)
  have apart: "t \<le> x \<or> e \<le> s" if "(s, t) \<in> set (Rg b)" for s t
  proof (rule ccontr)
    assume "\<not> (t \<le> x \<or> e \<le> s)"
    then have "max s x \<in> {x..<e}" "max s x \<in> managed (Rg b)"
      using new(3) coreD(4) [OF core] that managedI [OF that, of "max s x"] by (auto simp: regions_ok_def)
    then show False using new(5) by blast
  qed
  have ok: "regions_ok (Rg b')"
    using coreD(4) [OF core] new apart unfolding R regions_ok_def by (fastforce simp: sorted_wrt_append)
  have man: "managed (Rg b') - {x..<e} = managed (Rg b) - {}"
    using new(5) unfolding R managed_append by blast
  have "part (Rg b') {x..<e} (fblocks L \<union> A \<union> {})"
  proof (rule partI)
    show "block_in (Rg b') B" if "B \<in> fblocks L \<union> A \<union> {}" for B
      using partD(1) [OF coreD(5) [OF core] that] unfolding R block_in_def by auto
    show "B = B'" if "B \<in> fblocks L \<union> A \<union> {}" "B' \<in> fblocks L \<union> A \<union> {}" "a \<in> brange B" "a \<in> brange B'" for B B' a
      using partD(2) [OF coreD(5) [OF core] that] .
    show "(\<Union>B \<in> fblocks L \<union> A \<union> {}. brange B) = managed (Rg b') - {x..<e}"
      unfolding man by (rule partD(5) [OF coreD(5) [OF core]])
  qed
  moreover have "coalesced (Rg b') L"
    unfolding coalesced_def R
  proof (intro allI impI ballI, clarify)
    fix k y s t
    assume y: "k < MAX_ORDER" "y \<in> set (L k)" "(s, t) \<in> set (Rg b @ [(x, e)])" "s \<le> y" "y + block_size k \<le> t"
      "s \<le> y XOR block_size k" "(y XOR block_size k) + block_size k \<le> t" "y XOR block_size k \<in> set (L k)"
    have "y \<in> managed (Rg b)"
      using partD(4) [OF coreD(5) [OF core], of "(y, k)" y] y(1,2) base_in_brange by (auto simp: fblocks_def)
    then have "y \<notin> {x..<e}"
      using new(5) by blast
    then have "(s, t) \<in> set (Rg b)"
      using y(3-5) block_size_pos [of k] by auto
    then show False
      using coreD(14) [OF core] y unfolding coalesced_def by blast
  qed
  moreover have "list_at b' k (L k)" if "k \<le> MAX_ORDER" for k
    using coreD(9) [OF core that] by (simp add: b' list_at_def)
  moreover have "length (regions b') = MAX_REGIONS" "region_count b' \<le> MAX_REGIONS" "length (free_lists b') = Suc MAX_ORDER"
    "nonempty b' = nonempty b" "truncated_lists b' = 0" "rejected_unlinks b' = 0" "\<And>y i. word b' y i = word b y i"
    using core room by (auto simp: b' core_def)
  ultimately have "core b' L A {} {x..<e}"
    using core ok unfolding core_def by simp
  then show ?thesis using R by simp
qed


lemma add_region_ok:
  assumes inv: "binv b L A" and disj: "{start..<start + len} \<inter> managed (Rg b) = {}"
    and x: "x = next_multiple start PAGE_SIZE" and e: "e = align_down (start + len) PAGE_SIZE" "x < e" "start + len < 2 ^ 64"
    and room: "region_count b < MAX_REGIONS" "edge_dropped_bytes b + (x - start + (start + len - e)) < 2 ^ 64"
  shows "\<exists>b' L'. add_region b start len = Some b' \<and> binv b' L' A \<and> Rg b' = Rg b @ [(x, e)] \<and> foreign_frees b' = foreign_frees b \<and>
    edge_dropped_bytes b' = edge_dropped_bytes b + (x - start + (start + len - e)) \<and>
    (\<forall>B \<in> A. \<forall>a \<in> brange B. backing b' a = backing b a)"
proof -
  have core: "core b L A {} {}" and acc: "free_bytes b + live_bytes A = card (managed (Rg b))"
    using inv by (auto simp: binv_def)
  have page: "0 < PAGE_SIZE" by (simp add: PAGE_SIZE_def)
  have al: "PAGE_SIZE dvd x" "PAGE_SIZE dvd e" "start \<le> x" "e \<le> start + len"
    using next_multiple_dvd [OF page] next_multiple_ge align_down_le by (auto simp: x e(1) align_down_div)
  then have lt: "e < 2 ^ 64" and dj: "{x..<e} \<inter> managed (Rg b) = {}"
    using e(3) disj by (auto simp: disjoint_iff)
  define b1 where "b1 = b\<lparr>edge_dropped_bytes := edge_dropped_bytes b + (x - start + (start + len - e)),
    regions := (regions b)[region_count b := (x, e)], region_count := region_count b + 1\<rparr>"
  have grow: "core b1 L A {} {x..<e}" "Rg b1 = Rg b @ [(x, e)]"
    using core_grow [OF core room(1) al(1,2) e(2) lt dj b1_def] by auto
  have run: "add_region b start len = add_blocks b1 x e"
    using e room coreD(2) [OF core] lt x
    by (simp add: add_region_def u64_checked_next_multiple_of_def usize_checked_add_def add64_def index_def Let_def b1_def)
  have "\<exists>b' L'. add_blocks b1 x e = Some b' \<and> binv b' L' A \<and> Rg b' = Rg b1 \<and> foreign_frees b' = foreign_frees b1 \<and>
    edge_dropped_bytes b' = edge_dropped_bytes b1 \<and> (\<forall>B \<in> A. \<forall>a \<in> brange B. backing b' a = backing b1 a)"
  proof (rule add_blocks_core [OF grow(1)])
    show "(x, e) \<in> set (Rg b1)" using grow(2) by simp
    have man: "managed (Rg b1) - {x..<e} = managed (Rg b)"
      using dj unfolding grow(2) managed_append by blast
    then show "free_bytes b1 + live_bytes A = card (managed (Rg b1) - {x..<e})"
      using acc by (simp add: b1_def)
    show "k = order_at y e" if y: "k \<le> MAX_ORDER" "y \<in> set (L k)" "x \<le> y" "y < e" for k y
    proof -
      have "y \<in> managed (Rg b)"
        using partD(4) [OF coreD(5) [OF core], of "(y, k)" y] y(1,2) base_in_brange by (auto simp: fblocks_def)
      then have False using dj y(3,4) by (auto simp: disjoint_iff)
      then show ?thesis ..
    qed
  qed (use al(1) e(2) in auto)
  then show ?thesis
    using run grow(2) by (simp add: b1_def)
qed

text \<open>A range that is discarded changes only the counters.\<close>

lemma add_region_discarded:
  assumes "add_region b start len = Some b'"
    "\<not> (next_multiple start PAGE_SIZE < align_down (start + len) PAGE_SIZE \<and> start + len < 2 ^ 64) \<or> region_count b = MAX_REGIONS"
  shows "b' = b\<lparr>malformed_region_bytes := malformed_region_bytes b', edge_dropped_bytes := edge_dropped_bytes b',
    refused_region_bytes := refused_region_bytes b', refused_regions := refused_regions b'\<rparr>"
  using assms
  by (auto simp: add_region_def u64_checked_next_multiple_of_def usize_checked_add_def Let_def bind_eq_Some_conv
      split: option.splits if_splits)

lemma core_counters [simp]:
  "core (b\<lparr>malformed_region_bytes := m\<rparr>) L A H W = core b L A H W" "core (b\<lparr>edge_dropped_bytes := m\<rparr>) L A H W = core b L A H W"
  "core (b\<lparr>refused_region_bytes := m\<rparr>) L A H W = core b L A H W" "core (b\<lparr>refused_regions := n\<rparr>) L A H W = core b L A H W"
  "core (b\<lparr>foreign_frees := m\<rparr>) L A H W = core b L A H W"
  by (simp_all add: core_def list_at_def word_def)

section \<open>Runs\<close>

text \<open>\<open>breach b A\<close>: the allocator is in state \<open>b\<close> with the blocks \<open>A\<close> handed out. Owners write what they like into
  their blocks, except that the tag word of a block's base never receives a free tag of that base. Regions are added
  as firmware reports them, but never twice the same memory. Blocks that lie in no region may be offered to \<open>free\<close>.\<close>

inductive breach :: "buddy \<Rightarrow> (nat \<times> nat) set \<Rightarrow> bool" where
  new: "breach (buddy_new m) {}"
| backing: "breach b A \<Longrightarrow> set_backing b m = Some b' \<Longrightarrow> breach b' A"
| region: "breach b A \<Longrightarrow> {start..<start + len} \<inter> managed (Rg b) = {} \<Longrightarrow> add_region b start len = Some b' \<Longrightarrow> breach b' A"
| alloc: "breach b A \<Longrightarrow> buddy_alloc b k = Some (Some pa, b') \<Longrightarrow> breach b' (insert (pa, k) A)"
| full: "breach b A \<Longrightarrow> buddy_alloc b k = Some (None, b') \<Longrightarrow> breach b' A"
| free: "breach b A \<Longrightarrow> (pa, k) \<in> A \<Longrightarrow> buddy_free b pa k = Some b' \<Longrightarrow> breach b' (A - {(pa, k)})"
| foreign: "breach b A \<Longrightarrow> pa \<notin> managed (Rg b) \<Longrightarrow> buddy_free b pa k = Some b' \<Longrightarrow> breach b' A"
| store: "breach b A \<Longrightarrow> (x, k) \<in> A \<Longrightarrow> a \<in> brange (x, k) \<Longrightarrow> (a = x + OFF_TAG \<Longrightarrow> \<forall>j \<le> MAX_ORDER. v \<noteq> free_tag x j) \<Longrightarrow>
    breach (b\<lparr>backing := (backing b)(a := v)\<rparr>) A"


lemma store_core:
  assumes core: "core b L A {} {}" and x: "(x, k) \<in> A" "a \<in> brange (x, k)"
    and tag: "a = x + OFF_TAG \<Longrightarrow> \<forall>j \<le> MAX_ORDER. v \<noteq> free_tag x j"
  shows "core (b\<lparr>backing := (backing b)(a := v)\<rparr>) L A {} {}"
proof -
  let ?b = "b\<lparr>backing := (backing b)(a := v)\<rparr>"
  note part = coreD(5) [OF core, simplified]
  have other: "word ?b y i = word b y i" if "(y, j) \<in> fblocks L \<union> A" "(y, j) \<noteq> (x, k)" "i < PAGE_SIZE" for y i j
    using partD(2) [OF part that(1), of "(x, k)" "y + i"] x page_in_brange [OF that(3), of y j] that(2)
    by (auto simp: word_def)
  have lists: "list_at ?b j (L j)" if j: "j \<le> MAX_ORDER" for j
  proof (rule list_at_frame [OF coreD(9) [OF core j]])
    fix y assume "y \<in> set (L j)"
    then have F: "(y, j) \<in> fblocks L" using j by (simp add: fblocks_def)
    then have "(y, j) \<noteq> (x, k)"
      using x(1) coreD(6) [OF core] by blast
    then show "word ?b y OFF_NEXT = word b y OFF_NEXT \<and> word ?b y OFF_PREV = word b y OFF_PREV \<and> word ?b y OFF_TAG = word b y OFF_TAG"
      using other [of y j] F by simp
  qed simp_all
  have tags: "word ?b y OFF_TAG \<noteq> free_tag y i" if y: "(y, j) \<in> A" "i \<le> MAX_ORDER" for y i j
    using other [of y j OFF_TAG] coreD(11) [OF core y] tag y by (cases "(y, j) = (x, k)") (auto simp: word_def)
  show ?thesis
    using core lists tags unfolding core_def by auto
qed

lemma foreign_run:
  assumes "buddy_free b pa k = Some b'" "region_of b pa = None"
  shows "b' = b\<lparr>foreign_frees := foreign_frees b + block_size k\<rparr>"
  using assms by (auto simp: buddy_free_def refuse_def add64_def sub64_def bind_eq_Some_conv Let_def split: if_splits)

lemma region_of_None: "pa \<notin> managed (Rg b) \<Longrightarrow> region_of b pa = None"
  by (auto simp: region_of_def find_None_iff intro: managedI)

lemma new_binv: "binv (buddy_new m) (\<lambda>_. []) {}"
  by (simp add: binv_def core_def buddy_new_def live_bytes_def managed_def regions_ok_def part_def fblocks_def list_at_def
      coalesced_def del: replicate_Suc)

lemma binv_counters:
  assumes "binv b L A" "b' = b\<lparr>malformed_region_bytes := m, edge_dropped_bytes := d, refused_region_bytes := r, refused_regions := n\<rparr>"
  shows "binv b' L A"
  using assms by (simp add: binv_def)

lemma breach_binv: "breach b A \<Longrightarrow> \<exists>L. binv b L A"
proof (induction rule: breach.induct)
  case (new m)
  then show ?case using new_binv by blast
next
  case (backing b A m b')
  then obtain L where inv: "binv b L A" by blast
  have b': "b' = b\<lparr>backing := m\<rparr>" and none: "region_count b = 0"
    using backing.hyps(2) by (auto simp: set_backing_def check_bind split: if_splits)
  have core: "core b L A {} {}"
    using inv by (simp add: binv_def)
  have "fblocks L \<union> A = {}"
    using partD(1) [OF coreD(5) [OF core]] none by (fastforce simp: block_in_def)
  then have "A = {}" "\<forall>k \<le> MAX_ORDER. L k = []"
    by (auto simp: fblocks_def) (metis empty_iff set_empty subsetI subset_antisym empty_subsetI)
  then show ?case
    using inv by (auto simp: b' binv_def core_def list_at_def intro!: exI [of _ L])
next
  case (region b A start len b')
  then obtain L where inv: "binv b L A" by blast
  show ?case
  proof (cases "next_multiple start PAGE_SIZE < align_down (start + len) PAGE_SIZE \<and> start + len < 2 ^ 64 \<and> region_count b \<noteq> MAX_REGIONS")
    case False
    then show ?thesis
      using add_region_discarded [OF region.hyps(3)] binv_counters [OF inv] by blast
  next
    case True
    let ?x = "next_multiple start PAGE_SIZE" and ?e = "align_down (start + len) PAGE_SIZE"
    have "?e < 2 ^ 64" using True align_down_le [of "start + len" PAGE_SIZE] by linarith
    then have "edge_dropped_bytes b + (?x - start + (start + len - ?e)) < 2 ^ 64"
      using region.hyps(3) True
      by (auto simp: add_region_def u64_checked_next_multiple_of_def usize_checked_add_def Let_def bind_eq_Some_conv add64_def split: if_splits)
    moreover have "region_count b < MAX_REGIONS"
      using True inv by (auto simp: binv_def core_def)
    ultimately show ?thesis
      using add_region_ok [OF inv region.hyps(2) refl refl] True region.hyps(3) by auto
  qed
next
  case (alloc b A k pa b')
  then obtain L where inv: "binv b L A" by blast
  have k: "k \<le> MAX_ORDER"
    using alloc.hyps(2) by (auto simp: buddy_alloc_def split: if_splits)
  show ?case
  proof (cases "\<forall>j \<le> MAX_ORDER. k \<le> j \<longrightarrow> L j = []")
    case True
    then show ?thesis using alloc_refused [OF inv k] alloc.hyps(2) by simp
  next
    case False
    then show ?thesis using alloc_granted [OF inv k] alloc.hyps(2) by fastforce
  qed
next
  case (full b A k b')
  then obtain L where inv: "binv b L A" by blast
  show ?case
  proof (cases "k \<le> MAX_ORDER \<and> \<not> (\<forall>j \<le> MAX_ORDER. k \<le> j \<longrightarrow> L j = [])")
    case True
    then show ?thesis using alloc_granted [OF inv] full.hyps(2) by fastforce
  next
    case False
    then have "buddy_alloc b k = Some (None, b)"
      using alloc_refused [OF inv] by (cases "k \<le> MAX_ORDER") (auto simp: buddy_alloc_def)
    then show ?thesis using inv full.hyps(2) by auto
  qed
next
  case (free b A pa k b')
  then show ?case using free_live by fastforce
next
  case (foreign b A pa k b')
  then obtain L where inv: "binv b L A" by blast
  then show ?case
    using foreign_run [OF foreign.hyps(3) region_of_None [OF foreign.hyps(2)]] by (auto simp: binv_def)
next
  case (store b A x k a v)
  then obtain L where inv: "binv b L A" by blast
  then show ?case
    using store_core [of b L A x k a v] store.hyps by (auto simp: binv_def)
qed


section \<open>Properties\<close>

text \<open>C3: in every run \<open>alloc\<close> returns without panicking, and a block it grants is aligned to its size, lies inside one
  region, overlaps no block handed out before, and is taken without writing a single word of any of them; the free
  bytes drop by its size. A refusal changes nothing.\<close>

theorem buddy_alloc_exclusive:
  assumes "breach b A"
  shows "case buddy_alloc b k of
      None \<Rightarrow> False
    | Some (None, b') \<Rightarrow> b' = b
    | Some (Some pa, b') \<Rightarrow> k \<le> MAX_ORDER \<and> block_size k dvd pa \<and> (\<exists>(s, e) \<in> set (Rg b). s \<le> pa \<and> pa + block_size k \<le> e) \<and>
        (\<forall>B \<in> A. brange B \<inter> brange (pa, k) = {} \<and> (\<forall>a \<in> brange B. backing b' a = backing b a)) \<and>
        free_bytes b' + block_size k = free_bytes b"
proof -
  obtain L where inv: "binv b L A"
    using breach_binv [OF assms] by blast
  show ?thesis
  proof (cases "k \<le> MAX_ORDER \<and> \<not> (\<forall>j \<le> MAX_ORDER. k \<le> j \<longrightarrow> L j = [])")
    case False
    then have "buddy_alloc b k = Some (None, b)"
      using alloc_refused [OF inv] by (cases "k \<le> MAX_ORDER") (auto simp: buddy_alloc_def)
    then show ?thesis by simp
  next
    case True
    then obtain pa b' L' where g: "buddy_alloc b k = Some (Some pa, b')" "(pa, k) \<notin> A" "binv b' L' (insert (pa, k) A)" "Rg b' = Rg b"
      "free_bytes b' + block_size k = free_bytes b" "\<forall>B \<in> A. \<forall>a \<in> brange B. backing b' a = backing b a"
      using alloc_granted [OF inv] by blast
    have part: "part (Rg b') {} (fblocks L' \<union> insert (pa, k) A \<union> {})"
      using coreD(5) g(3) unfolding binv_def by blast
    have "block_in (Rg b) (pa, k)"
      using partD(1) [OF part, of "(pa, k)"] g(4) by simp
    moreover have "brange B \<inter> brange (pa, k) = {}" if "B \<in> A" for B
      using partD(2) [OF part, of B "(pa, k)"] that g(2) by blast
    ultimately show ?thesis
      using g(1,5,6) by (simp add: block_in_def)
  qed
qed

text \<open>C9: coalescing is complete. A request is granted exactly when some aligned range of its size inside one region
  meets no block handed out, so memory freed in any order is never left too fragmented to be handed out again.\<close>

theorem buddy_alloc_complete:
  assumes "breach b A"
  shows "(\<exists>pa b'. buddy_alloc b k = Some (Some pa, b')) \<longleftrightarrow>
    k \<le> MAX_ORDER \<and> (\<exists>(s, e) \<in> set (Rg b). \<exists>c. block_size k dvd c \<and> s \<le> c \<and> c + block_size k \<le> e \<and>
      (\<forall>B \<in> A. brange B \<inter> brange (c, k) = {}))"
    (is "?granted \<longleftrightarrow> ?room")
proof -
  obtain L where inv: "binv b L A"
    using breach_binv [OF assms] by blast
  show ?thesis
  proof
    assume ?room
    then obtain s e c where c: "k \<le> MAX_ORDER" "(s, e) \<in> set (Rg b)" "block_size k dvd c" "s \<le> c" "c + block_size k \<le> e"
      "\<And>B. B \<in> A \<Longrightarrow> brange B \<inter> brange (c, k) = {}"
      by blast
    then show ?granted
      using room_has_block [OF inv c] alloc_granted [OF inv c(1)] by blast
  next
    assume ?granted
    then obtain pa b' where g: "buddy_alloc b k = Some (Some pa, b')" by blast
    have k: "k \<le> MAX_ORDER"
      using g by (auto simp: buddy_alloc_def split: if_splits)
    then obtain L' where g': "(pa, k) \<notin> A" "binv b' L' (insert (pa, k) A)" "Rg b' = Rg b"
      using alloc_refused [OF inv k] alloc_granted [OF inv k] g by fastforce
    have part: "part (Rg b') {} (fblocks L' \<union> insert (pa, k) A \<union> {})"
      using coreD(5) g'(2) unfolding binv_def by blast
    have "block_in (Rg b) (pa, k)"
      using partD(1) [OF part, of "(pa, k)"] g'(3) by simp
    then obtain s e where "(s, e) \<in> set (Rg b)" "block_size k dvd pa" "s \<le> pa" "pa + block_size k \<le> e"
      by (auto simp: block_in_def)
    moreover have "brange B \<inter> brange (pa, k) = {}" if "B \<in> A" for B
      using partD(2) [OF part, of B "(pa, k)"] that g'(1) by blast
    ultimately show ?room using k by blast
  qed
qed

text \<open>C4: returning a block handed out never panics, gives back exactly its bytes, writes no word of any other block
  handed out, and neither cuts a list nor rejects a link while it coalesces.\<close>

theorem buddy_free_exact:
  assumes "breach b A" "(pa, k) \<in> A"
  shows "\<exists>b'. buddy_free b pa k = Some b' \<and> breach b' (A - {(pa, k)}) \<and> free_bytes b' = free_bytes b + block_size k \<and>
    foreign_frees b' = foreign_frees b \<and> rejected_unlinks b' = 0 \<and> truncated_lists b' = 0 \<and>
    (\<forall>B \<in> A - {(pa, k)}. \<forall>a \<in> brange B. backing b' a = backing b a)"
proof -
  obtain L where inv: "binv b L A"
    using breach_binv [OF assms(1)] by blast
  obtain b' L' where f: "buddy_free b pa k = Some b'" "binv b' L' (A - {(pa, k)})" "foreign_frees b' = foreign_frees b"
    "free_bytes b' = free_bytes b + block_size k" "\<forall>B \<in> A - {(pa, k)}. \<forall>a \<in> brange B. backing b' a = backing b a"
    using free_live [OF inv assms(2)] by blast
  have "rejected_unlinks b' = 0" "truncated_lists b' = 0"
    using f(2) by (auto simp: binv_def core_def)
  then show ?thesis
    using f breach.free [OF assms f(1)] by blast
qed

text \<open>C28: nothing leaks. In every run the free bytes and the bytes of the blocks handed out add up to the bytes of the
  regions, no free list was ever cut short and no coalescing ever refused, so the counters of corruption stay zero.\<close>

theorem buddy_nothing_lost:
  assumes "breach b A"
  shows "finite A \<and> free_bytes b + live_bytes A = card (managed (Rg b)) \<and> truncated_lists b = 0 \<and> rejected_unlinks b = 0"
proof -
  obtain L where inv: "binv b L A"
    using breach_binv [OF assms] by blast
  then show ?thesis
    using binv_finite [OF inv] by (simp add: binv_def core_def)
qed

text \<open>C29: an erroneous free is caught. A block that starts in memory which is already free panics, at whatever order it
  is offered and wherever in the free block it starts; a block in no region, one that overruns its region and one not
  aligned to its order are counted as foreign and nothing else changes.\<close>

theorem buddy_bad_free_caught:
  assumes "breach b A" "k \<le> MAX_ORDER" "region_count b > 0"
    "free_bytes b + block_size k < 2 ^ 64" "foreign_frees b + block_size k < 2 ^ 64"
  shows "((\<forall>s e. region_of b pa = Some (s, e) \<longrightarrow> e - pa < block_size k \<or> \<not> block_size k dvd pa) \<longrightarrow>
      buddy_free b pa k = Some (b\<lparr>foreign_frees := foreign_frees b + block_size k\<rparr>)) \<and>
    (\<forall>s e. region_of b pa = Some (s, e) \<and> block_size k \<le> e - pa \<and> block_size k dvd pa \<and> (\<forall>B \<in> A. pa \<notin> brange B) \<longrightarrow>
      buddy_free b pa k = None)"
proof -
  obtain L where inv: "binv b L A"
    using breach_binv [OF assms(1)] by blast
  show ?thesis
    using free_foreign [OF assms(2-5), of pa] free_twice [OF inv, of pa] by (auto simp: dvd_eq_mod_eq_0)
qed

text \<open>C30: a usable range that meets no region is taken whole. The loop that carves it into blocks ends, the range from
  the first to the last whole page becomes a region, all of it is free, what was handed out is untouched, and
  the partial pages at both edges are counted.\<close>

theorem buddy_add_region_exact:
  assumes "breach b A" "{start..<start + len} \<inter> managed (Rg b) = {}" "start + len < 2 ^ 64" "region_count b < MAX_REGIONS"
    and "x = next_multiple start PAGE_SIZE" "e = align_down (start + len) PAGE_SIZE" "x < e"
    and "edge_dropped_bytes b + (x - start + (start + len - e)) < 2 ^ 64"
  shows "\<exists>b'. add_region b start len = Some b' \<and> Rg b' = Rg b @ [(x, e)] \<and> free_bytes b' = free_bytes b + (e - x) \<and>
    edge_dropped_bytes b' + (e - x) = edge_dropped_bytes b + len \<and> (\<forall>B \<in> A. \<forall>a \<in> brange B. backing b' a = backing b a)"
proof -
  obtain L where inv: "binv b L A"
    using breach_binv [OF assms(1)] by blast
  obtain b' L' where a: "add_region b start len = Some b'" "binv b' L' A" "Rg b' = Rg b @ [(x, e)]"
    "edge_dropped_bytes b' = edge_dropped_bytes b + (x - start + (start + len - e))"
    "\<forall>B \<in> A. \<forall>a \<in> brange B. backing b' a = backing b a"
    using add_region_ok [OF inv assms(2,5,6,7,3,4,8)] by blast
  have le: "start \<le> x" "e \<le> start + len"
    using next_multiple_ge align_down_le by (auto simp: assms(5,6))
  have "{x..<e} \<inter> managed (Rg b) = {}"
    using assms(2) le by (auto simp: disjoint_iff)
  then have "card (managed (Rg b')) = card (managed (Rg b)) + (e - x)"
    using managed_bound [OF coreD(4)] inv unfolding a(3) managed_append binv_def
    by (subst card_Un_disjoint) auto
  then have "free_bytes b' = free_bytes b + (e - x)"
    using a(2) inv by (simp add: binv_def)
  moreover have "edge_dropped_bytes b' + (e - x) = edge_dropped_bytes b + len"
    using a(4) le assms(7) by simp
  ultimately show ?thesis using a(1,3,5) by blast
qed


section \<open>A concrete run\<close>

text \<open>One region of 64 KiB at 1 MiB, preceded by a partial page, with one block of two pages handed out.\<close>

lemma ex_region:
  "\<exists>b. add_region (buddy_new (\<lambda>_. 0)) 0xFFF00 0x10100 = Some b \<and> breach b {} \<and> Rg b = [(0x100000, 0x110000)] \<and>
     free_bytes b = 0x10000 \<and> edge_dropped_bytes b = 0x100 \<and> foreign_frees b = 0"
proof -
  let ?b = "buddy_new (\<lambda>_. 0)"
  have R: "Rg ?b = []" by (simp add: buddy_new_def)
  have d: "{0xFFF00..<0xFFF00 + 0x10100} \<inter> managed (Rg ?b) = {}"
    by (simp add: R managed_def)
  obtain b L where b: "add_region ?b 0xFFF00 0x10100 = Some b" "binv b L {}" "Rg b = Rg ?b @ [(0x100000, 0x110000)]" "edge_dropped_bytes b = 0x100"
    "foreign_frees b = 0"
    using add_region_ok [OF new_binv d, of "0x100000" "0x110000"]
    by (auto simp: next_multiple_def align_down_def PAGE_SIZE_def buddy_new_def MAX_REGIONS_def)
  have "managed (Rg b) = {0x100000..<0x110000}"
    by (simp add: b(3) R managed_def)
  then show ?thesis
    using b breach.region [OF breach.new d b(1)] R by (auto simp: binv_def live_bytes_def)
qed

lemma ex_held:
  "\<exists>b pa. breach b {(pa, 1)} \<and> Rg b = [(0x100000, 0x110000)] \<and> free_bytes b = 0xE000 \<and> foreign_frees b = 0 \<and> region_count b > 0 \<and>
     0x100000 \<le> pa \<and> pa + 0x2000 \<le> 0x110000 \<and> 0x2000 dvd pa"
proof -
  obtain b where b: "breach b {}" "Rg b = [(0x100000, 0x110000)]" "free_bytes b = 0x10000" "foreign_frees b = 0"
    using ex_region by blast
  obtain L where inv: "binv b L {}"
    using breach_binv [OF b(1)] by blast
  have "\<exists>j. 1 \<le> j \<and> j \<le> MAX_ORDER \<and> L j \<noteq> []"
    by (rule room_has_block [OF inv, of _ "0x100000" "0x110000" "0x100000"])
      (auto simp: b(2) MAX_ORDER_def block_size_def PAGE_SIZE_def)
  then obtain j where j: "1 \<le> j" "j \<le> MAX_ORDER" "L j \<noteq> []" by blast
  have one: "1 \<le> MAX_ORDER" by (simp add: MAX_ORDER_def)
  obtain pa b' L' where g: "buddy_alloc b 1 = Some (Some pa, b')" "binv b' L' {(pa, 1)}" "Rg b' = Rg b" "foreign_frees b' = foreign_frees b"
    "free_bytes b' + block_size 1 = free_bytes b"
    using alloc_granted [OF inv one j(2,1,3)] by blast
  have "block_in (Rg b') (pa, 1)"
    using partD(1) [OF coreD(5), of b' L' "{(pa, 1)}" "{}" "{}" "(pa, 1)"] g(2) by (auto simp: binv_def)
  moreover have "region_count b' > 0"
    using g(3) b(2) by (intro gr0I) auto
  ultimately show ?thesis
    using breach.alloc [OF b(1) g(1)] g b by (intro exI [of _ b'] exI [of _ pa]) (auto simp: block_in_def block_size_def PAGE_SIZE_def)
qed

theorem buddy_alloc_exclusive_witness:
  "\<exists>b pa. breach b {(pa, 1)} \<and> (\<exists>q b'. buddy_alloc b 0 = Some (Some q, b') \<and> brange (pa, 1) \<inter> brange (q, 0) = {} \<and> free_bytes b' = 0xD000)"
proof -
  obtain b pa where b: "breach b {(pa, 1)}" "Rg b = [(0x100000, 0x110000)]" "free_bytes b = 0xE000"
    using ex_held by blast
  have free: "free_bytes b \<noteq> 0" by (simp add: b(3))
  obtain L where inv: "binv b L {(pa, 1)}"
    using breach_binv [OF b(1)] by blast
  have "\<exists>j \<le> MAX_ORDER. L j \<noteq> []"
  proof (rule ccontr)
    assume "\<not> (\<exists>j \<le> MAX_ORDER. L j \<noteq> [])"
    then have "fblocks L = {}" by (auto simp: fblocks_def)
    then have "managed (Rg b) = brange (pa, 1)"
      using partD(5) [OF coreD(5), of b L "{(pa, 1)}" "{}" "{}"] inv by (auto simp: binv_def)
    then show False
      using inv free by (simp add: binv_def live_bytes_def)
  qed
  then obtain q b' where "buddy_alloc b 0 = Some (Some q, b')"
    using alloc_granted [OF inv, of 0] by blast
  then show ?thesis
    using buddy_alloc_exclusive [OF b(1), of 0] b by (auto simp: block_size_def PAGE_SIZE_def)
qed

theorem buddy_alloc_complete_witness:
  "\<exists>b pa b'. breach b {} \<and> buddy_alloc b 4 = Some (Some pa, b')"
proof -
  obtain b where b: "breach b {}" "Rg b = [(0x100000, 0x110000)]"
    using ex_region by blast
  have "\<exists>pa b'. buddy_alloc b 4 = Some (Some pa, b')"
    unfolding buddy_alloc_complete [OF b(1)]
    by (auto simp: b(2) MAX_ORDER_def block_size_def PAGE_SIZE_def intro!: exI [of _ "0x100000 :: nat"])
  then show ?thesis using b(1) by blast
qed

theorem buddy_free_exact_witness:
  "\<exists>b pa b'. breach b {(pa, 1)} \<and> buddy_free b pa 1 = Some b' \<and> free_bytes b' = 0x10000"
proof -
  obtain b pa where b: "breach b {(pa, 1)}" "free_bytes b = 0xE000"
    using ex_held by blast
  then show ?thesis
    using buddy_free_exact [OF b(1), of pa 1] by (auto simp: block_size_def PAGE_SIZE_def)
qed

theorem buddy_nothing_lost_witness:
  "\<exists>b pa. breach b {(pa, 1)} \<and> free_bytes b + live_bytes {(pa, 1)} = card (managed (Rg b))"
  using ex_held buddy_nothing_lost by blast

theorem buddy_bad_free_caught_witness:
  "\<exists>b. breach b {} \<and> buddy_free b 0x101000 0 = None \<and> buddy_free b 0x200000 0 = Some (b\<lparr>foreign_frees := 0x1000\<rparr>)"
proof -
  obtain b where b: "breach b {}" "Rg b = [(0x100000, 0x110000)]" "free_bytes b = 0x10000" "foreign_frees b = 0"
    using ex_region by blast
  have "region_count b > 0"
    using b(2) by (intro gr0I) auto
  then have h: "(0 :: nat) \<le> MAX_ORDER" "region_count b > 0" "free_bytes b + block_size 0 < 2 ^ 64" "foreign_frees b + block_size 0 < 2 ^ 64"
    using b by (auto simp: block_size_def PAGE_SIZE_def)
  have r: "region_of b 0x101000 = Some (0x100000, 0x110000)" "region_of b 0x200000 = None"
    by (simp_all add: region_of_def b(2))
  have "buddy_free b 0x101000 0 = None"
    using buddy_bad_free_caught [OF b(1) h, of "0x101000", THEN conjunct2] r(1) by (simp add: block_size_def PAGE_SIZE_def)
  moreover have "buddy_free b 0x200000 0 = Some (b\<lparr>foreign_frees := 0x1000\<rparr>)"
    using buddy_bad_free_caught [OF b(1) h, of "0x200000", THEN conjunct1] r(2) b(4) by (simp add: block_size_def PAGE_SIZE_def)
  ultimately show ?thesis using b(1) by blast
qed

theorem buddy_add_region_exact_witness:
  "\<exists>b. add_region (buddy_new (\<lambda>_. 0)) 0xFFF00 0x10100 = Some b \<and> free_bytes b = 0x10000"
proof -
  let ?b = "buddy_new (\<lambda>_. 0)"
  have h: "{0xFFF00..<0xFFF00 + 0x10100} \<inter> managed (Rg ?b) = {}" "(0xFFF00 + 0x10100 :: nat) < 2 ^ 64" "region_count ?b < MAX_REGIONS"
    "0x100000 = next_multiple 0xFFF00 PAGE_SIZE" "0x110000 = align_down (0xFFF00 + 0x10100) PAGE_SIZE" "(0x100000 :: nat) < 0x110000"
    "edge_dropped_bytes ?b + (0x100000 - 0xFFF00 + (0xFFF00 + 0x10100 - 0x110000)) < 2 ^ 64"
    by (simp_all add: buddy_new_def managed_def next_multiple_def align_down_def PAGE_SIZE_def MAX_REGIONS_def)
  show ?thesis
    using buddy_add_region_exact [OF breach.new h] by (auto simp: buddy_new_def)
qed

end
