(* ===== verification/Frames.thy ===== *)
theory Frames
  imports Buddy_Safety
begin

text \<open>
  The kernel's use of the frame allocator, \<open>kernel/src/frames.rs\<close>: which parts of the firmware's memory map are given
  to the buddy allocator, the allocation and release of frames, and the byte accounts. The higher-half direct map is
  the store of the allocator; the firmware's word at \<open>BDA_EBDA_SEGMENT\<close> and the usable regions are arguments.
\<close>

section \<open>Model\<close>



record kframes =
  allocator :: buddy
  initialised :: bool
  excluded_low_bytes :: nat







definition frames_alloc :: "kframes \<Rightarrow> nat \<Rightarrow> (nat option \<times> kframes) run" where
  "frames_alloc k order = do { (r, b) \<leftarrow> buddy_alloc (allocator k) order; Some (r, k\<lparr>allocator := b\<rparr>) }"

definition frames_free :: "kframes \<Rightarrow> nat \<Rightarrow> nat \<Rightarrow> kframes run" where
  "frames_free k pa order = do { b \<leftarrow> buddy_free (allocator k) pa order; Some (k\<lparr>allocator := b\<rparr>) }"


section \<open>Accounts\<close>













section \<open>Frames as an interface\<close>

text \<open>What the rest of the kernel relies on: frames of one page out of the managed memory, never one that is in use, and
  a release that cannot fail. \<open>held a F\<close> says that the allocator is in state \<open>a\<close> and the frames \<open>F\<close> are in use.\<close>

locale frame_source =
  fixes falloc :: "'a \<Rightarrow> (nat option \<times> 'a) run" and ffree :: "'a \<Rightarrow> nat \<Rightarrow> 'a run" and held :: "'a \<Rightarrow> nat set \<Rightarrow> bool"
    and memory :: "'a \<Rightarrow> nat set"
  assumes alloc_fresh: "held a F \<Longrightarrow> \<exists>r a'. falloc a = Some (r, a') \<and> memory a' = memory a \<and>
      (case r of None \<Rightarrow> held a' F | Some p \<Rightarrow> p \<in> memory a - F \<and> 4096 dvd p \<and> p < 2 ^ 52 \<and> held a' (insert p F))"
    and free_held: "held a F \<Longrightarrow> p \<in> F \<Longrightarrow> \<exists>a'. ffree a p = Some a' \<and> held a' (F - {p})"

text \<open>The kernel's frames: single pages handed out of memory below the 52 bits of a physical address.\<close>

definition frames_held :: "kframes \<Rightarrow> nat set \<Rightarrow> bool" where
  "frames_held k F \<longleftrightarrow> breach (allocator k) ((\<lambda>p. (p, 0)) ` F) \<and> managed (Rg (allocator k)) \<subseteq> {..<2 ^ 52}"

lemma block_size_0: "block_size 0 = 4096"
  by (simp add: block_size_def PAGE_SIZE_def)

definition frames_memory :: "kframes \<Rightarrow> nat set" where
  "frames_memory k = managed (Rg (allocator k))"

interpretation kf: frame_source "\<lambda>k. frames_alloc k 0" "\<lambda>k p. frames_free k p 0" frames_held frames_memory
proof
  fix k F
  assume h: "frames_held k F"
  let ?A = "(\<lambda>p. (p, 0 :: nat)) ` F" and ?b = "allocator k"
  have run: "breach ?b ?A" and small: "managed (Rg ?b) \<subseteq> {..<2 ^ 52}"
    using h by (auto simp: frames_held_def)
  obtain L where inv: "binv ?b L ?A"
    using breach_binv [OF run] by blast
  show "\<exists>r a'. frames_alloc k 0 = Some (r, a') \<and> frames_memory a' = frames_memory k \<and>
      (case r of None \<Rightarrow> frames_held a' F | Some p \<Rightarrow> p \<in> frames_memory k - F \<and> 4096 dvd p \<and> p < 2 ^ 52 \<and> frames_held a' (insert p F))"
  proof (cases "\<forall>j \<le> MAX_ORDER. 0 \<le> j \<longrightarrow> L j = []")
    case True
    then have "buddy_alloc ?b 0 = Some (None, ?b)"
      by (intro alloc_refused [OF inv]) auto
    then show ?thesis
      using h by (simp add: frames_alloc_def)
  next
    case False
    then obtain pa b' L' where g: "buddy_alloc ?b 0 = Some (Some pa, b')" "(pa, 0) \<notin> ?A" "binv b' L' (insert (pa, 0) ?A)" "Rg b' = Rg ?b"
      using alloc_granted [OF inv, of 0] by blast
    have "block_in (Rg b') (pa, 0)"
      using partD(1) [OF coreD(5), of b' L' "insert (pa, 0) ?A" "{}" "{}" "(pa, 0)"] g(3) by (auto simp: binv_def)
    then have "4096 dvd pa" "pa \<in> managed (Rg ?b)"
      by (auto simp: block_in_def block_size_0 g(4) intro: managedI)
    then show ?thesis
      using g breach.alloc [OF run g(1)] small by (auto simp: frames_alloc_def frames_held_def frames_memory_def)
  qed
next
  fix k F p
  assume h: "frames_held k F" and p: "p \<in> F"
  let ?A = "(\<lambda>p. (p, 0 :: nat)) ` F" and ?b = "allocator k"
  have run: "breach ?b ?A" and small: "managed (Rg ?b) \<subseteq> {..<2 ^ 52}"
    using h by (auto simp: frames_held_def)
  obtain L where inv: "binv ?b L ?A"
    using breach_binv [OF run] by blast
  obtain b' where f: "buddy_free ?b p 0 = Some b'" "Rg b' = Rg ?b"
    using free_live [OF inv, of p 0] p by auto
  moreover have "?A - {(p, 0)} = (\<lambda>p. (p, 0 :: nat)) ` (F - {p})"
    by auto
  ultimately show "\<exists>a'. frames_free k p 0 = Some a' \<and> frames_held a' (F - {p})"
    using breach.free [OF run _ f(1)] p small by (simp add: frames_free_def frames_held_def)
qed

section \<open>Properties\<close>



end
