(* ===== verification/Paging.thy ===== *)
theory Paging
  imports Frames
begin

unbundle bit_operations_syntax

text \<open>
  Page tables, \<open>crates/qunix-hal-x86_64/src/paging.rs\<close>. The four-level tables are built and walked by the \<open>x86_64\<close>
  crate, which is a parameter: the record \<open>x86\<close> has the functions this code calls, and \<open>crate_ok\<close> states what they
  are documented to do. Everything else (flags, errors, the frame adapter, mapping, unmapping and pruning) is translated.
  A physical address stands for the pointer into the higher-half direct map.
\<close>

section \<open>Flags and errors\<close>

type_synonym page_flags = u64

definition PRESENT :: page_flags where "PRESENT = push_bit 0 1"
definition WRITABLE :: page_flags where "WRITABLE = push_bit 1 1"
definition USER :: page_flags where "USER = push_bit 2 1"
definition NO_CACHE :: page_flags where "NO_CACHE = push_bit 4 1"
definition NO_EXECUTE :: page_flags where "NO_EXECUTE = push_bit 63 1"

lemmas flag_defs = PRESENT_def WRITABLE_def USER_def NO_CACHE_def NO_EXECUTE_def

datatype x86_flag = Xpresent | Xwritable | Xuser | Xno_cache | Xhuge_page | Xno_execute

definition to_x86 :: "page_flags \<Rightarrow> x86_flag set" where
  "to_x86 f =
     (let flags = {};
          flags = (if f AND PRESENT \<noteq> 0 then insert Xpresent flags else flags);
          flags = (if f AND WRITABLE \<noteq> 0 then insert Xwritable flags else flags);
          flags = (if f AND USER \<noteq> 0 then insert Xuser flags else flags);
          flags = (if f AND NO_CACHE \<noteq> 0 then insert Xno_cache flags else flags);
          flags = (if f AND NO_EXECUTE \<noteq> 0 then insert Xno_execute flags else flags)
      in flags)"

datatype map_error = OutOfFrames | AlreadyMapped | NotMapped | UnsupportedPageSize | Misaligned | CorruptEntry | NotUserAddress

text \<open>The errors of the crate.\<close>

datatype crate_map_error = FrameAllocationFailed | PageAlreadyMapped | MapParentHuge
datatype crate_unmap_error = PageNotMapped | UnmapParentHuge | InvalidFrameAddress

definition map_to_error :: "crate_map_error \<Rightarrow> map_error \<Rightarrow> map_error" where
  "map_to_error err alloc_failure =
     (case err of FrameAllocationFailed \<Rightarrow> alloc_failure | PageAlreadyMapped \<Rightarrow> AlreadyMapped | MapParentHuge \<Rightarrow> UnsupportedPageSize)"

definition unmap_error :: "crate_unmap_error \<Rightarrow> map_error" where
  "unmap_error err = (case err of PageNotMapped \<Rightarrow> NotMapped | UnmapParentHuge \<Rightarrow> UnsupportedPageSize | InvalidFrameAddress \<Rightarrow> CorruptEntry)"

section \<open>The crate\<close>

text \<open>An entry of a page table: unused, or an address with flags.\<close>

datatype pte = Unused | Pte nat "x86_flag set"

text \<open>\<open>'m\<close> is the memory that holds page tables and \<open>'f\<close> the state of a frame allocator. \<open>x_virt\<close> and \<open>x_phys\<close> are
  \<open>VirtAddr::new\<close> and \<open>PhysAddr::new\<close>, which panic; \<open>x_start\<close> is \<open>from_start_address\<close> for a page size; \<open>x_index\<close> the
  table index of an address at a level; \<open>x_entry\<close> and \<open>x_set_entry\<close> index a table.\<close>

record ('m, 'f) x86 =
  x_virt :: "nat \<Rightarrow> nat run"
  x_phys :: "nat \<Rightarrow> nat run"
  x_start :: "nat \<Rightarrow> nat \<Rightarrow> nat option"
  x_index :: "nat \<Rightarrow> nat \<Rightarrow> nat"
  x_entry :: "'m \<Rightarrow> nat \<Rightarrow> nat \<Rightarrow> pte"
  x_set_entry :: "nat \<Rightarrow> nat \<Rightarrow> pte \<Rightarrow> 'm \<Rightarrow> 'm"
  x_map_to :: "('f \<Rightarrow> (nat option \<times> 'f) run) \<Rightarrow> nat \<Rightarrow> nat \<Rightarrow> nat \<Rightarrow> x86_flag set \<Rightarrow> 'm \<Rightarrow> 'f \<Rightarrow> ((crate_map_error + unit) \<times> 'm \<times> 'f) run"
  x_unmap :: "nat \<Rightarrow> nat \<Rightarrow> 'm \<Rightarrow> (crate_unmap_error + nat) \<times> 'm"
  x_translate :: "nat \<Rightarrow> nat \<Rightarrow> 'm \<Rightarrow> (nat \<times> nat) option"

section \<open>The frame adapter\<close>

text \<open>\<open>ClosureFrames\<close>: the state of the closure and the misaligned address it returned, if any.\<close>

type_synonym 'c closure_frames = "'c \<times> nat option"

definition frame_failure :: "'c closure_frames \<Rightarrow> map_error" where
  "frame_failure cf = (if snd cf \<noteq> None then Misaligned else OutOfFrames)"

definition allocate_frame :: "('m, 'f) x86 \<Rightarrow> ('c \<Rightarrow> (nat option \<times> 'c) run) \<Rightarrow> 'c closure_frames \<Rightarrow> (nat option \<times> 'c closure_frames) run" where
  "allocate_frame X frames cf = do {
     (r, c) \<leftarrow> frames (fst cf);
     (case r of
        None \<Rightarrow> Some (None, (c, snd cf))
      | Some pa \<Rightarrow> do {
          p \<leftarrow> x_phys X pa;
          Some (case x_start X 4096 p of Some frame \<Rightarrow> (Some frame, (c, snd cf)) | None \<Rightarrow> (None, (c, Some pa))) }) }"

section \<open>Address spaces\<close>

text \<open>The invalidations of translations, in order: of one page or of everything, on this processor or on the others.\<close>

datatype invalidation = Local nat | Remote nat | Local_all | Remote_all

record 'm mmu =
  tables :: 'm
  cr3 :: nat
  invalidated :: "invalidation list"

definition shares_the_kernel_half :: "nat \<Rightarrow> bool" where
  "shares_the_kernel_half va \<longleftrightarrow> bit va 47"

definition copy_kernel_half :: "('m, 'f) x86 \<Rightarrow> nat \<Rightarrow> nat \<Rightarrow> 'm \<Rightarrow> 'm" where
  "copy_kernel_half X root from m = fold (\<lambda>i m. x_set_entry X root i (x_entry X m from i) m) [256..<512] m"

definition as_map_page :: "nat \<Rightarrow> x86_flag set \<Rightarrow> ('m, 'c closure_frames) x86 \<Rightarrow> ('c \<Rightarrow> (nat option \<times> 'c) run) \<Rightarrow> nat \<Rightarrow> nat \<Rightarrow> nat \<Rightarrow>
    page_flags \<Rightarrow> ('m, 'z) mmu_scheme \<Rightarrow> 'c \<Rightarrow> ((map_error + unit) \<times> ('m, 'z) mmu_scheme \<times> 'c) run" where
  "as_map_page page_size extra X frames root va pa flags s c = do {
     v \<leftarrow> x_virt X va;
     (case x_start X page_size v of
        None \<Rightarrow> Some (Inl Misaligned, s, c)
      | Some page \<Rightarrow> do {
          p \<leftarrow> x_phys X pa;
          (case x_start X page_size p of
             None \<Rightarrow> Some (Inl Misaligned, s, c)
           | Some frame \<Rightarrow> do {
               (result, m, cf) \<leftarrow> x_map_to X (allocate_frame X frames) root page frame (to_x86 flags \<union> extra) (tables s) (c, None);
               let s = s\<lparr>tables := m\<rparr>;
               Some (case result of
                  Inr _ \<Rightarrow> (Inr (), s\<lparr>invalidated := invalidated s @ [Local page]\<rparr>, fst cf)
                | Inl err \<Rightarrow> (Inl (map_to_error err (frame_failure cf)), s, fst cf)) }) }) }"

definition as_map where "as_map = as_map_page 4096 {}"

definition as_map_2mib where "as_map_2mib = as_map_page (2 ^ 21) {Xhuge_page}"

definition as_unmap :: "('m, 'f) x86 \<Rightarrow> nat \<Rightarrow> nat \<Rightarrow> ('m, 'z) mmu_scheme \<Rightarrow> ((map_error + nat) \<times> ('m, 'z) mmu_scheme) run" where
  "as_unmap X root va s = do {
     v \<leftarrow> x_virt X va;
     Some (case x_start X 4096 v of
        None \<Rightarrow> (Inl Misaligned, s)
      | Some page \<Rightarrow>
          (case x_unmap X root page (tables s) of
             (Inr frame, m) \<Rightarrow> (Inr frame, s\<lparr>tables := m, invalidated := invalidated s @ [Local page, Remote va]\<rparr>)
           | (Inl err, m) \<Rightarrow> (Inl (unmap_error err), s\<lparr>tables := m\<rparr>))) }"

definition as_translate :: "('m, 'f) x86 \<Rightarrow> nat \<Rightarrow> nat \<Rightarrow> ('m, 'z) mmu_scheme \<Rightarrow> nat option run" where
  "as_translate X root va s = do {
     v \<leftarrow> x_virt X va;
     Some (case x_translate X root v (tables s) of Some (frame, offset) \<Rightarrow> Some (frame + offset) | None \<Rightarrow> None) }"

section \<open>Pruning\<close>

definition child_of :: "('m, 'f) x86 \<Rightarrow> 'm \<Rightarrow> nat \<Rightarrow> nat \<Rightarrow> nat option" where
  "child_of X m table i =
     (case x_entry X m table i of Unused \<Rightarrow> None | Pte a f \<Rightarrow> if Xhuge_page \<in> f then None else Some a)"

definition is_empty :: "('m, 'f) x86 \<Rightarrow> 'm \<Rightarrow> nat \<Rightarrow> bool" where
  "is_empty X m table \<longleftrightarrow> list_all (\<lambda>i. x_entry X m table i = Unused) [0..<512]"

definition clear_entry :: "('m, 'f) x86 \<Rightarrow> nat \<Rightarrow> nat \<Rightarrow> 'm \<Rightarrow> 'm" where
  "clear_entry X table i m = x_set_entry X table i Unused m"

text \<open>The part of \<open>unmap_and_prune\<close> that unlinks the tables left empty: the memory and the frames to free.\<close>

definition prune_tables :: "('m, 'f) x86 \<Rightarrow> nat \<Rightarrow> nat \<Rightarrow> 'm \<Rightarrow> 'm \<times> nat list" where
  "prune_tables X root addr m =
     (case child_of X m root (x_index X 4 addr) of None \<Rightarrow> (m, []) | Some p3 \<Rightarrow>
     (case child_of X m p3 (x_index X 3 addr) of None \<Rightarrow> (m, []) | Some p2 \<Rightarrow>
     (case child_of X m p2 (x_index X 2 addr) of None \<Rightarrow> (m, []) | Some p1 \<Rightarrow>
        if \<not> is_empty X m p1 then (m, [])
        else
          let m = clear_entry X p2 (x_index X 2 addr) m in
          if \<not> is_empty X m p2 then (m, [p1])
          else
            let m = clear_entry X p3 (x_index X 3 addr) m in
            if \<not> is_empty X m p3 then (m, [p1, p2])
            else (clear_entry X root (x_index X 4 addr) m, [p1, p2, p3]))))"

fun free_all :: "(nat \<Rightarrow> 'c \<Rightarrow> 'c run) \<Rightarrow> nat list \<Rightarrow> 'c \<Rightarrow> 'c run" where
  "free_all free [] c = Some c"
| "free_all free (f # fs) c = do { c \<leftarrow> free f c; free_all free fs c }"

definition unmap_and_prune :: "('m, 'f) x86 \<Rightarrow> (nat \<Rightarrow> 'c \<Rightarrow> 'c run) \<Rightarrow> nat \<Rightarrow> nat \<Rightarrow> ('m, 'z) mmu_scheme \<Rightarrow> 'c \<Rightarrow>
    ((map_error + nat \<times> nat) \<times> ('m, 'z) mmu_scheme \<times> 'c) run" where
  "unmap_and_prune X free root va s c = do {
     (r, s) \<leftarrow> as_unmap X root va s;
     (case r of
        Inl err \<Rightarrow> Some (Inl err, s, c)
      | Inr pa \<Rightarrow> do {
          addr \<leftarrow> x_virt X va;
          if shares_the_kernel_half va then Some (Inr (pa, 0), s, c)
          else
            (case prune_tables X root addr (tables s) of
               (_, []) \<Rightarrow> Some (Inr (pa, 0), s, c)
             | (m, freed) \<Rightarrow> do {
                 let s = s\<lparr>tables := m, invalidated := invalidated s @ [Local_all, Remote_all]\<rparr>;
                 c \<leftarrow> free_all free freed c;
                 Some (Inr (pa, length freed), s, c) }) }) }"

section \<open>What the crate is documented to do\<close>

text \<open>\<open>view m r\<close> maps each page of the lower half to the frame and flags that the tables under root \<open>r\<close> give it, and
  \<open>twf m r T\<close> says that these tables are well formed and occupy the frames \<open>T\<close>. Addresses of the lower half are canonical,
  physical addresses have 52 bits, and a table is an array of 512 entries.\<close>

definition addresses_ok :: "('m, 'f) x86 \<Rightarrow> bool" where
  "addresses_ok X \<longleftrightarrow> (\<forall>va < 2 ^ 47. x_virt X va = Some va) \<and> (\<forall>pa < 2 ^ 52. x_phys X pa = Some pa) \<and>
     (\<forall>n a. x_start X n a = (if n dvd a then Some a else None))"

definition entries_ok :: "('m, 'f) x86 \<Rightarrow> bool" where
  "entries_ok X \<longleftrightarrow> (\<forall>m t i e t' j. x_entry X (x_set_entry X t i e m) t' j = (if t' = t \<and> j = i then e else x_entry X m t' j))"

text \<open>A root whose lower half is unused maps nothing there; translation and removal agree with the view.\<close>

definition walk_ok :: "('m, 'f) x86 \<Rightarrow> ('m \<Rightarrow> nat \<Rightarrow> nat \<Rightarrow> (nat \<times> x86_flag set) option) \<Rightarrow> ('m \<Rightarrow> nat \<Rightarrow> nat set \<Rightarrow> bool) \<Rightarrow> bool" where
  "walk_ok X view twf \<longleftrightarrow>
     (\<forall>m r. (\<forall>i < 256. x_entry X m r i = Unused) \<longrightarrow> twf m r {r} \<and> view m r = (\<lambda>_. None)) \<and>
     (\<forall>m r T va. twf m r T \<longrightarrow> va < 2 ^ 47 \<longrightarrow>
        x_translate X r va m = map_option (\<lambda>(f, _). (f, va mod 4096)) (view m r (va - va mod 4096))) \<and>
     (\<forall>m r T p. twf m r T \<longrightarrow> p < 2 ^ 47 \<longrightarrow> 4096 dvd p \<longrightarrow>
        (case view m r p of
           None \<Rightarrow> x_unmap X r p m = (Inl PageNotMapped, m)
         | Some (f, _) \<Rightarrow> \<exists>m'. x_unmap X r p m = (Inr f, m') \<and> twf m' r T \<and> view m' r = (view m r)(p := None)))"

text \<open>An allocator that returns only frames outside those \<open>I\<close> records.\<close>

definition fresh_alloc :: "('f \<Rightarrow> (nat option \<times> 'f) run) \<Rightarrow> ('f \<Rightarrow> nat set \<Rightarrow> bool) \<Rightarrow> bool" where
  "fresh_alloc al I \<longleftrightarrow> (\<forall>c T. I c T \<longrightarrow> (\<exists>r c'. al c = Some (r, c') \<and>
     (case r of None \<Rightarrow> I c' T | Some f \<Rightarrow> f \<notin> T \<and> 4096 dvd f \<and> I c' (insert f T))))"

text \<open>Mapping an unmapped page takes table frames from the allocator and adds exactly that mapping, or fails for
  want of a frame and changes no translation; a mapped page is refused.\<close>

definition map_ok :: "('m, 'f) x86 \<Rightarrow> ('m \<Rightarrow> nat \<Rightarrow> nat \<Rightarrow> (nat \<times> x86_flag set) option) \<Rightarrow> ('m \<Rightarrow> nat \<Rightarrow> nat set \<Rightarrow> bool) \<Rightarrow> bool" where
  "map_ok X view twf \<longleftrightarrow>
     (\<forall>al I m r T p f fl c. fresh_alloc al I \<longrightarrow> I c T \<longrightarrow> twf m r T \<longrightarrow> p < 2 ^ 47 \<longrightarrow> 4096 dvd p \<longrightarrow> Xpresent \<in> fl \<longrightarrow>
        (\<exists>res m' c' T'. x_map_to X al r p f fl m c = Some (res, m', c') \<and> twf m' r T' \<and> I c' T' \<and>
           (case res of
              Inr _ \<Rightarrow> view m r p = None \<and> view m' r = (view m r)(p \<mapsto> (f, fl))
            | Inl e \<Rightarrow> view m' r = view m r \<and> e = (if view m r p = None then FrameAllocationFailed else PageAlreadyMapped))))"

definition crate_ok where
  "crate_ok X view twf \<longleftrightarrow> addresses_ok X \<and> entries_ok X \<and> walk_ok X view twf \<and> map_ok X view twf"

lemma map_okD:
  assumes "map_ok X view twf" "fresh_alloc al I" "I c T" "twf m r T" "p < 2 ^ 47" "4096 dvd p" "Xpresent \<in> fl"
  obtains res m' c' T' where "x_map_to X al r p f fl m c = Some (res, m', c')" "twf m' r T'" "I c' T'"
    "case res of
       Inr _ \<Rightarrow> view m r p = None \<and> view m' r = (view m r)(p \<mapsto> (f, fl))
     | Inl e \<Rightarrow> view m' r = view m r \<and> e = (if view m r p = None then FrameAllocationFailed else PageAlreadyMapped)"
  using assms(1) [unfolded map_ok_def, rule_format, of al I c T m r p fl f] assms(2-) that by blast

lemma crate_okD:
  assumes "crate_ok X view twf"
  shows "addresses_ok X" "map_ok X view twf" "va < 2 ^ 47 \<Longrightarrow> x_virt X va = Some va" "pa < 2 ^ 52 \<Longrightarrow> x_phys X pa = Some pa"
    "x_start X n a = (if n dvd a then Some a else None)"
    "x_entry X (x_set_entry X t i e m) t' j = (if t' = t \<and> j = i then e else x_entry X m t' j)"
    "(\<And>i. i < 256 \<Longrightarrow> x_entry X m r i = Unused) \<Longrightarrow> twf m r {r} \<and> view m r = (\<lambda>_. None)"
    "twf m r T \<Longrightarrow> va < 2 ^ 47 \<Longrightarrow> x_translate X r va m = map_option (\<lambda>(f, _). (f, va mod 4096)) (view m r (va - va mod 4096))"
  using assms unfolding crate_ok_def addresses_ok_def entries_ok_def walk_ok_def by blast+

lemma unmap_ok:
  assumes "crate_ok X view twf" "twf m r T" "p < 2 ^ 47" "4096 dvd p" "view m r p = Some (f, fl)"
  obtains m' where "x_unmap X r p m = (Inr f, m')" "twf m' r T" "view m' r = (view m r)(p := None)"
proof -
  have "case view m r p of None \<Rightarrow> x_unmap X r p m = (Inl PageNotMapped, m)
      | Some (f, _) \<Rightarrow> \<exists>m'. x_unmap X r p m = (Inr f, m') \<and> twf m' r T \<and> view m' r = (view m r)(p := None)"
    using assms(1-4) unfolding crate_ok_def walk_ok_def by blast
  then show ?thesis
    using that assms(5) by auto
qed

end
