(* ===== verification/Vmspace.thy ===== *)
theory Vmspace
  imports Paging
begin

text \<open>
  Owned user address spaces, \<open>kernel/src/vmspace.rs\<close>. The state holds the page tables and \<open>CR3\<close> of \<open>Paging\<close>, the
  frame allocator, the bytes of the frames used as memory, and the recorded kernel root. Table frames and memory frames
  are two stores because no frame is ever both, which the invariant of this theory keeps.
\<close>

section \<open>Model\<close>

definition USER_MAX :: nat where "USER_MAX = 0x800000000000"
definition USER_MIN :: nat where "USER_MIN = 0x1000"

record ('m, 'a) kmem = "'m mmu" +
  pool :: 'a
  ram :: "nat \<Rightarrow> u8"
  kernel_root :: nat

record vmspace =
  root_pa :: nat
  owned :: "nat list"

definition record_kernel_root :: "('m, 'a) kmem \<Rightarrow> nat \<times> ('m, 'a) kmem" where
  "record_kernel_root s = (cr3 s, s\<lparr>kernel_root := cr3 s\<rparr>)"

definition activate_kernel_root :: "('m, 'a) kmem \<Rightarrow> ('m, 'a) kmem run" where
  "activate_kernel_root s = do { check (kernel_root s \<noteq> 0); Some (s\<lparr>cr3 := kernel_root s\<rparr>) }"

definition activate_root :: "nat option \<Rightarrow> ('m, 'a) kmem \<Rightarrow> ('m, 'a) kmem run" where
  "activate_root root s = do {
     check (kernel_root s \<noteq> 0);
     let wanted = (case root of Some r \<Rightarrow> r | None \<Rightarrow> kernel_root s);
     Some (if cr3 s = wanted then s else s\<lparr>cr3 := wanted\<rparr>) }"

definition zero_table :: "('m, 'f) x86 \<Rightarrow> nat \<Rightarrow> 'm \<Rightarrow> 'm" where
  "zero_table X t m = fold (\<lambda>i. x_set_entry X t i Unused) [0..<512] m"

definition vm_new :: "('m, 'f) x86 \<Rightarrow> ('a \<Rightarrow> (nat option \<times> 'a) run) \<Rightarrow> ('m, 'a) kmem \<Rightarrow> (vmspace option \<times> ('m, 'a) kmem) run" where
  "vm_new X falloc s = do {
     (r, a) \<leftarrow> falloc (pool s);
     let s = s\<lparr>pool := a\<rparr>;
     (case r of
        None \<Rightarrow> Some (None, s)
      | Some root \<Rightarrow> do {
          let m = zero_table X root (tables s);
          check (kernel_root s \<noteq> 0);
          let m = copy_kernel_half X root (kernel_root s) m;
          Some (Some \<lparr>root_pa = root, owned = [root]\<rparr>, s\<lparr>tables := m\<rparr>) }) }"

text \<open>The closure \<open>map_user\<close> gives the mapper: allocate a frame and record it.\<close>

definition owning_alloc :: "('a \<Rightarrow> (nat option \<times> 'a) run) \<Rightarrow> 'a \<times> nat list \<Rightarrow> (nat option \<times> 'a \<times> nat list) run" where
  "owning_alloc falloc c = do {
     (r, a) \<leftarrow> falloc (fst c);
     Some (case r of None \<Rightarrow> (None, a, snd c) | Some frame \<Rightarrow> (Some frame, a, snd c @ [frame])) }"

type_synonym ('m, 'a) xvm = "('m, ('a \<times> nat list) closure_frames) x86"

definition map_user :: "('m, 'a) xvm \<Rightarrow> ('a \<Rightarrow> (nat option \<times> 'a) run) \<Rightarrow> nat \<Rightarrow> nat \<Rightarrow> bool \<Rightarrow> bool \<Rightarrow>
    vmspace \<Rightarrow> ('m, 'a) kmem \<Rightarrow> ((map_error + unit) \<times> vmspace \<times> ('m, 'a) kmem) run" where
  "map_user X falloc va pa writable executable v s =
     (if va \<ge> USER_MAX \<or> va < USER_MIN then Some (Inl NotUserAddress, v, s)
      else do {
        let flags = PRESENT OR USER;
        let flags = (if writable then flags OR WRITABLE else flags);
        let flags = (if \<not> executable then flags OR NO_EXECUTE else flags);
        (r, s, c) \<leftarrow> as_map X (owning_alloc falloc) (root_pa v) va pa flags s (pool s, owned v);
        Some (r, v\<lparr>owned := snd c\<rparr>, s\<lparr>pool := fst c\<rparr>) })"

definition zero_frame :: "nat \<Rightarrow> (nat \<Rightarrow> u8) \<Rightarrow> nat \<Rightarrow> u8" where
  "zero_frame pa r = (\<lambda>a. if pa \<le> a \<and> a < pa + PAGE_SIZE then 0 else r a)"

definition map_new_page :: "('m, 'a) xvm \<Rightarrow> ('a \<Rightarrow> (nat option \<times> 'a) run) \<Rightarrow> nat \<Rightarrow> bool \<Rightarrow> bool \<Rightarrow>
    vmspace \<Rightarrow> ('m, 'a) kmem \<Rightarrow> ((map_error + nat) \<times> vmspace \<times> ('m, 'a) kmem) run" where
  "map_new_page X falloc va writable executable v s = do {
     (r, a) \<leftarrow> falloc (pool s);
     let s = s\<lparr>pool := a\<rparr>;
     (case r of
        None \<Rightarrow> Some (Inl OutOfFrames, v, s)
      | Some pa \<Rightarrow> do {
          let s = s\<lparr>ram := zero_frame pa (ram s)\<rparr>;
          let v = v\<lparr>owned := owned v @ [pa]\<rparr>;
          (r, v, s) \<leftarrow> map_user X falloc va pa writable executable v s;
          Some (case r of Inl e \<Rightarrow> (Inl e, v, s) | Inr _ \<Rightarrow> (Inr pa, v, s)) }) }"

definition vm_translate :: "('m, 'f) x86 \<Rightarrow> nat \<Rightarrow> vmspace \<Rightarrow> ('m, 'a) kmem \<Rightarrow> nat option run" where
  "vm_translate X va v s = as_translate X (root_pa v) va s"

definition is_mapped :: "('m, 'f) x86 \<Rightarrow> nat \<Rightarrow> vmspace \<Rightarrow> ('m, 'a) kmem \<Rightarrow> bool run" where
  "is_mapped X va v s = do { t \<leftarrow> as_translate X (root_pa v) va s; Some (t \<noteq> None) }"

definition set_permissions :: "('m, 'a) xvm \<Rightarrow> ('a \<Rightarrow> (nat option \<times> 'a) run) \<Rightarrow> nat \<Rightarrow> bool \<Rightarrow> bool \<Rightarrow>
    vmspace \<Rightarrow> ('m, 'a) kmem \<Rightarrow> ((map_error + unit) \<times> vmspace \<times> ('m, 'a) kmem) run" where
  "set_permissions X falloc va writable executable v s = do {
     (r, s) \<leftarrow> as_unmap X (root_pa v) va s;
     (case r of Inl e \<Rightarrow> Some (Inl e, v, s) | Inr pa \<Rightarrow> map_user X falloc va pa writable executable v s) }"

definition vm_activate :: "vmspace \<Rightarrow> ('m, 'a) kmem \<Rightarrow> ('m, 'a) kmem" where
  "vm_activate v s = s\<lparr>cr3 := root_pa v\<rparr>"

definition vm_drop :: "('a \<Rightarrow> nat \<Rightarrow> 'a run) \<Rightarrow> vmspace \<Rightarrow> ('m, 'a) kmem \<Rightarrow> ('m, 'a) kmem run" where
  "vm_drop ffree v s = do {
     check (cr3 s \<noteq> root_pa v);
     a \<leftarrow> free_all (\<lambda>pa a. ffree a pa) (rev (owned v)) (pool s);
     Some (s\<lparr>pool := a\<rparr>) }"

definition map_device_page :: "('m, 'a closure_frames) x86 \<Rightarrow> ('a \<Rightarrow> (nat option \<times> 'a) run) \<Rightarrow> nat \<Rightarrow> nat \<Rightarrow> nat \<Rightarrow>
    ('m, 'a) kmem \<Rightarrow> ((map_error + unit) \<times> ('m, 'a) kmem) run" where
  "map_device_page X falloc root va phys s = do {
     t \<leftarrow> as_translate X root va s;
     (r, s) \<leftarrow> (if t \<noteq> None then as_unmap X root va s else Some (Inr 0, s));
     (case r of
        Inl e \<Rightarrow> Some (Inl e, s)
      | Inr _ \<Rightarrow> do {
          (r, s, a) \<leftarrow> as_map X falloc root va phys (PRESENT OR WRITABLE OR NO_CACHE OR NO_EXECUTE) s (pool s);
          Some (r, s\<lparr>pool := a\<rparr>) }) }"

section \<open>What an address space is\<close>

text \<open>The flags of a user page, the byte a process sees at an address, and the invariant: the frames of a space are
  distinct and in use, its tables and its pages occupy different ones of them, and no two pages share a frame.\<close>

definition user_flags :: "bool \<Rightarrow> bool \<Rightarrow> x86_flag set" where
  "user_flags w x = {Xpresent, Xuser} \<union> (if w then {Xwritable} else {}) \<union> (if x then {} else {Xno_execute})"

type_synonym 'm page_view = "'m \<Rightarrow> nat \<Rightarrow> nat \<Rightarrow> (nat \<times> x86_flag set) option"

definition peek :: "'m page_view \<Rightarrow> vmspace \<Rightarrow> ('m, 'a) kmem \<Rightarrow> nat \<Rightarrow> u8 option" where
  "peek view v s a = map_option (\<lambda>(f, _). ram s (f + a mod 4096)) (view (tables s) (root_pa v) (a - a mod 4096))"

definition vm_inv :: "('a \<Rightarrow> nat set \<Rightarrow> bool) \<Rightarrow> 'm page_view \<Rightarrow> ('m \<Rightarrow> nat \<Rightarrow> nat set \<Rightarrow> bool) \<Rightarrow> nat set \<Rightarrow> nat set \<Rightarrow>
    vmspace \<Rightarrow> ('m, 'a) kmem \<Rightarrow> bool" where
  "vm_inv held view twf F T v s \<longleftrightarrow>
     distinct (owned v) \<and> set (owned v) \<inter> F = {} \<and> held (pool s) (F \<union> set (owned v)) \<and>
     twf (tables s) (root_pa v) T \<and> T \<subseteq> set (owned v) \<and>
     (\<forall>p f fl. view (tables s) (root_pa v) p = Some (f, fl) \<longrightarrow> f \<in> set (owned v) - T \<and> 4096 dvd f \<and> f < 2 ^ 52) \<and>
     (\<forall>p q f fl fl'. view (tables s) (root_pa v) p = Some (f, fl) \<longrightarrow> view (tables s) (root_pa v) q = Some (f, fl') \<longrightarrow> p = q)"

lemma vm_invD:
  assumes "vm_inv held view twf F T v s"
  shows "distinct (owned v)" "set (owned v) \<inter> F = {}" "held (pool s) (F \<union> set (owned v))" "twf (tables s) (root_pa v) T" "T \<subseteq> set (owned v)"
    "view (tables s) (root_pa v) p = Some (f, fl) \<Longrightarrow> f \<in> set (owned v) \<and> f \<notin> T \<and> 4096 dvd f \<and> f < 2 ^ 52"
    "view (tables s) (root_pa v) p = Some (f, fl) \<Longrightarrow> view (tables s) (root_pa v) q = Some (f, fl') \<Longrightarrow> p = q"
  using assms unfolding vm_inv_def by blast+

text \<open>What no operation on a space changes.\<close>

definition same_cpu :: "('m, 'a) kmem \<Rightarrow> ('m, 'a) kmem \<Rightarrow> bool" where
  "same_cpu s s' \<longleftrightarrow> cr3 s' = cr3 s \<and> kernel_root s' = kernel_root s"

lemma same_cpu_refl [simp]: "same_cpu s s"
  by (simp add: same_cpu_def)

lemma same_cpu_trans: "same_cpu s s' \<Longrightarrow> same_cpu s' s'' \<Longrightarrow> same_cpu s s''"
  by (simp add: same_cpu_def)

lemma to_x86_user:
  "to_x86 (let flags = PRESENT OR USER; flags = (if w then flags OR WRITABLE else flags) in
     if \<not> x then flags OR NO_EXECUTE else flags) = user_flags w x"
  by (cases w; cases x) (auto simp: to_x86_def flag_defs user_flags_def Let_def)

text \<open>What the mapper may rely on while it draws frames: they are recorded, none is a page \<open>U\<close> of the space, and the
  frames \<open>W\<close> owned at the start stay owned.\<close>

definition owning_inv :: "('a \<Rightarrow> nat set \<Rightarrow> bool) \<Rightarrow> nat set \<Rightarrow> nat set \<Rightarrow> nat set \<Rightarrow> ('a \<times> nat list) closure_frames \<Rightarrow> nat set \<Rightarrow> bool" where
  "owning_inv held F U W cf T \<longleftrightarrow> snd cf = None \<and>
     (let (a, xs) = fst cf in held a (F \<union> set xs) \<and> distinct xs \<and> set xs \<inter> F = {} \<and> T \<subseteq> set xs \<and> U \<subseteq> set xs \<and> W \<subseteq> set xs \<and> T \<inter> U = {})"

section \<open>Every operation keeps it\<close>

text \<open>Different frames hold different bytes.\<close>

lemma frame_offset:
  assumes "4096 dvd f" "4096 dvd g" "f + i = g + j" "i < 4096" "j < 4096"
  shows "f = (g :: nat) \<and> i = j"
proof -
  have "(f + i) mod 4096 = i" "(g + j) mod 4096 = j"
    using assms(1,2,4,5) by (auto elim!: dvdE)
  then show ?thesis
    using assms(3) by simp
qed

lemma peek_other_frames:
  assumes inv: "vm_inv held view twf F T v s" and eq: "\<And>f fl p i. view (tables s) (root_pa v) p = Some (f, fl) \<Longrightarrow> i < 4096 \<Longrightarrow> ram s' (f + i) = ram s (f + i)"
    and "view (tables s') (root_pa v) = view (tables s) (root_pa v)"
  shows "peek view v s' = peek view v s"
  using eq assms(3) by (auto simp: peek_def fun_eq_iff map_option_case split: option.split)

lemma frame_apart:
  assumes "4096 dvd f" "4096 dvd p" "f \<noteq> p" "i < 4096" "n \<le> 4096"
  shows "\<not> (p \<le> f + i \<and> f + i < p + (n :: nat))"
proof
  assume h: "p \<le> f + i \<and> f + i < p + n"
  then have "f + i = p + (f + i - p)" "f + i - p < 4096"
    using assms(5) by auto
  then show False
    using frame_offset [OF assms(1,2) _ assms(4)] assms(3) by blast
qed

lemma zero_frame_other: "4096 dvd f \<Longrightarrow> 4096 dvd p \<Longrightarrow> f \<noteq> p \<Longrightarrow> i < 4096 \<Longrightarrow> zero_frame p r (f + i) = r (f + i)"
  using frame_apart [of f p i 4096] by (auto simp: zero_frame_def PAGE_SIZE_def)

lemma copy_entries:
  assumes "crate_ok X view twf"
  shows "x_entry X (fold (\<lambda>i m. x_set_entry X r i (x_entry X m k i) m) xs m) r j = (if j \<in> set xs then x_entry X m k j else x_entry X m r j)"
  by (induction xs arbitrary: m) (auto simp: crate_okD(6) [OF assms])

lemma zero_entries:
  assumes "crate_ok X view twf"
  shows "x_entry X (fold (\<lambda>i. x_set_entry X r i Unused) xs m) r' j = (if r' = r \<and> j \<in> set xs then Unused else x_entry X m r' j)"
  by (induction xs arbitrary: m) (auto simp: crate_okD(6) [OF assms])

context frame_source
begin

lemma owning_fresh:
  assumes "addresses_ok X"
  shows "fresh_alloc (allocate_frame X (owning_alloc falloc)) (owning_inv held F U W)"
  unfolding fresh_alloc_def
proof (intro allI impI)
  fix c T'
  assume I: "owning_inv held F U W c T'"
  obtain a xs where c: "c = ((a, xs), None)"
    using I by (cases c) (auto simp: owning_inv_def)
  obtain r a' where r: "falloc a = Some (r, a')"
    "case r of None \<Rightarrow> held a' (F \<union> set xs) | Some p \<Rightarrow> p \<in> memory a - (F \<union> set xs) \<and> 4096 dvd p \<and> p < 2 ^ 52 \<and> held a' (insert p (F \<union> set xs))"
    using alloc_fresh [of a "F \<union> set xs"] I by (auto simp: c owning_inv_def)
  show "\<exists>r c'. allocate_frame X (owning_alloc falloc) c = Some (r, c') \<and>
    (case r of None \<Rightarrow> owning_inv held F U W c' T' | Some f \<Rightarrow> f \<notin> T' \<and> 4096 dvd f \<and> owning_inv held F U W c' (insert f T'))"
  proof (cases r)
    case None
    then show ?thesis
      using r I by (auto simp: allocate_frame_def owning_alloc_def c owning_inv_def)
  next
    case (Some p)
    then have "allocate_frame X (owning_alloc falloc) c = Some (Some p, ((a', xs @ [p]), None))"
      using r assms by (auto simp: allocate_frame_def owning_alloc_def c addresses_ok_def)
    then show ?thesis
      using r I Some by (auto simp: c owning_inv_def)
  qed
qed

lemma map_user_ok:
  assumes X: "crate_ok X view twf" and inv: "vm_inv held view twf F T v s"
    and va: "USER_MIN \<le> va" "va < USER_MAX" "4096 dvd va"
    and pa: "pa \<in> set (owned v)" "pa \<notin> T" "4096 dvd pa" "pa < 2 ^ 52" "\<And>p fl. view (tables s) (root_pa v) p \<noteq> Some (pa, fl)"
  shows "\<exists>r v' s' T'. map_user X falloc va pa w x v s = Some (r, v', s') \<and> vm_inv held view twf F T' v' s' \<and>
    root_pa v' = root_pa v \<and> ram s' = ram s \<and> same_cpu s s' \<and>
    (case r of
       Inr _ \<Rightarrow> view (tables s) (root_pa v) va = None \<and> view (tables s') (root_pa v) = (view (tables s) (root_pa v))(va \<mapsto> (pa, user_flags w x))
     | Inl e \<Rightarrow> view (tables s') (root_pa v) = view (tables s) (root_pa v) \<and>
         e = (if view (tables s) (root_pa v) va = None then OutOfFrames else AlreadyMapped))"
proof -
  let ?r = "root_pa v" and ?U = "set (owned v) - T"
  let ?I = "owning_inv held F ?U (set (owned v))"
  let ?al = "allocate_frame X (owning_alloc falloc)"
  have adr: "addresses_ok X" and mok: "map_ok X view twf"
    using X by (auto simp: crate_ok_def)
  have I: "?I ((pool s, owned v), None) T"
    using vm_invD [OF inv] by (auto simp: owning_inv_def)
  have user: "Xpresent \<in> user_flags w x" "va < 2 ^ 47"
    using va by (auto simp: user_flags_def USER_MAX_def)
  obtain res m' c' T' where m: "x_map_to X ?al ?r va pa (user_flags w x) (tables s) ((pool s, owned v), None) = Some (res, m', c')"
    "twf m' ?r T'" "?I c' T'"
    "case res of Inr _ \<Rightarrow> view (tables s) ?r va = None \<and> view m' ?r = (view (tables s) ?r)(va \<mapsto> (pa, user_flags w x))
       | Inl e \<Rightarrow> view m' ?r = view (tables s) ?r \<and> e = (if view (tables s) ?r va = None then FrameAllocationFailed else PageAlreadyMapped)"
    by (rule map_okD [OF mok owning_fresh [OF adr, of F ?U "set (owned v)"] I vm_invD(4) [OF inv] user(2) va(3) user(1)])
  obtain a' xs where c': "c' = ((a', xs), None)"
    using m(3) by (cases c') (auto simp: owning_inv_def)
  define s' where "s' = s\<lparr>tables := m', invalidated := invalidated s @ (case res of Inr _ \<Rightarrow> [Local va] | Inl _ \<Rightarrow> []), pool := a'\<rparr>"
  let ?res = "case res of Inr _ \<Rightarrow> Inr () | Inl e \<Rightarrow> Inl (map_to_error e OutOfFrames)"
  have run: "map_user X falloc va pa w x v s = Some (?res, v\<lparr>owned := xs\<rparr>, s')"
    using va pa(3,4) adr m(1) user(2) to_x86_user [of w x]
    by (auto simp: map_user_def as_map_def as_map_page_def addresses_ok_def c' s'_def Let_def frame_failure_def split: sum.splits)
  have "vm_inv held view twf F T' (v\<lparr>owned := xs\<rparr>) s'"
    using m(2-4) vm_invD(6) [OF inv] vm_invD(7) [OF inv] pa unfolding vm_inv_def
    by (auto simp: s'_def c' owning_inv_def split: sum.splits if_splits)
  then show ?thesis
    using run m(4) by (intro exI [of _ ?res] exI [of _ "v\<lparr>owned := xs\<rparr>"] exI [of _ s'] exI [of _ T'])
      (auto simp: s'_def same_cpu_def map_to_error_def split: sum.splits)
qed

lemma translate_ok:
  assumes X: "crate_ok X view twf" and inv: "vm_inv held view twf F T v s" and va: "va < USER_MAX"
  shows "as_translate X (root_pa v) va s = Some (map_option (\<lambda>(f, _). f + va mod 4096) (view (tables s) (root_pa v) (va - va mod 4096)))"
proof -
  have "x_virt X va = Some va" "x_translate X (root_pa v) va (tables s) = map_option (\<lambda>(f, _). (f, va mod 4096)) (view (tables s) (root_pa v) (va - va mod 4096))"
    using crate_okD(3,8) [OF X] va vm_invD(4) [OF inv] by (auto simp: USER_MAX_def)
  then show ?thesis
    by (auto simp: as_translate_def split: option.split)
qed

text \<open>A frame taken for the space: recorded, and neither a table nor a page yet.\<close>

lemma take_frame:
  assumes inv: "vm_inv held view twf F T v s"
  shows "\<exists>r a'. falloc (pool s) = Some (r, a') \<and> (case r of
      None \<Rightarrow> vm_inv held view twf F T v (s\<lparr>pool := a'\<rparr>)
    | Some p \<Rightarrow> p \<notin> set (owned v) \<and> 4096 dvd p \<and> p < 2 ^ 52 \<and>
        vm_inv held view twf F T (v\<lparr>owned := owned v @ [p]\<rparr>) (s\<lparr>pool := a', ram := zero_frame p (ram s)\<rparr>))"
proof -
  obtain r a' where r: "falloc (pool s) = Some (r, a')"
    "case r of None \<Rightarrow> held a' (F \<union> set (owned v)) | Some p \<Rightarrow> p \<in> memory (pool s) - (F \<union> set (owned v)) \<and> 4096 dvd p \<and> p < 2 ^ 52 \<and> held a' (insert p (F \<union> set (owned v)))"
    using alloc_fresh [OF vm_invD(3) [OF inv]] by blast
  then show ?thesis
    using inv by (intro exI [of _ r] exI [of _ a']) (auto simp: vm_inv_def split: option.split)
qed

lemma map_new_page_ok:
  assumes X: "crate_ok X view twf" and inv: "vm_inv held view twf F T v s" and va: "USER_MIN \<le> va" "va < USER_MAX" "4096 dvd va"
  shows "\<exists>r v' s' T'. map_new_page X falloc va w x v s = Some (r, v', s') \<and> vm_inv held view twf F T' v' s' \<and> root_pa v' = root_pa v \<and> same_cpu s s' \<and>
    (case r of
       Inr pa \<Rightarrow> view (tables s) (root_pa v) va = None \<and> view (tables s') (root_pa v) = (view (tables s) (root_pa v))(va \<mapsto> (pa, user_flags w x)) \<and>
         peek view v s' = (\<lambda>a. if a - a mod 4096 = va then Some 0 else peek view v s a)
     | Inl e \<Rightarrow> view (tables s') (root_pa v) = view (tables s) (root_pa v) \<and> peek view v s' = peek view v s)"
proof -
  obtain r a' where r: "falloc (pool s) = Some (r, a')" "case r of
      None \<Rightarrow> vm_inv held view twf F T v (s\<lparr>pool := a'\<rparr>)
    | Some p \<Rightarrow> p \<notin> set (owned v) \<and> 4096 dvd p \<and> p < 2 ^ 52 \<and>
        vm_inv held view twf F T (v\<lparr>owned := owned v @ [p]\<rparr>) (s\<lparr>pool := a', ram := zero_frame p (ram s)\<rparr>)"
    using take_frame [OF inv] by blast
  show ?thesis
  proof (cases r)
    case None
    then show ?thesis
      using r by (intro exI [of _ "Inl OutOfFrames"] exI [of _ v] exI [of _ "s\<lparr>pool := a'\<rparr>"] exI [of _ T])
        (simp add: map_new_page_def same_cpu_def peek_def fun_eq_iff)
  next
    case (Some p)
    let ?v = "v\<lparr>owned := owned v @ [p]\<rparr>" and ?s = "s\<lparr>pool := a', ram := zero_frame p (ram s)\<rparr>"
    have p: "p \<notin> set (owned v)" "4096 dvd p" "p < 2 ^ 52" and inv1: "vm_inv held view twf F T ?v ?s"
      using r(2) Some by auto
    have new: "p \<notin> T" "view (tables s) (root_pa v) q \<noteq> Some (p, fl)" for q fl
      using p(1) vm_invD(5) [OF inv] vm_invD(6) [OF inv, of q p fl] by auto
    have pre: "p \<in> set (owned ?v)" "p \<notin> T" "4096 dvd p" "p < 2 ^ 52" "view (tables ?s) (root_pa ?v) q \<noteq> Some (p, fl)" for q fl
      using p new by auto
    obtain r' v' s' T' where m: "map_user X falloc va p w x ?v ?s = Some (r', v', s')" "vm_inv held view twf F T' v' s'"
      "root_pa v' = root_pa ?v" "ram s' = ram ?s" "same_cpu ?s s'"
      "case r' of
         Inr _ \<Rightarrow> view (tables ?s) (root_pa ?v) va = None \<and> view (tables s') (root_pa ?v) = (view (tables ?s) (root_pa ?v))(va \<mapsto> (p, user_flags w x))
       | Inl e \<Rightarrow> view (tables s') (root_pa ?v) = view (tables ?s) (root_pa ?v) \<and> e = (if view (tables ?s) (root_pa ?v) va = None then OutOfFrames else AlreadyMapped)"
      using map_user_ok [where w = w and x = x, OF X inv1 va pre] by (elim exE conjE) (rule that; assumption)
    have other: "ram s' (f + i) = ram s (f + i)" if "view (tables s) (root_pa v) q = Some (f, fl)" "i < 4096" for q f fl i
      using zero_frame_other [OF _ p(2) _ that(2), of f] vm_invD(6) [OF inv that(1)] new(2) [of q fl] that(1) m(4) by auto
    have zero: "ram s' (p + i) = 0" if "i < 4096" for i
      using that m(4) by (simp add: zero_frame_def PAGE_SIZE_def)
    have run: "map_new_page X falloc va w x v s = Some (case r' of Inl e \<Rightarrow> Inl e | Inr _ \<Rightarrow> Inr p, v', s')"
      using r(1) Some m(1) by (auto simp: map_new_page_def split: sum.split)
    have cpu: "same_cpu s s'"
      using m(5) by (simp add: same_cpu_def)
    show ?thesis
    proof (cases r')
      case (Inl e)
      then show ?thesis
        using run m(2,3,6) cpu peek_other_frames [OF inv other] by (intro exI [of _ "Inl e"] exI [of _ v'] exI [of _ s'] exI [of _ T']) auto
    next
      case (Inr u)
      then have "peek view v s' = (\<lambda>a. if a - a mod 4096 = va then Some 0 else peek view v s a)"
        using m(6) other zero by (auto simp: peek_def fun_eq_iff map_option_case split: option.split)
      then show ?thesis
        using run m(2,3,6) cpu Inr by (intro exI [of _ "Inr p"] exI [of _ v'] exI [of _ s'] exI [of _ T']) auto
    qed
  qed
qed

lemma set_permissions_ok:
  assumes X: "crate_ok X view twf" and inv: "vm_inv held view twf F T v s" and va: "USER_MIN \<le> va" "va < USER_MAX" "4096 dvd va"
    and f: "view (tables s) (root_pa v) va = Some (f, fl)"
  shows "\<exists>r v' s' T'. set_permissions X falloc va w x v s = Some (r, v', s') \<and> vm_inv held view twf F T' v' s' \<and> root_pa v' = root_pa v \<and> same_cpu s s' \<and>
    (case r of
       Inr _ \<Rightarrow> view (tables s') (root_pa v) = (view (tables s) (root_pa v))(va \<mapsto> (f, user_flags w x)) \<and> peek view v s' = peek view v s
     | Inl e \<Rightarrow> True)"
proof -
  have lt: "va < 2 ^ 47" using va by (simp add: USER_MAX_def)
  obtain m' where m': "x_unmap X (root_pa v) va (tables s) = (Inr f, m')" "twf m' (root_pa v) T"
    "view m' (root_pa v) = (view (tables s) (root_pa v))(va := None)"
    by (rule unmap_ok [OF X vm_invD(4) [OF inv] lt va(3) f])
  define s1 where "s1 = s\<lparr>tables := m', invalidated := invalidated s @ [Local va, Remote va]\<rparr>"
  have un: "as_unmap X (root_pa v) va s = Some (Inr f, s1)"
    using crate_okD(3,5) [OF X] lt va(3) m'(1) by (simp add: as_unmap_def s1_def)
  have inv1: "vm_inv held view twf F T v s1"
    using inv m'(2,3) unfolding vm_inv_def by (auto simp: s1_def split: if_splits)
  have pre: "f \<in> set (owned v)" "f \<notin> T" "4096 dvd f" "f < 2 ^ 52" "view (tables s1) (root_pa v) q \<noteq> Some (f, fl')" for q fl'
    using vm_invD(6) [OF inv f] vm_invD(7) [OF inv f, of q fl'] m'(3) by (auto simp: s1_def)
  obtain r v' s' T' where m: "map_user X falloc va f w x v s1 = Some (r, v', s')" "vm_inv held view twf F T' v' s'"
    "root_pa v' = root_pa v" "ram s' = ram s1" "same_cpu s1 s'"
    "case r of
       Inr _ \<Rightarrow> view (tables s1) (root_pa v) va = None \<and> view (tables s') (root_pa v) = (view (tables s1) (root_pa v))(va \<mapsto> (f, user_flags w x))
     | Inl e \<Rightarrow> view (tables s') (root_pa v) = view (tables s1) (root_pa v) \<and> e = (if view (tables s1) (root_pa v) va = None then OutOfFrames else AlreadyMapped)"
    using map_user_ok [where w = w and x = x, OF X inv1 va pre] by (elim exE conjE) (rule that; assumption)
  have "set_permissions X falloc va w x v s = Some (r, v', s')" "same_cpu s s'"
    using un m(1,5) by (simp_all add: set_permissions_def same_cpu_def s1_def)
  moreover have "view (tables s') (root_pa v) = (view (tables s) (root_pa v))(va \<mapsto> (f, user_flags w x)) \<and> peek view v s' = peek view v s" if "r = Inr u" for u
    using m(4,6) m'(3) f that by (auto simp: s1_def peek_def fun_eq_iff)
  ultimately show ?thesis
    using m(2,3) by (intro exI [of _ r] exI [of _ v'] exI [of _ s'] exI [of _ T']) (auto split: sum.split)
qed

lemma vm_new_ok:
  assumes X: "crate_ok X view twf" and held: "held (pool s) F" and kr: "kernel_root s \<noteq> 0"
  shows "\<exists>r s'. vm_new X falloc s = Some (r, s') \<and> same_cpu s s' \<and>
    (case r of
       None \<Rightarrow> held (pool s') F
     | Some v \<Rightarrow> root_pa v \<in> memory (pool s) - F \<and> vm_inv held view twf F {root_pa v} v s' \<and> view (tables s') (root_pa v) = (\<lambda>_. None))"
proof -
  obtain r a' where r: "falloc (pool s) = Some (r, a')"
    "case r of None \<Rightarrow> held a' F | Some p \<Rightarrow> p \<in> memory (pool s) - F \<and> 4096 dvd p \<and> p < 2 ^ 52 \<and> held a' (insert p F)"
    using alloc_fresh [OF held] by blast
  show ?thesis
  proof (cases r)
    case None
    then show ?thesis
      using r by (simp add: vm_new_def same_cpu_def)
  next
    case (Some p)
    let ?m = "copy_kernel_half X p (kernel_root s) (zero_table X p (tables s))"
    have "x_entry X ?m p i = Unused" if "i < 256" for i
      using that unfolding copy_kernel_half_def zero_table_def copy_entries [OF X] zero_entries [OF X] set_upt by simp
    then have "twf ?m p {p}" "view ?m p = (\<lambda>_. None)"
      using crate_okD(7) [OF X] by auto
    then show ?thesis
      using r Some kr by (auto simp: vm_new_def same_cpu_def vm_inv_def)
  qed
qed

lemma free_all_ok:
  "held a (F \<union> set xs) \<Longrightarrow> distinct xs \<Longrightarrow> set xs \<inter> F = {} \<Longrightarrow> \<exists>a'. free_all (\<lambda>pa a. ffree a pa) xs a = Some a' \<and> held a' F"
proof (induction xs arbitrary: a)
  case (Cons x xs)
  obtain a1 where a1: "ffree a x = Some a1" "held a1 (F \<union> set (x # xs) - {x})"
    using free_held [OF Cons.prems(1), of x] by auto
  moreover have "F \<union> set (x # xs) - {x} = F \<union> set xs"
    using Cons.prems(2,3) by auto
  ultimately show ?case
    using Cons.IH [of a1] Cons.prems(2,3) by auto
qed simp

lemma vm_drop_ok:
  assumes "vm_inv held view twf F T v s" "cr3 s \<noteq> root_pa v"
  shows "\<exists>s'. vm_drop ffree v s = Some s' \<and> held (pool s') F \<and> same_cpu s s'"
  using free_all_ok [of "pool s" F "rev (owned v)"] vm_invD(1-3) [OF assms(1)] assms(2) by (auto simp: vm_drop_def same_cpu_def)

end

end
