(* ===== verification/Elf.thy ===== *)
theory Elf
  imports Qunix_Prelude
begin

text \<open>
  The ELF64 loader's parser, crate \<open>qunix-elf\<close> (\<open>crates/qunix-elf/src/lib.rs\<close>): header
  validation, validation of every program header, and extraction of the loadable
  segments. Every slice access of the source is a bounds-checked \<open>slice_of\<close> here, so
  an out-of-bounds read is the value \<open>None\<close>; the lemmas show that no input file
  reaches it, that the parser accepts exactly the well-formed files, and that the
  segments it yields are in bounds.
\<close>

section \<open>Model\<close>

datatype elf_error =
    TooShort
  | BadMagic
  | NotElf64
  | NotX86_64
  | NotExecutable
  | BadProgramHeader
  | SegmentTooLarge

definition ELF_MAGIC :: bytes where "ELF_MAGIC = [0x7f, 0x45, 0x4c, 0x46]"
definition ELFCLASS64 :: u8 where "ELFCLASS64 = 2"
definition ELFDATA2LSB :: u8 where "ELFDATA2LSB = 1"
definition EV_CURRENT :: u8 where "EV_CURRENT = 1"
definition ET_EXEC :: u16 where "ET_EXEC = 2"
definition EM_X86_64 :: u16 where "EM_X86_64 = 62"
definition PT_LOAD :: u32 where "PT_LOAD = 1"
definition PF_X :: u32 where "PF_X = 1"
definition PF_W :: u32 where "PF_W = 2"

lemmas elf_consts = ELF_MAGIC_def ELFCLASS64_def ELFDATA2LSB_def EV_CURRENT_def ET_EXEC_def
  EM_X86_64_def PT_LOAD_def PF_X_def PF_W_def

definition ehdr_TYPE :: usize where "ehdr_TYPE = 16"
definition ehdr_MACHINE :: usize where "ehdr_MACHINE = 18"
definition ehdr_ENTRY :: usize where "ehdr_ENTRY = 24"
definition ehdr_PHOFF :: usize where "ehdr_PHOFF = 32"
definition ehdr_PHENTSIZE :: usize where "ehdr_PHENTSIZE = 54"
definition ehdr_PHNUM :: usize where "ehdr_PHNUM = 56"
definition ehdr_SIZE :: usize where "ehdr_SIZE = 64"

definition phdr_TYPE :: usize where "phdr_TYPE = 0"
definition phdr_FLAGS :: usize where "phdr_FLAGS = 4"
definition phdr_OFFSET :: usize where "phdr_OFFSET = 8"
definition phdr_VADDR :: usize where "phdr_VADDR = 16"
definition phdr_FILESZ :: usize where "phdr_FILESZ = 32"
definition phdr_MEMSZ :: usize where "phdr_MEMSZ = 40"
definition phdr_SIZE :: usize where "phdr_SIZE = 56"

lemmas elf_offsets = ehdr_TYPE_def ehdr_MACHINE_def ehdr_ENTRY_def ehdr_PHOFF_def
  ehdr_PHENTSIZE_def ehdr_PHNUM_def ehdr_SIZE_def phdr_TYPE_def phdr_FLAGS_def phdr_OFFSET_def
  phdr_VADDR_def phdr_FILESZ_def phdr_MEMSZ_def phdr_SIZE_def

record segment =
  seg_vaddr :: u64
  seg_mem_size :: u64
  seg_data :: bytes
  seg_writable :: bool
  seg_executable :: bool

definition zero_fill :: "segment \<Rightarrow> u64" where
  "zero_fill s = saturating_sub (seg_mem_size s) (word_of_nat (length (seg_data s)))"

record elf64 =
  elf_bytes :: bytes
  elf_entry :: u64
  elf_phoff :: usize
  elf_phentsize :: usize
  elf_phnum :: usize

definition read_u16 :: "bytes \<Rightarrow> usize \<Rightarrow> u16 run" where
  "read_u16 bs at = map_option from_le_bytes (slice_of at (at + 2) bs)"

definition read_u32 :: "bytes \<Rightarrow> usize \<Rightarrow> u32 run" where
  "read_u32 bs at = map_option from_le_bytes (slice_of at (at + 4) bs)"

definition read_u64 :: "bytes \<Rightarrow> usize \<Rightarrow> u64 run" where
  "read_u64 bs at = map_option from_le_bytes (slice_of at (at + 8) bs)"

text \<open>The kernel is built without overflow checks in release, so the address
  computation of \<open>header\<close> wraps at the width of \<open>usize\<close>.\<close>

definition header :: "elf64 \<Rightarrow> usize \<Rightarrow> bytes run" where
  "header e i =
     (let start = (elf_phoff e + i * elf_phentsize e) mod 2 ^ 64
      in slice_of start ((start + phdr_SIZE) mod 2 ^ 64) (elf_bytes e))"

definition validate_segment :: "elf64 \<Rightarrow> usize \<Rightarrow> (elf_error + unit) run" where
  "validate_segment e i = do {
     h \<leftarrow> header e i;
     ty \<leftarrow> read_u32 h phdr_TYPE;
     if ty \<noteq> PT_LOAD then Some (Inr ()) else do {
       offset \<leftarrow> read_u64 h phdr_OFFSET;
       filesz \<leftarrow> read_u64 h phdr_FILESZ;
       memsz \<leftarrow> read_u64 h phdr_MEMSZ;
       if memsz < filesz then Some (Inl SegmentTooLarge)
       else case usize_checked_add (unat offset) (unat filesz) of
         None \<Rightarrow> Some (Inl BadProgramHeader)
       | Some end \<Rightarrow>
           if length (elf_bytes e) < end then Some (Inl BadProgramHeader)
           else do {
             vaddr \<leftarrow> read_u64 h phdr_VADDR;
             (case checked_add vaddr memsz of
                None \<Rightarrow> Some (Inl BadProgramHeader)
              | Some _ \<Rightarrow> Some (Inr ()))
           }
     }
   }"

fun validate_segments :: "elf64 \<Rightarrow> usize list \<Rightarrow> (elf_error + unit) run" where
  "validate_segments e [] = Some (Inr ())"
| "validate_segments e (i # is) = do {
     r \<leftarrow> validate_segment e i;
     (case r of Inl err \<Rightarrow> Some (Inl err) | Inr _ \<Rightarrow> validate_segments e is)
   }"

definition parse_table :: "bytes \<Rightarrow> (elf_error + elf64) run" where
  "parse_table bs = do {
     entry \<leftarrow> read_u64 bs ehdr_ENTRY;
     phoff \<leftarrow> read_u64 bs ehdr_PHOFF;
     phentsize \<leftarrow> read_u16 bs ehdr_PHENTSIZE;
     phnum \<leftarrow> read_u16 bs ehdr_PHNUM;
     if unat phentsize < phdr_SIZE then Some (Inl BadProgramHeader)
     else case usize_checked_mul (unat phnum) (unat phentsize) of
       None \<Rightarrow> Some (Inl BadProgramHeader)
     | Some table_len \<Rightarrow>
         (case usize_checked_add (unat phoff) table_len of
            None \<Rightarrow> Some (Inl BadProgramHeader)
          | Some table_end \<Rightarrow>
              if length bs < table_end then Some (Inl BadProgramHeader)
              else
                let elf = \<lparr>elf_bytes = bs, elf_entry = entry, elf_phoff = unat phoff,
                  elf_phentsize = unat phentsize, elf_phnum = unat phnum\<rparr>
                in do {
                  r \<leftarrow> validate_segments elf [0..<unat phnum];
                  (case r of Inl err \<Rightarrow> Some (Inl err) | Inr _ \<Rightarrow> Some (Inr elf))
                })
   }"

definition parse :: "bytes \<Rightarrow> (elf_error + elf64) run" where
  "parse bs =
     (if length bs < ehdr_SIZE then Some (Inl TooShort)
      else do {
        magic \<leftarrow> slice_of 0 4 bs;
        if magic \<noteq> ELF_MAGIC then Some (Inl BadMagic)
        else do {
          b4 \<leftarrow> index bs 4;
          b5 \<leftarrow> index bs 5;
          b6 \<leftarrow> index bs 6;
          if b4 \<noteq> ELFCLASS64 \<or> b5 \<noteq> ELFDATA2LSB \<or> b6 \<noteq> EV_CURRENT then Some (Inl NotElf64)
          else do {
            machine \<leftarrow> read_u16 bs ehdr_MACHINE;
            if machine \<noteq> EM_X86_64 then Some (Inl NotX86_64)
            else do {
              ty \<leftarrow> read_u16 bs ehdr_TYPE;
              if ty \<noteq> ET_EXEC then Some (Inl NotExecutable) else parse_table bs
            }
          }
        }
      })"

definition segment_at :: "elf64 \<Rightarrow> usize \<Rightarrow> segment option run" where
  "segment_at e i = do {
     h \<leftarrow> header e i;
     ty \<leftarrow> read_u32 h phdr_TYPE;
     if ty \<noteq> PT_LOAD then Some None else do {
       flags \<leftarrow> read_u32 h phdr_FLAGS;
       offset \<leftarrow> read_u64 h phdr_OFFSET;
       filesz \<leftarrow> read_u64 h phdr_FILESZ;
       vaddr \<leftarrow> read_u64 h phdr_VADDR;
       memsz \<leftarrow> read_u64 h phdr_MEMSZ;
       data \<leftarrow> slice_of (unat offset) ((unat offset + unat filesz) mod 2 ^ 64) (elf_bytes e);
       Some (Some \<lparr>seg_vaddr = vaddr, seg_mem_size = memsz, seg_data = data,
         seg_writable = (flags AND PF_W \<noteq> 0), seg_executable = (flags AND PF_X \<noteq> 0)\<rparr>)
     }
   }"

fun segments_from :: "elf64 \<Rightarrow> usize list \<Rightarrow> segment list run" where
  "segments_from e [] = Some []"
| "segments_from e (i # is) = do {
     s \<leftarrow> segment_at e i;
     ss \<leftarrow> segments_from e is;
     Some (case s of None \<Rightarrow> ss | Some x \<Rightarrow> x # ss)
   }"

definition segments :: "elf64 \<Rightarrow> segment list run" where
  "segments e = segments_from e [0..<elf_phnum e]"

section \<open>Specification: well-formed files\<close>

text \<open>The little-endian field of \<open>n\<close> bytes at an offset, and the condition a file must meet,
  stated on the file's bytes alone.\<close>

definition field :: "bytes \<Rightarrow> usize \<Rightarrow> nat \<Rightarrow> nat" where
  "field bs off n = le_nat (take n (drop off bs))"

definition phdr_at :: "bytes \<Rightarrow> usize \<Rightarrow> usize" where
  "phdr_at bs i = field bs 32 8 + i * field bs 54 2"

definition load_fits :: "bytes \<Rightarrow> usize \<Rightarrow> bool" where
  "load_fits bs p \<longleftrightarrow>
     field bs (p + 8) 8 + field bs (p + 32) 8 \<le> length bs \<and>
     field bs (p + 16) 8 + field bs (p + 40) 8 < 2 ^ 64"

definition load_ok :: "bytes \<Rightarrow> usize \<Rightarrow> bool" where
  "load_ok bs p \<longleftrightarrow> field bs p 4 = 1 \<longrightarrow> field bs (p + 32) 8 \<le> field bs (p + 40) 8 \<and> load_fits bs p"

definition elf_wf :: "bytes \<Rightarrow> bool" where
  "elf_wf bs \<longleftrightarrow>
     64 \<le> length bs \<and> take 4 bs = [0x7f, 0x45, 0x4c, 0x46] \<and>
     bs ! 4 = 2 \<and> bs ! 5 = 1 \<and> bs ! 6 = 1 \<and>
     field bs 18 2 = 62 \<and> field bs 16 2 = 2 \<and> 56 \<le> field bs 54 2 \<and>
     field bs 32 8 + field bs 56 2 * field bs 54 2 \<le> length bs \<and>
     (\<forall>i < field bs 56 2. load_ok bs (phdr_at bs i))"

text \<open>What the segment at program header \<open>p\<close> must be.\<close>

definition segment_spec :: "bytes \<Rightarrow> usize \<Rightarrow> segment" where
  "segment_spec bs p =
     \<lparr>seg_vaddr = word_of_nat (field bs (p + 16) 8), seg_mem_size = word_of_nat (field bs (p + 40) 8),
      seg_data = take (field bs (p + 32) 8) (drop (field bs (p + 8) 8) bs),
      seg_writable = bit (field bs (p + 4) 4) 1, seg_executable = bit (field bs (p + 4) 4) 0\<rparr>"

section \<open>Reads\<close>

lemma field_bound: "field bs off n < 256 ^ n"
proof -
  have "field bs off n < 256 ^ length (take n (drop off bs))"
    unfolding field_def by (rule le_nat_bound)
  also have "\<dots> \<le> 256 ^ n"
    by (rule power_increasing) auto
  finally show ?thesis .
qed

lemma read_eqs:
  "read_u16 bs at = (if at + 2 \<le> length bs then Some (word_of_nat (field bs at 2)) else None)"
  "read_u32 bs at = (if at + 4 \<le> length bs then Some (word_of_nat (field bs at 4)) else None)"
  "read_u64 bs at = (if at + 8 \<le> length bs then Some (word_of_nat (field bs at 8)) else None)"
  by (simp_all add: read_u16_def read_u32_def read_u64_def slice_of_def field_def from_le_bytes_def)

lemma unat_field [simp]:
  "unat (word_of_nat (field bs off 2) :: u16) = field bs off 2"
  "unat (word_of_nat (field bs off 4) :: u32) = field bs off 4"
  "unat (word_of_nat (field bs off 8) :: u64) = field bs off 8"
  using field_bound [of bs off 2] field_bound [of bs off 4] field_bound [of bs off 8]
  by (simp_all add: unat_of_nat)

lemma field_eq_16: "(word_of_nat (field bs off 2) = (w :: u16)) \<longleftrightarrow> field bs off 2 = unat w"
  by (metis unat_field(1) word_of_nat_unat)

lemma field_eq_32: "(word_of_nat (field bs off 4) = (w :: u32)) \<longleftrightarrow> field bs off 4 = unat w"
  by (metis unat_field(2) word_of_nat_unat)

lemma field_slice:
  assumes "slice_of a b bs = Some h" "off + n \<le> b - a"
  shows "field h off n = field bs (a + off) n"
proof -
  have "slice_of off (off + n) h = slice_of (a + off) (a + (off + n)) bs"
    by (rule slice_slice [OF assms(1)]) (use assms(2) in auto)
  moreover have "a + (off + n) \<le> length bs" "off + n \<le> length h"
    using assms slice_length [OF assms(1)] by (auto simp: slice_Some)
  ultimately show ?thesis
    by (simp add: slice_of_def field_def add.assoc)
qed

section \<open>Headers and segments of an accepted table\<close>

definition table_ok :: "elf64 \<Rightarrow> bool" where
  "table_ok e \<longleftrightarrow> 56 \<le> elf_phentsize e \<and>
     elf_phoff e + elf_phnum e * elf_phentsize e < 2 ^ 64 \<and>
     elf_phoff e + elf_phnum e * elf_phentsize e \<le> length (elf_bytes e)"

definition elf_phdr :: "elf64 \<Rightarrow> usize \<Rightarrow> usize" where
  "elf_phdr e i = elf_phoff e + i * elf_phentsize e"

lemma phdr_in_table:
  assumes "table_ok e" "i < elf_phnum e"
  shows "elf_phdr e i + 56 \<le> length (elf_bytes e)" "elf_phdr e i + 56 < 2 ^ 64"
proof -
  have "elf_phdr e i + 56 \<le> elf_phoff e + Suc i * elf_phentsize e"
    using assms(1) by (simp add: elf_phdr_def table_ok_def)
  also have "\<dots> \<le> elf_phoff e + elf_phnum e * elf_phentsize e"
    using assms(2) by (intro add_left_mono mult_le_mono1) simp
  finally have le: "elf_phdr e i + 56 \<le> elf_phoff e + elf_phnum e * elf_phentsize e" .
  then show "elf_phdr e i + 56 \<le> length (elf_bytes e)" "elf_phdr e i + 56 < 2 ^ 64"
    using assms(1) by (simp_all add: table_ok_def)
qed

lemma header_in_table:
  assumes "table_ok e" "i < elf_phnum e"
  shows "\<exists>h. header e i = Some h \<and> length h = 56 \<and>
    slice_of (elf_phdr e i) (elf_phdr e i + 56) (elf_bytes e) = Some h"
proof -
  note b = phdr_in_table [OF assms]
  have "header e i = slice_of (elf_phdr e i) (elf_phdr e i + 56) (elf_bytes e)"
    using b(2) by (simp add: header_def elf_phdr_def phdr_SIZE_def Let_def)
  then show ?thesis
    using b(1) by (auto simp: slice_of_def)
qed

lemma validate_segment_in_table:
  assumes "table_ok e" "i < elf_phnum e" "length (elf_bytes e) < 2 ^ 64"
  shows "validate_segment e i =
    Some (if load_ok (elf_bytes e) (elf_phdr e i) then Inr ()
          else if field (elf_bytes e) (elf_phdr e i + 40) 8 < field (elf_bytes e) (elf_phdr e i + 32) 8
          then Inl SegmentTooLarge else Inl BadProgramHeader)"
proof -
  obtain h where h: "header e i = Some h" "length h = 56"
    and sl: "slice_of (elf_phdr e i) (elf_phdr e i + 56) (elf_bytes e) = Some h"
    using header_in_table [OF assms(1,2)] by blast
  note f = field_slice [OF sl]
  show ?thesis
    using h assms(3)
    by (auto simp: validate_segment_def read_eqs elf_offsets elf_consts f field_eq_32 load_ok_def
        load_fits_def word_less_nat_alt usize_checked_add_def checked_add_def)
qed

lemma segment_at_in_table:
  assumes "table_ok e" "i < elf_phnum e" "length (elf_bytes e) < 2 ^ 64"
    and "load_ok (elf_bytes e) (elf_phdr e i)"
  shows "segment_at e i =
    Some (if field (elf_bytes e) (elf_phdr e i) 4 = 1
          then Some (segment_spec (elf_bytes e) (elf_phdr e i)) else None)"
proof -
  obtain h where h: "header e i = Some h" "length h = 56"
    and sl: "slice_of (elf_phdr e i) (elf_phdr e i + 56) (elf_bytes e) = Some h"
    using header_in_table [OF assms(1,2)] by blast
  note f = field_slice [OF sl]
  have flag: "(word_of_nat n AND 2 \<noteq> (0 :: u32)) = bit n 1" "(word_of_nat n AND 1 \<noteq> (0 :: u32)) = bit n 0" for n
    using and_exp_eq_0_iff_not_bit [of "word_of_nat n :: u32" 1] and_exp_eq_0_iff_not_bit [of "word_of_nat n :: u32" 0]
    by (simp_all add: bit_word_of_nat)
  show ?thesis
    using h assms(3,4) flag
    by (auto simp: segment_at_def read_eqs elf_offsets elf_consts f field_eq_32 load_ok_def
        load_fits_def segment_spec_def slice_of_def)
qed

section \<open>The whole file\<close>

definition elf_of :: "bytes \<Rightarrow> elf64" where
  "elf_of bs = \<lparr>elf_bytes = bs, elf_entry = word_of_nat (field bs 24 8), elf_phoff = field bs 32 8,
     elf_phentsize = field bs 54 2, elf_phnum = field bs 56 2\<rparr>"

lemma elf_of_simps [simp]:
  "elf_bytes (elf_of bs) = bs" "elf_phnum (elf_of bs) = field bs 56 2"
  "elf_phdr (elf_of bs) = phdr_at bs"
  by (simp_all add: elf_of_def elf_phdr_def phdr_at_def fun_eq_iff)

lemma validate_segments_in_table:
  assumes "table_ok e" "length (elf_bytes e) < 2 ^ 64" "\<forall>i \<in> set is. i < elf_phnum e"
  shows "if \<forall>i \<in> set is. load_ok (elf_bytes e) (elf_phdr e i)
    then validate_segments e is = Some (Inr ())
    else \<exists>err. validate_segments e is = Some (Inl err)"
  using assms(3) by (induction "is") (auto simp: validate_segment_in_table [OF assms(1) _ assms(2)])

lemma table_in_file:
  assumes "elf_wf bs" "length bs < 2 ^ 64"
  shows "table_ok (elf_of bs)"
  using assms by (simp add: elf_wf_def table_ok_def elf_of_def)

lemma parse_table_eq:
  assumes "64 \<le> length bs" "length bs < 2 ^ 64"
  shows "if 56 \<le> field bs 54 2 \<and> field bs 32 8 + field bs 56 2 * field bs 54 2 \<le> length bs \<and>
      (\<forall>i < field bs 56 2. load_ok bs (phdr_at bs i))
    then parse_table bs = Some (Inr (elf_of bs))
    else \<exists>err. parse_table bs = Some (Inl err)"
proof (cases "56 \<le> field bs 54 2 \<and> field bs 32 8 + field bs 56 2 * field bs 54 2 \<le> length bs")
  case True
  then have "table_ok (elf_of bs)"
    using assms(2) by (simp add: table_ok_def elf_of_def)
  from validate_segments_in_table [OF this, of "[0..<field bs 56 2]"] True assms show ?thesis
    by (auto simp: parse_table_def read_eqs elf_offsets usize_checked_add_def usize_checked_mul_def
        Let_def split: if_splits simp flip: elf_of_def)
next
  case False
  then show ?thesis
    using assms
    by (auto simp: parse_table_def read_eqs elf_offsets usize_checked_add_def usize_checked_mul_def)
qed

lemma parse_eq:
  assumes "length bs < 2 ^ 64"
  shows "if elf_wf bs then parse bs = Some (Inr (elf_of bs)) else \<exists>err. parse bs = Some (Inl err)"
  using parse_table_eq [OF _ assms]
  by (auto simp: parse_def elf_wf_def read_eqs elf_offsets elf_consts slice_of_def index_def field_eq_16
      split: if_splits)

lemma parse_accepted:
  assumes "length bs < 2 ^ 64" "parse bs = Some (Inr e)"
  shows "elf_wf bs" "e = elf_of bs"
  using parse_eq [OF assms(1)] assms(2) by (auto split: if_splits)

lemma segments_from_in_table:
  assumes "table_ok e" "length (elf_bytes e) < 2 ^ 64"
    and "\<forall>i \<in> set is. i < elf_phnum e \<and> load_ok (elf_bytes e) (elf_phdr e i)"
  shows "segments_from e is = Some (map (segment_spec (elf_bytes e))
    (filter (\<lambda>p. field (elf_bytes e) p 4 = 1) (map (elf_phdr e) is)))"
  using assms(3) by (induction "is") (auto simp: segment_at_in_table [OF assms(1) _ assms(2)])

lemma segments_elf_of:
  assumes "elf_wf bs" "length bs < 2 ^ 64"
  shows "segments (elf_of bs) = Some (map (segment_spec bs)
    (filter (\<lambda>p. field bs p 4 = 1) (map (phdr_at bs) [0..<field bs 56 2])))"
  using segments_from_in_table [OF table_in_file [OF assms], of "[0..<field bs 56 2]"] assms
  by (auto simp: segments_def elf_wf_def comp_def)

lemma segment_spec_bounds:
  assumes "load_ok bs p" "field bs p 4 = 1" "s = segment_spec bs p"
  shows "length (seg_data s) \<le> unat (seg_mem_size s)"
    and "unat (seg_vaddr s) + unat (seg_mem_size s) < 2 ^ 64"
    and "\<exists>pre post. bs = pre @ seg_data s @ post"
proof -
  show "length (seg_data s) \<le> unat (seg_mem_size s)"
    and "unat (seg_vaddr s) + unat (seg_mem_size s) < 2 ^ 64"
    using assms by (auto simp: segment_spec_def load_ok_def load_fits_def)
  have "bs = take (field bs (p + 8) 8) bs @ seg_data s @
    drop (field bs (p + 32) 8) (drop (field bs (p + 8) 8) bs)"
    by (simp only: assms(3) segment_spec_def segment.simps append_take_drop_id)
  then show "\<exists>pre post. bs = pre @ seg_data s @ post" by blast
qed

section \<open>Properties\<close>


text \<open>C14: iterating the segments of an accepted file cannot fail either: it yields, in file
  order, exactly the \<open>PT_LOAD\<close> headers, and every segment's file image is a piece of the file
  that fits the memory it reserves, with the rest (the \<open>.bss\<close>) reported by \<open>zero_fill\<close>, at a
  virtual range that does not wrap.\<close>

theorem segments_of_accepted_file:
  assumes "length bs < 2 ^ 64" "parse bs = Some (Inr e)"
  shows "\<exists>ss. segments e = Some ss \<and>
    ss = map (segment_spec bs)
      (filter (\<lambda>p. field bs p 4 = 1) (map (phdr_at bs) [0..<field bs 56 2])) \<and>
    (\<forall>s \<in> set ss.
      length (seg_data s) + unat (zero_fill s) = unat (seg_mem_size s) \<and>
      unat (seg_vaddr s) + unat (seg_mem_size s) < 2 ^ 64 \<and>
      (\<exists>pre post. bs = pre @ seg_data s @ post))"
proof -
  note wf = parse_accepted [OF assms]
  have bounds: "length (seg_data s) + unat (zero_fill s) = unat (seg_mem_size s) \<and>
      unat (seg_vaddr s) + unat (seg_mem_size s) < 2 ^ 64 \<and> (\<exists>pre post. bs = pre @ seg_data s @ post)"
    if "i < field bs 56 2" "field bs (phdr_at bs i) 4 = 1" "s = segment_spec bs (phdr_at bs i)" for i s
  proof -
    have "load_ok bs (phdr_at bs i)"
      using wf(1) that(1) by (simp add: elf_wf_def)
    note b = segment_spec_bounds [OF this that(2,3)]
    have "length (seg_data s) < 2 ^ 64"
      using b(1) unat_bound [of "seg_mem_size s"] by simp
    then show ?thesis
      using b by (simp add: zero_fill_def unat_saturating_sub unat_of_nat)
  qed
  show ?thesis
    using segments_elf_of [OF wf(1) assms(1)] wf(2) bounds by auto
qed

section \<open>Witnesses\<close>

text \<open>A minimal executable: one \<open>PT_LOAD\<close> segment of four bytes with eight bytes of memory.\<close>

definition minimal_elf :: bytes where
  "minimal_elf =
     [0x7f, 0x45, 0x4c, 0x46, 2, 1, 1, 0, 0, 0, 0, 0, 0, 0, 0, 0,
      2, 0, 62, 0, 1, 0, 0, 0, 0, 0, 0x40, 0, 0, 0, 0, 0,
      64, 0, 0, 0, 0, 0, 0, 0, 0, 0, 0, 0, 0, 0, 0, 0,
      0, 0, 0, 0, 64, 0, 56, 0, 1, 0, 0, 0, 0, 0, 0, 0,
      1, 0, 0, 0, 1, 0, 0, 0, 120, 0, 0, 0, 0, 0, 0, 0,
      0, 0, 0x40, 0, 0, 0, 0, 0, 0, 0, 0, 0, 0, 0, 0, 0,
      4, 0, 0, 0, 0, 0, 0, 0, 8, 0, 0, 0, 0, 0, 0, 0,
      0, 0, 0, 0, 0, 0, 0, 0, 0x90, 0x90, 0x90, 0x90]"

lemma minimal_elf_wf: "length minimal_elf = 124" "elf_wf minimal_elf"
  by (simp_all add: minimal_elf_def elf_wf_def field_def phdr_at_def load_ok_def load_fits_def)


theorem segments_of_accepted_file_witness:
  "parse minimal_elf = Some (Inr (elf_of minimal_elf)) \<and>
   segments (elf_of minimal_elf) =
     Some [\<lparr>seg_vaddr = 0x400000, seg_mem_size = 8, seg_data = [0x90, 0x90, 0x90, 0x90],
       seg_writable = False, seg_executable = True\<rparr>]"
proof -
  have p: "parse minimal_elf = Some (Inr (elf_of minimal_elf))"
    using parse_eq [of minimal_elf] minimal_elf_wf by simp
  have f: "field minimal_elf 56 2 = 1" "phdr_at minimal_elf 0 = 64" "field minimal_elf 64 4 = 1"
    by (simp_all add: minimal_elf_def field_def phdr_at_def)
  have s: "segment_spec minimal_elf 64 = \<lparr>seg_vaddr = 0x400000, seg_mem_size = 8,
      seg_data = [0x90, 0x90, 0x90, 0x90], seg_writable = False, seg_executable = True\<rparr>"
    by (simp add: minimal_elf_def field_def segment_spec_def bit_0)
  show ?thesis
    using segments_of_accepted_file [OF _ p] minimal_elf_wf(1) p f s by simp
qed

end
