(* ===== verification/Process.thy ===== *)
theory Process
  imports Vmspace Elf
begin

text \<open>
  Loading a program, \<open>kernel/src/process.rs\<close>: the page range of a segment, and \<open>from_elf\<close> with its passes in the order of
  the code (validate every segment, map and copy, combine permissions per page, apply them, map the stack). An early
  return drops the address space, so every error path goes through \<open>vm_drop\<close>.
\<close>

section \<open>Model\<close>

datatype load_error =
    Load_Elf elf_error
  | Load_OutOfMemory
  | Load_BadAddress
  | Load_NotUserAddress nat
  | Load_WriteExecutePage nat
  | Load_Map map_error

definition USER_TEXT :: nat where "USER_TEXT = 0x400000"
definition USER_STACK_TOP :: nat where "USER_STACK_TOP = 0x7fff00000000"
definition USER_STACK_PAGES :: nat where "USER_STACK_PAGES = 4"

record process =
  p_space :: vmspace
  p_entry :: u64
  p_stack_top :: nat

definition segment_pages :: "segment \<Rightarrow> load_error + nat \<times> nat" where
  "segment_pages seg =
     (let vaddr = unat (seg_vaddr seg); start = align_down vaddr 4096 in
      case Option.bind (usize_checked_add vaddr (unat (seg_mem_size seg))) (\<lambda>e. u64_checked_next_multiple_of e 4096) of
        None \<Rightarrow> Inl Load_BadAddress
      | Some e \<Rightarrow>
          if e > USER_MAX then Inl (Load_NotUserAddress vaddr)
          else if start < USER_MIN then Inl (Load_NotUserAddress vaddr)
          else Inr (start, e))"

text \<open>\<open>(start..end).step_by(4096)\<close>\<close>

definition step_pages :: "nat \<times> nat \<Rightarrow> nat list" where
  "step_pages r = map (\<lambda>i. fst r + 4096 * i) [0..<(snd r - fst r + 4095) div 4096]"

fun validate_all :: "segment list \<Rightarrow> load_error + unit" where
  "validate_all [] = Inr ()"
| "validate_all (seg # segs) = (case segment_pages seg of Inl e \<Rightarrow> Inl e | Inr _ \<Rightarrow> validate_all segs)"

fun map_pages :: "('m, 'a) xvm \<Rightarrow> ('a \<Rightarrow> (nat option \<times> 'a) run) \<Rightarrow> nat list \<Rightarrow> vmspace \<Rightarrow> ('m, 'a) kmem \<Rightarrow>
    ((load_error + unit) \<times> vmspace \<times> ('m, 'a) kmem) run" where
  "map_pages X falloc [] v s = Some (Inr (), v, s)"
| "map_pages X falloc (va # vas) v s = do {
     mapped \<leftarrow> is_mapped X va v s;
     if mapped then map_pages X falloc vas v s
     else do {
       (r, v, s) \<leftarrow> map_new_page X falloc va True True v s;
       (case r of Inl e \<Rightarrow> Some (Inl (Load_Map e), v, s) | Inr _ \<Rightarrow> map_pages X falloc vas v s) } }"

definition blit :: "nat \<Rightarrow> bytes \<Rightarrow> (nat \<Rightarrow> u8) \<Rightarrow> nat \<Rightarrow> u8" where
  "blit pa bs r = (\<lambda>a. if pa \<le> a \<and> a < pa + length bs then bs ! (a - pa) else r a)"

function copy_data :: "('m, 'f) x86 \<Rightarrow> nat \<Rightarrow> bytes \<Rightarrow> nat \<Rightarrow> vmspace \<Rightarrow> ('m, 'a) kmem \<Rightarrow> ((load_error + unit) \<times> ('m, 'a) kmem) run" where
  "copy_data X vaddr data copied v s =
     (if copied < length data then do {
        va \<leftarrow> add64 vaddr copied;
        t \<leftarrow> vm_translate X va v s;
        (case t of
           None \<Rightarrow> Some (Inl Load_BadAddress, s)
         | Some pa \<Rightarrow> do {
             let in_page = 4096 - va mod 4096;
             let n = min in_page (length data - copied);
             bs \<leftarrow> slice_of copied (copied + n) data;
             copy_data X vaddr data (copied + n) v (s\<lparr>ram := blit pa bs (ram s)\<rparr>) }) }
      else Some (Inr (), s))"
  by pat_completeness auto
termination
  by (relation "measure (\<lambda>(X, vaddr, data, copied, v, s). length data - copied)") (auto simp: min_def)

declare copy_data.simps [simp del]

fun load_segments :: "('m, 'a) xvm \<Rightarrow> ('a \<Rightarrow> (nat option \<times> 'a) run) \<Rightarrow> segment list \<Rightarrow> vmspace \<Rightarrow> ('m, 'a) kmem \<Rightarrow>
    ((load_error + unit) \<times> vmspace \<times> ('m, 'a) kmem) run" where
  "load_segments X falloc [] v s = Some (Inr (), v, s)"
| "load_segments X falloc (seg # segs) v s =
     (case segment_pages seg of
        Inl e \<Rightarrow> Some (Inl e, v, s)
      | Inr rng \<Rightarrow> do {
          (r, v, s) \<leftarrow> map_pages X falloc (step_pages rng) v s;
          (case r of
             Inl e \<Rightarrow> Some (Inl e, v, s)
           | Inr _ \<Rightarrow> do {
               (r, s) \<leftarrow> copy_data X (unat (seg_vaddr seg)) (seg_data seg) 0 v s;
               (case r of Inl e \<Rightarrow> Some (Inl e, v, s) | Inr _ \<Rightarrow> load_segments X falloc segs v s) }) })"

text \<open>The permissions of every page: a \<open>BTreeMap\<close>, whose iteration order is that of the keys.\<close>

type_synonym page_perms = "(nat \<times> bool \<times> bool) list"

fun add_perm :: "nat \<Rightarrow> bool \<Rightarrow> bool \<Rightarrow> page_perms \<Rightarrow> page_perms" where
  "add_perm va w x [] = [(va, w, x)]"
| "add_perm va w x ((k, kw, kx) # ps) =
     (if va < k then (va, w, x) # (k, kw, kx) # ps
      else if va = k then (k, kw \<or> w, kx \<or> x) # ps
      else (k, kw, kx) # add_perm va w x ps)"

fun collect_perms :: "segment list \<Rightarrow> page_perms \<Rightarrow> load_error + page_perms" where
  "collect_perms [] ps = Inr ps"
| "collect_perms (seg # segs) ps =
     (case segment_pages seg of
        Inl e \<Rightarrow> Inl e
      | Inr rng \<Rightarrow> collect_perms segs (fold (\<lambda>va. add_perm va (seg_writable seg) (seg_executable seg)) (step_pages rng) ps))"

fun apply_perms :: "('m, 'a) xvm \<Rightarrow> ('a \<Rightarrow> (nat option \<times> 'a) run) \<Rightarrow> page_perms \<Rightarrow> vmspace \<Rightarrow> ('m, 'a) kmem \<Rightarrow>
    ((load_error + unit) \<times> vmspace \<times> ('m, 'a) kmem) run" where
  "apply_perms X falloc [] v s = Some (Inr (), v, s)"
| "apply_perms X falloc ((va, w, x) # ps) v s =
     (if w \<and> x then Some (Inl (Load_WriteExecutePage va), v, s)
      else do {
        (r, v, s) \<leftarrow> set_permissions X falloc va w x v s;
        (case r of Inl e \<Rightarrow> Some (Inl (Load_Map e), v, s) | Inr _ \<Rightarrow> apply_perms X falloc ps v s) })"

fun map_stack :: "('m, 'a) xvm \<Rightarrow> ('a \<Rightarrow> (nat option \<times> 'a) run) \<Rightarrow> nat list \<Rightarrow> vmspace \<Rightarrow> ('m, 'a) kmem \<Rightarrow>
    ((load_error + unit) \<times> vmspace \<times> ('m, 'a) kmem) run" where
  "map_stack X falloc [] v s = Some (Inr (), v, s)"
| "map_stack X falloc (page # pages) v s = do {
     (r, v, s) \<leftarrow> map_new_page X falloc (USER_STACK_TOP - (page + 1) * 4096) True False v s;
     (case r of Inl e \<Rightarrow> Some (Inl (Load_Map e), v, s) | Inr _ \<Rightarrow> map_stack X falloc pages v s) }"

text \<open>Everything \<open>from_elf\<close> does once it has an address space.\<close>

definition load_image :: "('m, 'a) xvm \<Rightarrow> ('a \<Rightarrow> (nat option \<times> 'a) run) \<Rightarrow> segment list \<Rightarrow> vmspace \<Rightarrow> ('m, 'a) kmem \<Rightarrow>
    ((load_error + unit) \<times> vmspace \<times> ('m, 'a) kmem) run" where
  "load_image X falloc segs v s =
     (case validate_all segs of
        Inl e \<Rightarrow> Some (Inl e, v, s)
      | Inr _ \<Rightarrow> do {
          (r, v, s) \<leftarrow> load_segments X falloc segs v s;
          (case r of
             Inl e \<Rightarrow> Some (Inl e, v, s)
           | Inr _ \<Rightarrow>
               (case collect_perms segs [] of
                  Inl e \<Rightarrow> Some (Inl e, v, s)
                | Inr perms \<Rightarrow> do {
                    (r, v, s) \<leftarrow> apply_perms X falloc perms v s;
                    (case r of Inl e \<Rightarrow> Some (Inl e, v, s) | Inr _ \<Rightarrow> map_stack X falloc [0..<USER_STACK_PAGES] v s) })) })"

definition from_elf :: "('m, 'a) xvm \<Rightarrow> ('a \<Rightarrow> (nat option \<times> 'a) run) \<Rightarrow> ('a \<Rightarrow> nat \<Rightarrow> 'a run) \<Rightarrow> bytes \<Rightarrow> ('m, 'a) kmem \<Rightarrow>
    ((load_error + process) \<times> ('m, 'a) kmem) run" where
  "from_elf X falloc ffree bs s = do {
     r \<leftarrow> parse bs;
     (case r of
        Inl e \<Rightarrow> Some (Inl (Load_Elf e), s)
      | Inr elf \<Rightarrow> do {
          (v, s) \<leftarrow> vm_new X falloc s;
          (case v of
             None \<Rightarrow> Some (Inl Load_OutOfMemory, s)
           | Some v \<Rightarrow> do {
               segs \<leftarrow> segments elf;
               (r, v, s) \<leftarrow> load_image X falloc segs v s;
               (case r of
                  Inl e \<Rightarrow> do { s \<leftarrow> vm_drop ffree v s; Some (Inl e, s) }
                | Inr _ \<Rightarrow> Some (Inr \<lparr>p_space = v, p_entry = elf_entry elf, p_stack_top = USER_STACK_TOP\<rparr>, s)) }) }) }"

section \<open>Specification\<close>

text \<open>The pages a segment touches, and the byte a program sees: the data of the last segment that has the address, or
  zero.\<close>

definition covers :: "segment \<Rightarrow> nat \<Rightarrow> bool" where
  "covers seg p \<longleftrightarrow> 4096 dvd p \<and> align_down (unat (seg_vaddr seg)) 4096 \<le> p \<and>
     p < next_multiple (unat (seg_vaddr seg) + unat (seg_mem_size seg)) 4096"

definition load_byte :: "nat \<Rightarrow> segment \<Rightarrow> u8 \<Rightarrow> u8" where
  "load_byte a seg old =
     (if unat (seg_vaddr seg) \<le> a \<and> a < unat (seg_vaddr seg) + length (seg_data seg)
      then seg_data seg ! (a - unat (seg_vaddr seg)) else old)"

definition image_byte :: "segment list \<Rightarrow> nat \<Rightarrow> u8" where
  "image_byte segs a = fold (load_byte a) segs 0"

definition stack_page :: "nat \<Rightarrow> bool" where
  "stack_page p \<longleftrightarrow> 4096 dvd p \<and> USER_STACK_TOP - 4 * 4096 \<le> p \<and> p < USER_STACK_TOP"

definition stack_va :: "nat \<Rightarrow> nat" where
  "stack_va i = USER_STACK_TOP - (i + 1) * 4096"

definition user_page :: "nat \<Rightarrow> bool" where
  "user_page p \<longleftrightarrow> 4096 dvd p \<and> USER_MIN \<le> p \<and> p < USER_MAX"

definition file_segments :: "bytes \<Rightarrow> segment list" where
  "file_segments bs = map (segment_spec bs) (filter (\<lambda>p. field bs p 4 = 1) (map (phdr_at bs) [0..<field bs 56 2]))"

section \<open>Page ranges\<close>

lemma segment_pages_Inr:
  assumes "segment_pages seg = Inr (a, e)"
  shows "a = align_down (unat (seg_vaddr seg)) 4096" "e = next_multiple (unat (seg_vaddr seg) + unat (seg_mem_size seg)) 4096"
    "4096 dvd a" "4096 dvd e" "USER_MIN \<le> a" "e \<le> USER_MAX" "unat (seg_vaddr seg) + unat (seg_mem_size seg) \<le> e" "a \<le> unat (seg_vaddr seg)"
proof -
  have "a = align_down (unat (seg_vaddr seg)) 4096 \<and> e = next_multiple (unat (seg_vaddr seg) + unat (seg_mem_size seg)) 4096 \<and>
      USER_MIN \<le> a \<and> e \<le> USER_MAX"
    using assms by (auto simp: segment_pages_def Let_def usize_checked_add_def u64_checked_next_multiple_of_def not_less split: if_splits option.splits)
  then show "a = align_down (unat (seg_vaddr seg)) 4096" "e = next_multiple (unat (seg_vaddr seg) + unat (seg_mem_size seg)) 4096"
    "4096 dvd a" "4096 dvd e" "USER_MIN \<le> a" "e \<le> USER_MAX" "unat (seg_vaddr seg) + unat (seg_mem_size seg) \<le> e" "a \<le> unat (seg_vaddr seg)"
    using next_multiple_ge next_multiple_dvd [of 4096] align_down_le by (auto simp: align_down_div)
qed

lemma set_step_pages:
  assumes "4096 dvd a" "4096 dvd e"
  shows "set (step_pages (a, e)) = {p. 4096 dvd p \<and> a \<le> p \<and> p < e}"
proof -
  obtain k l where kl: "a = 4096 * k" "e = 4096 * l"
    using assms by (auto elim!: dvdE)
  have n: "(e - a + 4095) div 4096 = l - k"
  proof (cases "k \<le> l")
    case True
    then have "e - a + 4095 = (l - k) * 4096 + 4095"
      by (simp add: kl diff_mult_distrib2)
    then show ?thesis by simp
  qed (simp add: kl)
  have "p \<in> (\<lambda>i. a + 4096 * i) ` {0..<l - k}" if p: "4096 dvd p" "a \<le> p" "p < e" for p
  proof -
    obtain j where "p = 4096 * j" using p(1) by (auto elim!: dvdE)
    then show ?thesis
      using p(2,3) by (intro image_eqI [of _ _ "j - k"]) (auto simp: kl diff_mult_distrib2)
  qed
  moreover have "set (step_pages (a, e)) = (\<lambda>i. a + 4096 * i) ` {0..<l - k}"
    by (simp add: step_pages_def n)
  moreover have "4096 dvd a + 4096 * i \<and> a + 4096 * i < e" if "i < l - k" for i
    using that assms(1) by (simp add: kl)
  ultimately show ?thesis by fastforce
qed

lemma step_pages_covers:
  assumes "segment_pages seg = Inr rng"
  shows "p \<in> set (step_pages rng) \<longleftrightarrow> covers seg p" "covers seg p \<Longrightarrow> user_page p"
proof -
  obtain a e where r: "rng = (a, e)" by (cases rng)
  note sp = segment_pages_Inr [OF assms [unfolded r]]
  show "p \<in> set (step_pages rng) \<longleftrightarrow> covers seg p"
    using sp(3,4) by (auto simp: r set_step_pages covers_def sp(1,2))
  show "covers seg p \<Longrightarrow> user_page p"
    using sp(5,6) by (auto simp: covers_def user_page_def sp(1,2))
qed

lemma validate_all_Inr: "validate_all segs = Inr () \<longleftrightarrow> (\<forall>seg \<in> set segs. \<exists>rng. segment_pages seg = Inr rng)"
  by (induction segs) (auto split: sum.splits)

section \<open>Permissions\<close>

lemma add_perm_map:
  assumes "sorted_wrt (<) (map fst ps)"
  shows "map_of (add_perm va w x ps) = (map_of ps)(va \<mapsto> (case map_of ps va of None \<Rightarrow> (w, x) | Some (w', x') \<Rightarrow> (w' \<or> w, x' \<or> x)))"
  using assms
proof (induction ps)
  case (Cons q ps)
  obtain k kw kx where q: "q = (k, kw, kx)" by (cases q)
  have "map_of ps va = None" if "va \<le> k"
    using Cons.prems that by (auto simp: q map_of_eq_None_iff)
  then show ?case
    using Cons by (auto simp: q fun_eq_iff)
qed simp

lemma add_perm_keys: "fst ` set (add_perm va w x ps) = insert va (fst ` set ps)"
  by (induction va w x ps rule: add_perm.induct) (simp_all add: insert_commute)

lemma add_perm_sorted: "sorted_wrt (<) (map fst ps) \<Longrightarrow> sorted_wrt (<) (map fst (add_perm va w x ps))"
proof (induction ps)
  case (Cons q ps)
  obtain k kw kx where q: "q = (k, kw, kx)" by (cases q)
  have "z \<in> fst ` set (add_perm va w x ps) \<Longrightarrow> z = va \<or> z \<in> fst ` set ps" for z
    by (simp add: add_perm_keys)
  then show ?case
    using Cons by (fastforce simp: q)
qed simp

definition perm_or :: "bool \<Rightarrow> bool \<Rightarrow> (bool \<times> bool) option \<Rightarrow> bool \<times> bool" where
  "perm_or w x p = (case p of None \<Rightarrow> (w, x) | Some (w', x') \<Rightarrow> (w' \<or> w, x' \<or> x))"

lemma fold_add_perm:
  assumes "sorted_wrt (<) (map fst ps)"
  shows "sorted_wrt (<) (map fst (fold (\<lambda>va. add_perm va w x) vas ps)) \<and>
    map_of (fold (\<lambda>va. add_perm va w x) vas ps) p = (if p \<in> set vas then Some (perm_or w x (map_of ps p)) else map_of ps p)"
  using assms
proof (induction vas arbitrary: ps)
  case (Cons va vas)
  have idem: "perm_or w x (Some (perm_or w x q)) = perm_or w x q" for q
    by (auto simp: perm_or_def split: option.split)
  have "map_of (add_perm va w x ps) = (map_of ps)(va \<mapsto> perm_or w x (map_of ps va))"
    using add_perm_map [OF Cons.prems] by (simp add: perm_or_def)
  then show ?case
    using Cons.IH [OF add_perm_sorted [OF Cons.prems]] by (auto simp: idem)
qed simp

text \<open>The union of the permissions of the segments that touch a page.\<close>

definition page_perm :: "segment list \<Rightarrow> nat \<Rightarrow> (bool \<times> bool) option" where
  "page_perm segs p =
     (if \<exists>seg \<in> set segs. covers seg p
      then Some (\<exists>seg \<in> set segs. covers seg p \<and> seg_writable seg, \<exists>seg \<in> set segs. covers seg p \<and> seg_executable seg) else None)"

text \<open>A loaded image: every page has exactly the permissions its segments ask for, never both write and execute, and
  every byte is the one of the file.\<close>

definition pages_ok :: "'m page_view \<Rightarrow> segment list \<Rightarrow> vmspace \<Rightarrow> ('m, 'b) kmem \<Rightarrow> bool" where
  "pages_ok view segs v s \<longleftrightarrow>
     (\<forall>p. case view (tables s) (root_pa v) p of
        None \<Rightarrow> page_perm segs p = None \<and> \<not> stack_page p
      | Some (f, fl) \<Rightarrow> user_page p \<and> (\<exists>w x. \<not> (w \<and> x) \<and> fl = user_flags w x \<and>
          (if stack_page p then w \<and> page_perm segs p = None else page_perm segs p = Some (w, x))))"

definition bytes_ok :: "'m page_view \<Rightarrow> segment list \<Rightarrow> vmspace \<Rightarrow> ('m, 'b) kmem \<Rightarrow> bool" where
  "bytes_ok view segs v s \<longleftrightarrow>
     (\<forall>a. peek view v s a =
        (if page_perm segs (a - a mod 4096) \<noteq> None then Some (image_byte segs a)
         else if stack_page (a - a mod 4096) then Some 0 else None))"

lemma collect_perms_ok:
  assumes "\<forall>seg \<in> set segs. \<exists>rng. segment_pages seg = Inr rng" "sorted_wrt (<) (map fst ps)"
  shows "\<exists>qs. collect_perms segs ps = Inr qs \<and> sorted_wrt (<) (map fst qs) \<and>
    (\<forall>p. map_of qs p = (case page_perm segs p of None \<Rightarrow> map_of ps p | Some (w, x) \<Rightarrow> Some (perm_or w x (map_of ps p))))"
  using assms
proof (induction segs arbitrary: ps)
  case (Cons seg segs)
  obtain rng where rng: "segment_pages seg = Inr rng"
    using Cons.prems(1) by auto
  let ?ps = "fold (\<lambda>va. add_perm va (seg_writable seg) (seg_executable seg)) (step_pages rng) ps"
  have ps: "sorted_wrt (<) (map fst ?ps)"
    "map_of ?ps p = (if covers seg p then Some (perm_or (seg_writable seg) (seg_executable seg) (map_of ps p)) else map_of ps p)" for p
    using fold_add_perm [OF Cons.prems(2)] step_pages_covers(1) [OF rng] by auto
  obtain qs where qs: "collect_perms segs ?ps = Inr qs" "sorted_wrt (<) (map fst qs)"
    "\<And>p. map_of qs p = (case page_perm segs p of None \<Rightarrow> map_of ?ps p | Some (w, x) \<Rightarrow> Some (perm_or w x (map_of ?ps p)))"
    using Cons.IH [OF _ ps(1)] Cons.prems(1) by auto
  have "map_of qs p = (case page_perm (seg # segs) p of None \<Rightarrow> map_of ps p | Some (w, x) \<Rightarrow> Some (perm_or w x (map_of ps p)))" for p
    by (cases "covers seg p"; cases "map_of ps p") (auto simp: qs(3) ps(2) page_perm_def perm_or_def)
  then show ?case
    using rng qs(1,2) by auto
qed (simp add: page_perm_def)

section \<open>The passes\<close>

lemma same_page:
  assumes "va mod 4096 + n \<le> 4096" "va \<le> a" "a < va + (n :: nat)"
  shows "a - a mod 4096 = va - va mod 4096" "a mod 4096 = va mod 4096 + (a - va)"
proof -
  obtain d where d: "a = va + d" "d < n"
    using assms(2,3) le_Suc_ex by fastforce
  then have "a mod 4096 = (va mod 4096 + d) mod 4096"
    by (simp add: mod_add_left_eq)
  also have "\<dots> = va mod 4096 + d"
    using assms(1) d(2) by simp
  finally show "a mod 4096 = va mod 4096 + (a - va)" "a - a mod 4096 = va - va mod 4096"
    by (simp_all add: d(1))
qed

text \<open>Bytes written through a page's frame are seen at that page, and nowhere else.\<close>

lemma blit_peek:
  assumes inv: "vm_inv held view twf F T v s" and f: "view (tables s) (root_pa v) (va - va mod 4096) = Some (f, fl)"
    and n: "va mod 4096 + n \<le> 4096" "length bs = n"
  shows "peek view v (s\<lparr>ram := blit (f + va mod 4096) bs (ram s)\<rparr>) a = (if va \<le> a \<and> a < va + n then Some (bs ! (a - va)) else peek view v s a)"
proof (cases "va \<le> a \<and> a < va + n")
  case True
  then have pg: "a - a mod 4096 = va - va mod 4096" "a mod 4096 = va mod 4096 + (a - va)"
    using same_page [OF n(1), of a] by auto
  show ?thesis
    using True f n(2) unfolding peek_def pg(1) unfolding pg(2) by (auto simp: blit_def)
next
  case False
  have "blit (f + va mod 4096) bs (ram s) (g + a mod 4096) = ram s (g + a mod 4096)"
    if g: "view (tables s) (root_pa v) (a - a mod 4096) = Some (g, gl)" for g gl
  proof -
    have "\<not> (f + va mod 4096 \<le> g + a mod 4096 \<and> g + a mod 4096 < f + va mod 4096 + n)"
    proof
      assume h: "f + va mod 4096 \<le> g + a mod 4096 \<and> g + a mod 4096 < f + va mod 4096 + n"
      have al: "4096 dvd f" "4096 dvd g"
        using vm_invD(6) [OF inv f] vm_invD(6) [OF inv g] by auto
      have "f = g \<and> g + a mod 4096 - f = a mod 4096"
        by (rule frame_offset [OF al]) (use h n(1) in auto)
      then have "a - a mod 4096 = va - va mod 4096" "va mod 4096 \<le> a mod 4096" "a mod 4096 < va mod 4096 + n"
        using vm_invD(7) [OF inv f, of "a - a mod 4096" gl] g h by auto
      moreover have "a mod 4096 \<le> a" "va mod 4096 \<le> va" by simp_all
      ultimately show False using False by linarith
    qed
    then show ?thesis by (auto simp: blit_def n(2))
  qed
  then show ?thesis
    using False by (auto simp: peek_def map_option_case split: option.split)
qed

lemma stack_pages: "stack_va ` {0..<USER_STACK_PAGES} = {p. stack_page p}"
proof -
  have "\<exists>i < 4. p = stack_va i" if p: "stack_page p" for p
  proof -
    obtain k where k: "p = 4096 * k" using p by (auto simp: stack_page_def)
    have "k = 0x7ffeffffc \<or> k = 0x7ffeffffd \<or> k = 0x7ffeffffe \<or> k = 0x7ffefffff"
      using p by (simp add: stack_page_def k USER_STACK_TOP_def) arith
    then have "p = stack_va 3 \<or> p = stack_va 2 \<or> p = stack_va 1 \<or> p = stack_va 0"
      by (auto simp: k stack_va_def USER_STACK_TOP_def)
    then show ?thesis
      by (elim disjE) (rule exI [of _ 3], simp, rule exI [of _ 2], simp, rule exI [of _ 1], simp, rule exI [of _ 0], simp)
  qed
  moreover have "stack_page (stack_va i)" if "i < 4" for i
  proof -
    have "i = 0 \<or> i = 1 \<or> i = 2 \<or> i = 3" using that by arith
    then show ?thesis by (elim disjE) (simp_all add: stack_page_def stack_va_def USER_STACK_TOP_def)
  qed
  ultimately show ?thesis
    by (fastforce simp: USER_STACK_PAGES_def image_iff)
qed

lemma stack_user: "stack_page p \<Longrightarrow> user_page p"
  by (auto simp: stack_page_def user_page_def USER_STACK_TOP_def USER_MIN_def USER_MAX_def)

text \<open>The segments of a file the parser accepts, and their data.\<close>

definition segments_ok :: "segment list \<Rightarrow> bool" where
  "segments_ok segs \<longleftrightarrow> (\<forall>seg \<in> set segs. length (seg_data seg) \<le> unat (seg_mem_size seg) \<and> (\<exists>rng. segment_pages seg = Inr rng))"

lemma data_covered:
  assumes "segment_pages seg = Inr rng" "length (seg_data seg) \<le> unat (seg_mem_size seg)"
    "unat (seg_vaddr seg) \<le> a" "a < unat (seg_vaddr seg) + length (seg_data seg)"
  shows "covers seg (a - a mod 4096)"
proof -
  obtain l h where r: "rng = (l, h)" by (cases rng)
  note sp = segment_pages_Inr [OF assms(1) [unfolded r]]
  have "4096 dvd a - a mod 4096"
    by (simp add: dvd_minus_mod)
  moreover have "l \<le> a - a mod 4096"
  proof -
    have "4096 * (unat (seg_vaddr seg) div 4096) \<le> 4096 * (a div 4096)"
      using assms(3) by (intro mult_left_mono div_le_mono) auto
    then show ?thesis
      by (simp add: sp(1) align_down_div minus_mod_eq_mult_div)
  qed
  ultimately show ?thesis
    using sp(7) assms(2,4) by (auto simp: covers_def sp(1) [symmetric] sp(2) [symmetric])
qed

lemma peek_None: "peek view v s a = None \<longleftrightarrow> view (tables s) (root_pa v) (a - a mod 4096) = None"
  by (simp add: peek_def)

context frame_source
begin

lemma map_pages_ok:
  assumes X: "crate_ok X view twf" and "vm_inv held view twf F T v s" "\<forall>va \<in> set vas. user_page va"
  shows "\<exists>r v' s' T'. map_pages X falloc vas v s = Some (r, v', s') \<and> vm_inv held view twf F T' v' s' \<and> root_pa v' = root_pa v \<and> same_cpu s s' \<and>
    (r = Inr () \<longrightarrow> dom (view (tables s') (root_pa v)) = dom (view (tables s) (root_pa v)) \<union> set vas \<and>
       (\<forall>a. peek view v s' a = (if peek view v s a = None \<and> a - a mod 4096 \<in> set vas then Some 0 else peek view v s a)))"
  using assms(2-)
proof (induction vas arbitrary: v s T)
  case Nil
  then show ?case by (intro exI [of _ "Inr ()"]) auto
next
  case (Cons va vas)
  let ?V = "view (tables s) (root_pa v)"
  have va: "USER_MIN \<le> va" "va < USER_MAX" "4096 dvd va" and vas: "\<forall>va \<in> set vas. user_page va"
    using Cons.prems(2) by (auto simp: user_page_def)
  have page: "va mod 4096 = 0" using va(3) by simp
  have im: "is_mapped X va v s = Some (?V va \<noteq> None)"
    using translate_ok [OF X Cons.prems(1) va(2)] page by (simp add: is_mapped_def)
  show ?case
  proof (cases "?V va")
    case (Some f)
    then have "map_pages X falloc (va # vas) v s = map_pages X falloc vas v s"
      using im by simp
    moreover have "peek view v s a \<noteq> None" if "a - a mod 4096 = va" for a
      using Some that by (simp add: peek_def)
    ultimately show ?thesis
      using Cons.IH [OF Cons.prems(1) vas] Some by (fastforce simp: dom_def)
  next
    case None
    obtain r v1 s1 T1 where m: "map_new_page X falloc va True True v s = Some (r, v1, s1)" "vm_inv held view twf F T1 v1 s1"
      "root_pa v1 = root_pa v" "same_cpu s s1"
      "case r of
         Inr pa \<Rightarrow> ?V va = None \<and> view (tables s1) (root_pa v) = ?V(va \<mapsto> (pa, user_flags True True)) \<and>
           peek view v s1 = (\<lambda>a. if a - a mod 4096 = va then Some 0 else peek view v s a)
       | Inl e \<Rightarrow> view (tables s1) (root_pa v) = ?V \<and> peek view v s1 = peek view v s"
      using map_new_page_ok [where w = True and x = True, OF X Cons.prems(1) va] by (elim exE conjE) (rule that; assumption)
    show ?thesis
    proof (cases r)
      case (Inl e)
      then have "map_pages X falloc (va # vas) v s = Some (Inl (Load_Map e), v1, s1)"
        using im None m(1) by simp
      then show ?thesis using m by (intro exI [of _ "Inl (Load_Map e)"]) auto
    next
      case (Inr pa)
      then have run: "map_pages X falloc (va # vas) v s = map_pages X falloc vas v1 s1"
        using im None m(1) by simp
      have V1: "view (tables s1) (root_pa v) = ?V(va \<mapsto> (pa, user_flags True True))"
        "peek view v s1 = (\<lambda>a. if a - a mod 4096 = va then Some 0 else peek view v s a)"
        using m(5) Inr by auto
      obtain r' v' s' T' where IH: "map_pages X falloc vas v1 s1 = Some (r', v', s')" "vm_inv held view twf F T' v' s'" "root_pa v' = root_pa v1" "same_cpu s1 s'"
        "r' = Inr () \<longrightarrow> dom (view (tables s') (root_pa v1)) = dom (view (tables s1) (root_pa v1)) \<union> set vas \<and>
           (\<forall>a. peek view v1 s' a = (if peek view v1 s1 a = None \<and> a - a mod 4096 \<in> set vas then Some 0 else peek view v1 s1 a))"
        using Cons.IH [OF m(2) vas] by blast
      have pk: "peek view v1 t = peek view v t" for t
        by (simp add: peek_def m(3) fun_eq_iff)
      have none: "peek view v s a = None" if "a - a mod 4096 = va" for a
        using None that by (simp add: peek_def)
      have "dom (view (tables s') (root_pa v)) = dom ?V \<union> set (va # vas) \<and>
         (\<forall>a. peek view v s' a = (if peek view v s a = None \<and> a - a mod 4096 \<in> set (va # vas) then Some 0 else peek view v s a))"
        if "r' = Inr ()"
        using IH(5) that none unfolding pk m(3) V1 by auto
      then show ?thesis
        using run IH(1-4) m(3,4) same_cpu_trans by (intro exI [of _ r'] exI [of _ v'] exI [of _ s'] exI [of _ T']) auto
    qed
  qed
qed

lemma copy_data_ok:
  assumes X: "crate_ok X view twf" and "vm_inv held view twf F T v s" "vaddr + length data \<le> USER_MAX" "copied \<le> length data"
    "\<forall>a. vaddr + copied \<le> a \<and> a < vaddr + length data \<longrightarrow> peek view v s a \<noteq> None"
  shows "\<exists>s'. copy_data X vaddr data copied v s = Some (Inr (), s') \<and> vm_inv held view twf F T v s' \<and> same_cpu s s' \<and> tables s' = tables s \<and>
    (\<forall>a. peek view v s' a = (if vaddr + copied \<le> a \<and> a < vaddr + length data then Some (data ! (a - vaddr)) else peek view v s a))"
  using assms(2-)
proof (induction "length data - copied" arbitrary: copied s rule: less_induct)
  case less
  show ?case
  proof (cases "copied < length data")
    case False
    then show ?thesis
      using less.prems by (auto simp: copy_data.simps)
  next
    case True
    let ?va = "vaddr + copied"
    define n where "n = min (4096 - ?va mod 4096) (length data - copied)"
    define bs where "bs = take n (drop copied data)"
    have va: "?va < USER_MAX" "?va < 2 ^ 64"
      using True less.prems(2) by (auto simp: USER_MAX_def)
    have off: "?va mod 4096 < 4096" by simp
    have n: "0 < n" "copied + n \<le> length data" "?va mod 4096 + n \<le> 4096" "length bs = n"
      using True off unfolding n_def bs_def by auto
    obtain f fl where f: "view (tables s) (root_pa v) (?va - ?va mod 4096) = Some (f, fl)"
      using less.prems(4) [rule_format, of ?va] True by (auto simp: peek_def)
    have tr: "vm_translate X ?va v s = Some (Some (f + ?va mod 4096))"
      using translate_ok [OF X less.prems(1) va(1)] f by (simp add: vm_translate_def)
    define s1 where "s1 = s\<lparr>ram := blit (f + ?va mod 4096) bs (ram s)\<rparr>"
    have run: "copy_data X vaddr data copied v s = copy_data X vaddr data (copied + n) v s1"
      using True va tr n by (subst copy_data.simps) (simp add: add64_def Let_def n_def [symmetric] slice_of_def bs_def [symmetric] s1_def)
    have inv1: "vm_inv held view twf F T v s1"
      using less.prems(1) by (simp add: s1_def vm_inv_def)
    have peek1: "peek view v s1 a = (if ?va \<le> a \<and> a < ?va + n then Some (data ! (a - vaddr)) else peek view v s a)" for a
      using blit_peek [OF less.prems(1) f n(3) n(4), of a] n(1,4) by (auto simp: s1_def bs_def add.commute)
    have dec: "length data - (copied + n) < length data - copied"
      using n(1) True by simp
    have mapped: "\<forall>a. vaddr + (copied + n) \<le> a \<and> a < vaddr + length data \<longrightarrow> peek view v s1 a \<noteq> None"
    proof (intro allI impI)
      fix a assume "vaddr + (copied + n) \<le> a \<and> a < vaddr + length data"
      then show "peek view v s1 a \<noteq> None"
        using less.prems(4) [rule_format, of a] by (auto simp: peek1)
    qed
    obtain s' where s': "copy_data X vaddr data (copied + n) v s1 = Some (Inr (), s')" "vm_inv held view twf F T v s'" "same_cpu s1 s'" "tables s' = tables s1"
      "\<And>a. peek view v s' a = (if vaddr + (copied + n) \<le> a \<and> a < vaddr + length data then Some (data ! (a - vaddr)) else peek view v s1 a)"
      using less.hyps [OF dec inv1 less.prems(2) n(2) mapped] by blast
    have "peek view v s' a = (if ?va \<le> a \<and> a < vaddr + length data then Some (data ! (a - vaddr)) else peek view v s a)" for a
      using n(1,2) by (simp add: s'(5) peek1)
    then show ?thesis
      using run s'(1-4) by (intro exI [of _ s']) (simp add: s1_def same_cpu_def)
  qed
qed

text \<open>One segment mapped and copied.\<close>

lemma load_segment_ok:
  assumes X: "crate_ok X view twf" and inv: "vm_inv held view twf F T v s"
    and seg: "segment_pages seg = Inr rng" "length (seg_data seg) \<le> unat (seg_mem_size seg)"
    and map: "map_pages X falloc (step_pages rng) v s = Some (Inr (), v1, s1)"
  shows "\<exists>s2 T2. copy_data X (unat (seg_vaddr seg)) (seg_data seg) 0 v1 s1 = Some (Inr (), s2) \<and> vm_inv held view twf F T2 v1 s2 \<and> root_pa v1 = root_pa v \<and>
    same_cpu s s2 \<and> dom (view (tables s2) (root_pa v)) = dom (view (tables s) (root_pa v)) \<union> {p. covers seg p} \<and>
    (\<forall>a. peek view v s2 a = (if peek view v s a = None \<and> \<not> covers seg (a - a mod 4096) then None
       else Some (load_byte a seg (case peek view v s a of None \<Rightarrow> 0 | Some b \<Rightarrow> b))))"
proof -
  let ?va = "unat (seg_vaddr seg)" and ?n = "length (seg_data seg)"
  have pages: "set (step_pages rng) = {p. covers seg p}" "\<forall>va \<in> set (step_pages rng). user_page va"
    using step_pages_covers [OF seg(1)] by auto
  obtain T1 where m: "vm_inv held view twf F T1 v1 s1" "root_pa v1 = root_pa v" "same_cpu s s1"
    "dom (view (tables s1) (root_pa v)) = dom (view (tables s) (root_pa v)) \<union> {p. covers seg p}"
    "\<And>a. peek view v s1 a = (if peek view v s a = None \<and> covers seg (a - a mod 4096) then Some 0 else peek view v s a)"
    using map_pages_ok [OF X inv pages(2)] map unfolding pages(1) by auto
  have pk: "peek view v1 t = peek view v t" for t
    by (simp add: peek_def m(2) fun_eq_iff)
  have cov: "covers seg (a - a mod 4096)" if "?va \<le> a" "a < ?va + ?n" for a
    by (rule data_covered [OF seg that])
  have lim: "?va + ?n \<le> USER_MAX"
    using segment_pages_Inr(6,7) [of seg "fst rng" "snd rng"] seg by simp
  have "\<forall>a. ?va + 0 \<le> a \<and> a < ?va + ?n \<longrightarrow> peek view v1 s1 a \<noteq> None"
    using cov m(5) unfolding pk by auto
  then obtain s2 where s2: "copy_data X ?va (seg_data seg) 0 v1 s1 = Some (Inr (), s2)" "vm_inv held view twf F T1 v1 s2" "same_cpu s1 s2" "tables s2 = tables s1"
    "\<And>a. peek view v1 s2 a = (if ?va + 0 \<le> a \<and> a < ?va + ?n then Some (seg_data seg ! (a - ?va)) else peek view v1 s1 a)"
    using copy_data_ok [OF X m(1) lim, of 0] by auto
  have "peek view v s2 a = (if peek view v s a = None \<and> \<not> covers seg (a - a mod 4096) then None
       else Some (load_byte a seg (case peek view v s a of None \<Rightarrow> 0 | Some b \<Rightarrow> b)))" for a
    using s2(5) [of a] m(5) [of a] cov [of a] unfolding pk by (auto simp: load_byte_def split: option.splits)
  then show ?thesis
    using s2(1-4) m(2-4) same_cpu_trans by (intro exI [of _ s2] exI [of _ T1]) auto
qed

lemma load_segments_ok:
  assumes X: "crate_ok X view twf" and "vm_inv held view twf F T v s" "segments_ok segs"
  shows "\<exists>r v' s' T'. load_segments X falloc segs v s = Some (r, v', s') \<and> vm_inv held view twf F T' v' s' \<and> root_pa v' = root_pa v \<and> same_cpu s s' \<and>
    (r = Inr () \<longrightarrow> dom (view (tables s') (root_pa v)) = dom (view (tables s) (root_pa v)) \<union> {p. \<exists>seg \<in> set segs. covers seg p} \<and>
       (\<forall>a. peek view v s' a = (if peek view v s a = None \<and> (\<forall>seg \<in> set segs. \<not> covers seg (a - a mod 4096)) then None
          else Some (fold (load_byte a) segs (case peek view v s a of None \<Rightarrow> 0 | Some b \<Rightarrow> b)))))"
  using assms(2-)
proof (induction segs arbitrary: v s T)
  case Nil
  then show ?case by (intro exI [of _ "Inr ()"]) (auto split: option.split)
next
  case (Cons seg segs)
  have seg: "length (seg_data seg) \<le> unat (seg_mem_size seg)" and segs: "segments_ok segs"
    using Cons.prems(2) by (auto simp: segments_ok_def)
  obtain rng where rng: "segment_pages seg = Inr rng"
    using Cons.prems(2) by (auto simp: segments_ok_def)
  have "\<forall>va \<in> set (step_pages rng). user_page va"
    using step_pages_covers [OF rng] by auto
  then obtain r v1 s1 T1 where m: "map_pages X falloc (step_pages rng) v s = Some (r, v1, s1)" "vm_inv held view twf F T1 v1 s1" "root_pa v1 = root_pa v" "same_cpu s s1"
    using map_pages_ok [OF X Cons.prems(1)] by blast
  show ?case
  proof (cases r)
    case (Inl e)
    then show ?thesis
      using m rng by (intro exI [of _ "Inl e"]) auto
  next
    case (Inr u)
    then have m1: "map_pages X falloc (step_pages rng) v s = Some (Inr (), v1, s1)"
      using m(1) by simp
    obtain s2 T2 where c: "copy_data X (unat (seg_vaddr seg)) (seg_data seg) 0 v1 s1 = Some (Inr (), s2)" "vm_inv held view twf F T2 v1 s2" "root_pa v1 = root_pa v"
      "same_cpu s s2" "dom (view (tables s2) (root_pa v)) = dom (view (tables s) (root_pa v)) \<union> {p. covers seg p}"
      "\<And>a. peek view v s2 a = (if peek view v s a = None \<and> \<not> covers seg (a - a mod 4096) then None
         else Some (load_byte a seg (case peek view v s a of None \<Rightarrow> 0 | Some b \<Rightarrow> b)))"
      using load_segment_ok [OF X Cons.prems(1) rng seg m1] by blast
    have pk: "peek view v1 t = peek view v t" for t
      by (simp add: peek_def c(3) fun_eq_iff)
    obtain r' v' s' T' where IH: "load_segments X falloc segs v1 s2 = Some (r', v', s')" "vm_inv held view twf F T' v' s'" "root_pa v' = root_pa v1" "same_cpu s2 s'"
      "r' = Inr () \<longrightarrow> dom (view (tables s') (root_pa v1)) = dom (view (tables s2) (root_pa v1)) \<union> {p. \<exists>seg \<in> set segs. covers seg p} \<and>
         (\<forall>a. peek view v1 s' a = (if peek view v1 s2 a = None \<and> (\<forall>seg \<in> set segs. \<not> covers seg (a - a mod 4096)) then None
            else Some (fold (load_byte a) segs (case peek view v1 s2 a of None \<Rightarrow> 0 | Some b \<Rightarrow> b))))"
      using Cons.IH [OF c(2) segs] by blast
    have run: "load_segments X falloc (seg # segs) v s = Some (r', v', s')"
      using rng m1 c(1) IH(1) by simp
    have dm: "dom (view (tables s') (root_pa v)) = dom (view (tables s) (root_pa v)) \<union> {p. \<exists>seg \<in> set (seg # segs). covers seg p}" if "r' = Inr ()"
      using IH(5) that c(5) unfolding c(3) by auto
    have "peek view v s' a = (if peek view v s a = None \<and> (\<forall>seg \<in> set (seg # segs). \<not> covers seg (a - a mod 4096)) then None
          else Some (fold (load_byte a) (seg # segs) (case peek view v s a of None \<Rightarrow> 0 | Some b \<Rightarrow> b)))" if "r' = Inr ()" for a
    proof -
      have "peek view v s' a = (if peek view v s2 a = None \<and> (\<forall>seg \<in> set segs. \<not> covers seg (a - a mod 4096)) then None
            else Some (fold (load_byte a) segs (case peek view v s2 a of None \<Rightarrow> 0 | Some b \<Rightarrow> b)))"
        using IH(5) that unfolding pk by blast
      moreover have "load_byte a seg 0 = 0" if "\<not> covers seg (a - a mod 4096)"
        using data_covered [OF rng seg, of a] that by (auto simp: load_byte_def)
      ultimately show ?thesis
        using c(6) [of a] by (auto split: option.splits)
    qed
    then show ?thesis
      using run dm IH(2-4) c(3,4) same_cpu_trans by (intro exI [of _ r'] exI [of _ v'] exI [of _ s'] exI [of _ T']) auto
  qed
qed

lemma apply_perms_ok:
  assumes X: "crate_ok X view twf" and "vm_inv held view twf F T v s" "distinct (map fst ps)"
    "\<forall>p \<in> fst ` set ps. user_page p \<and> view (tables s) (root_pa v) p \<noteq> None"
  shows "\<exists>r v' s' T'. apply_perms X falloc ps v s = Some (r, v', s') \<and> vm_inv held view twf F T' v' s' \<and> root_pa v' = root_pa v \<and> same_cpu s s' \<and>
    (r = Inr () \<longrightarrow> (\<forall>(p, w, x) \<in> set ps. \<not> (w \<and> x)) \<and> peek view v s' = peek view v s \<and>
       view (tables s') (root_pa v) = (\<lambda>p. case map_of ps p of None \<Rightarrow> view (tables s) (root_pa v) p
         | Some (w, x) \<Rightarrow> map_option (\<lambda>(f, _). (f, user_flags w x)) (view (tables s) (root_pa v) p)))"
  using assms(2-)
proof (induction ps arbitrary: v s T)
  case Nil
  then show ?case by (intro exI [of _ "Inr ()"]) auto
next
  case (Cons q ps)
  obtain va w x where q: "q = (va, w, x)" by (cases q)
  let ?V = "view (tables s) (root_pa v)"
  have va: "USER_MIN \<le> va" "va < USER_MAX" "4096 dvd va" and dis: "va \<notin> fst ` set ps" "distinct (map fst ps)"
    using Cons.prems(2,3) by (auto simp: q user_page_def)
  obtain f fl where f: "?V va = Some (f, fl)"
    using Cons.prems(3) by (auto simp: q)
  show ?case
  proof (cases "w \<and> x")
    case True
    then show ?thesis
      using Cons.prems(1) by (intro exI [of _ "Inl (Load_WriteExecutePage va)"]) (auto simp: q)
  next
    case False
    obtain r v1 s1 T1 where m: "set_permissions X falloc va w x v s = Some (r, v1, s1)" "vm_inv held view twf F T1 v1 s1" "root_pa v1 = root_pa v" "same_cpu s s1"
      "case r of Inr _ \<Rightarrow> view (tables s1) (root_pa v) = ?V(va \<mapsto> (f, user_flags w x)) \<and> peek view v s1 = peek view v s | Inl e \<Rightarrow> True"
      using set_permissions_ok [where w = w and x = x, OF X Cons.prems(1) va f] by (elim exE conjE) (rule that; assumption)
    show ?thesis
    proof (cases r)
      case (Inl e)
      then show ?thesis
        using m False by (intro exI [of _ "Inl (Load_Map e)"]) (auto simp: q)
    next
      case (Inr u)
      then have V1: "view (tables s1) (root_pa v) = ?V(va \<mapsto> (f, user_flags w x))" "peek view v s1 = peek view v s"
        using m(5) by auto
      have pk: "peek view v1 t = peek view v t" for t
        by (simp add: peek_def m(3) fun_eq_iff)
      have "\<forall>p \<in> fst ` set ps. user_page p \<and> view (tables s1) (root_pa v1) p \<noteq> None"
        using Cons.prems(3) V1(1) m(3) by (auto simp: q)
      then obtain r' v' s' T' where IH: "apply_perms X falloc ps v1 s1 = Some (r', v', s')" "vm_inv held view twf F T' v' s'" "root_pa v' = root_pa v1" "same_cpu s1 s'"
        "r' = Inr () \<longrightarrow> (\<forall>(p, w, x) \<in> set ps. \<not> (w \<and> x)) \<and> peek view v1 s' = peek view v1 s1 \<and>
           view (tables s') (root_pa v1) = (\<lambda>p. case map_of ps p of None \<Rightarrow> view (tables s1) (root_pa v1) p
             | Some (w, x) \<Rightarrow> map_option (\<lambda>(f, _). (f, user_flags w x)) (view (tables s1) (root_pa v1) p))"
        using Cons.IH [OF m(2) dis(2)] by blast
      have none: "map_of ps va = None"
        using dis(1) by (simp add: map_of_eq_None_iff)
      have "view (tables s') (root_pa v) = (\<lambda>p. case map_of (q # ps) p of None \<Rightarrow> ?V p
         | Some (w, x) \<Rightarrow> map_option (\<lambda>(f, _). (f, user_flags w x)) (?V p))" if "r' = Inr ()"
        using IH(5) that none f unfolding m(3) V1 by (auto simp: q fun_eq_iff split: option.split)
      then show ?thesis
        using IH m(1,3,4) Inr False V1(2) same_cpu_trans [OF m(4) IH(4)]
        by (intro exI [of _ r'] exI [of _ v'] exI [of _ s'] exI [of _ T']) (auto simp: q pk)
    qed
  qed
qed

text \<open>The stack: new pages, zeroed, writable and not executable.\<close>

lemma map_stack_ok:
  assumes X: "crate_ok X view twf" and "vm_inv held view twf F T v s" "set js \<subseteq> {0..<USER_STACK_PAGES}"
  shows "\<exists>r v' s' T'. map_stack X falloc js v s = Some (r, v', s') \<and> vm_inv held view twf F T' v' s' \<and> root_pa v' = root_pa v \<and> same_cpu s s' \<and>
    (r = Inr () \<longrightarrow> (let S = stack_va ` set js in
       (\<forall>p. view (tables s') (root_pa v) p = view (tables s) (root_pa v) p \<and> p \<notin> S \<or>
          p \<in> S \<and> view (tables s) (root_pa v) p = None \<and> (\<exists>f. view (tables s') (root_pa v) p = Some (f, user_flags True False))) \<and>
       (\<forall>a. peek view v s' a = (if a - a mod 4096 \<in> S then Some 0 else peek view v s a))))"
  using assms(2-)
proof (induction js arbitrary: v s T)
  case Nil
  then show ?case by (intro exI [of _ "Inr ()"]) auto
next
  case (Cons i js)
  let ?V = "view (tables s) (root_pa v)" and ?va = "stack_va i"
  have "i = 0 \<or> i = 1 \<or> i = 2 \<or> i = 3"
    using Cons.prems(2) by (auto simp: USER_STACK_PAGES_def)
  then have va: "USER_MIN \<le> ?va" "?va < USER_MAX" "4096 dvd ?va"
    by (elim disjE; simp add: stack_va_def USER_STACK_TOP_def USER_MIN_def USER_MAX_def)+
  obtain r v1 s1 T1 where m: "map_new_page X falloc ?va True False v s = Some (r, v1, s1)" "vm_inv held view twf F T1 v1 s1"
    "root_pa v1 = root_pa v" "same_cpu s s1"
    "case r of
       Inr pa \<Rightarrow> ?V ?va = None \<and> view (tables s1) (root_pa v) = ?V(?va \<mapsto> (pa, user_flags True False)) \<and>
         peek view v s1 = (\<lambda>a. if a - a mod 4096 = ?va then Some 0 else peek view v s a)
     | Inl e \<Rightarrow> view (tables s1) (root_pa v) = ?V \<and> peek view v s1 = peek view v s"
    using map_new_page_ok [where w = True and x = False, OF X Cons.prems(1) va] by (elim exE conjE) (rule that; assumption)
  show ?case
  proof (cases r)
    case (Inl e)
    then show ?thesis
      using m(1-4) by (intro exI [of _ "Inl (Load_Map e)"] exI [of _ v1] exI [of _ s1] exI [of _ T1]) (simp add: stack_va_def)
  next
    case (Inr pa)
    then have V1: "?V ?va = None" "view (tables s1) (root_pa v) = ?V(?va \<mapsto> (pa, user_flags True False))"
      "peek view v s1 = (\<lambda>a. if a - a mod 4096 = ?va then Some 0 else peek view v s a)"
      using m(5) by auto
    have pk: "peek view v1 t = peek view v t" for t
      by (simp add: peek_def m(3) fun_eq_iff)
    define S where "S = stack_va ` set js"
    obtain r' v' s' T' where IH: "map_stack X falloc js v1 s1 = Some (r', v', s')" "vm_inv held view twf F T' v' s'" "root_pa v' = root_pa v1" "same_cpu s1 s'"
      "r' = Inr () \<Longrightarrow> view (tables s') (root_pa v1) p = view (tables s1) (root_pa v1) p \<and> p \<notin> S \<or>
          p \<in> S \<and> view (tables s1) (root_pa v1) p = None \<and> (\<exists>f. view (tables s') (root_pa v1) p = Some (f, user_flags True False))"
      "r' = Inr () \<Longrightarrow> peek view v1 s' a = (if a - a mod 4096 \<in> S then Some 0 else peek view v1 s1 a)" for p a
      using Cons.IH [OF m(2)] Cons.prems(2) unfolding S_def [symmetric] Let_def by auto
    have "view (tables s') (root_pa v) p = ?V p \<and> p \<notin> insert ?va S \<or>
        p \<in> insert ?va S \<and> ?V p = None \<and> (\<exists>f. view (tables s') (root_pa v) p = Some (f, user_flags True False))" if "r' = Inr ()" for p
      using IH(5) [OF that, of p] V1(1) unfolding m(3) V1(2) by (auto split: if_splits)
    moreover have "peek view v s' a = (if a - a mod 4096 \<in> insert ?va S then Some 0 else peek view v s a)" if "r' = Inr ()" for a
      using IH(6) [OF that, of a] unfolding pk V1(3) by auto
    moreover have "map_stack X falloc (i # js) v s = Some (r', v', s')"
      using m(1) Inr IH(1) by (simp add: stack_va_def)
    ultimately show ?thesis
      using IH(2-4) m(3) same_cpu_trans [OF m(4) IH(4)]
      by (intro exI [of _ r'] exI [of _ v'] exI [of _ s'] exI [of _ T']) (simp add: S_def [symmetric] Let_def)
  qed
qed

lemma load_image_ok:
  assumes X: "crate_ok X view twf" and inv: "vm_inv held view twf F T v s" and empty: "view (tables s) (root_pa v) = (\<lambda>_. None)"
    and data: "\<forall>seg \<in> set segs. length (seg_data seg) \<le> unat (seg_mem_size seg)"
  shows "\<exists>r v' s' T'. load_image X falloc segs v s = Some (r, v', s') \<and> vm_inv held view twf F T' v' s' \<and> root_pa v' = root_pa v \<and> same_cpu s s' \<and>
    (r = Inr () \<longrightarrow> pages_ok view segs v s' \<and> bytes_ok view segs v s')"
proof (cases "validate_all segs")
  case (Inl e)
  then show ?thesis
    using inv by (intro exI [of _ "Inl e"]) (auto simp: load_image_def)
next
  case (Inr u)
  have valid: "\<forall>seg \<in> set segs. \<exists>rng. segment_pages seg = Inr rng" "segments_ok segs"
    using Inr data validate_all_Inr [of segs] by (auto simp: segments_ok_def)
  have none: "peek view v s a = None" for a
    by (simp add: peek_def empty)
  obtain r1 v1 s1 T1 where l: "load_segments X falloc segs v s = Some (r1, v1, s1)" "vm_inv held view twf F T1 v1 s1" "root_pa v1 = root_pa v" "same_cpu s s1"
    "r1 = Inr () \<Longrightarrow> dom (view (tables s1) (root_pa v)) = {p. \<exists>seg \<in> set segs. covers seg p}"
    "r1 = Inr () \<Longrightarrow> peek view v s1 a = (if \<forall>seg \<in> set segs. \<not> covers seg (a - a mod 4096) then None else Some (image_byte segs a))" for a
    using load_segments_ok [OF X inv valid(2)] by (auto simp: none empty image_byte_def)
  show ?thesis
  proof (cases r1)
    case (Inl e)
    then show ?thesis
      using l(1-4) Inr by (intro exI [of _ "Inl e"] exI [of _ v1] exI [of _ s1] exI [of _ T1]) (auto simp: load_image_def)
  next
    case l1: (Inr u1)
    obtain ps where ps: "collect_perms segs [] = Inr ps" "sorted_wrt (<) (map fst ps)" "\<And>p. map_of ps p = page_perm segs p"
    proof -
      have "(case q of None \<Rightarrow> map_of [] p | Some (w, x) \<Rightarrow> Some (perm_or w x (map_of [] p))) = q" for q :: "(bool \<times> bool) option" and p :: nat
        by (simp add: perm_or_def split: option.split)
      then show ?thesis
        using collect_perms_ok [OF valid(1), of "[]"] that by auto
    qed
    have dis: "distinct (map fst ps)"
      using ps(2) strict_sorted_iff by blast
    have dm: "view (tables s1) (root_pa v) p = None \<longleftrightarrow> page_perm segs p = None" for p
    proof -
      have "p \<in> dom (view (tables s1) (root_pa v)) \<longleftrightarrow> (\<exists>seg \<in> set segs. covers seg p)"
        using l(5) l1 by auto
      then show ?thesis
        by (auto simp: page_perm_def domIff)
    qed
    have keys: "p \<in> fst ` set ps \<longleftrightarrow> page_perm segs p \<noteq> None" for p
      using ps(3) [of p] map_of_eq_None_iff [of ps p] by auto
    have up: "user_page p" if "page_perm segs p \<noteq> None" for p
      using that valid(1) step_pages_covers(2) by (fastforce simp: page_perm_def split: if_splits)
    have mapped: "\<forall>p \<in> fst ` set ps. user_page p \<and> view (tables s1) (root_pa v1) p \<noteq> None"
      using keys up dm l(3) by auto
    have pk1: "peek view v1 t = peek view v t" for t
      by (simp add: peek_def l(3) fun_eq_iff)
    obtain r2 v2 s2 T2 where a: "apply_perms X falloc ps v1 s1 = Some (r2, v2, s2)" "vm_inv held view twf F T2 v2 s2" "root_pa v2 = root_pa v" "same_cpu s s2"
      "r2 = Inr () \<longrightarrow> (\<forall>(p, w, x) \<in> set ps. \<not> (w \<and> x)) \<and> peek view v s2 = peek view v s1 \<and>
         view (tables s2) (root_pa v) = (\<lambda>p. case page_perm segs p of None \<Rightarrow> view (tables s1) (root_pa v) p
           | Some (w, x) \<Rightarrow> map_option (\<lambda>(f, _). (f, user_flags w x)) (view (tables s1) (root_pa v) p))"
      using apply_perms_ok [OF X l(2) dis mapped, unfolded pk1 l(3) ps(3)] same_cpu_trans [OF l(4)] by blast
    show ?thesis
    proof (cases r2)
      case (Inl e)
      then show ?thesis
        using l(1) l1 a(1-4) Inr ps(1) by (intro exI [of _ "Inl e"] exI [of _ v2] exI [of _ s2] exI [of _ T2]) (auto simp: load_image_def)
    next
      case a1: (Inr u2)
      have pk: "peek view v2 t = peek view v t" for t
        by (simp add: peek_def a(3) fun_eq_iff)
      have wx: "\<not> (w \<and> x)" if "page_perm segs p = Some (w, x)" for p w x
        using a(5) a1 that ps(3) [of p] map_of_SomeD [of ps p "(w, x)"] by auto
      obtain r3 v3 s3 T3 where st: "map_stack X falloc [0..<USER_STACK_PAGES] v2 s2 = Some (r3, v3, s3)" "vm_inv held view twf F T3 v3 s3" "root_pa v3 = root_pa v" "same_cpu s s3"
        "r3 = Inr () \<longrightarrow> (\<forall>p. view (tables s3) (root_pa v) p = view (tables s2) (root_pa v) p \<and> \<not> stack_page p \<or>
            stack_page p \<and> view (tables s2) (root_pa v) p = None \<and> (\<exists>f. view (tables s3) (root_pa v) p = Some (f, user_flags True False))) \<and>
          (\<forall>a. peek view v s3 a = (if stack_page (a - a mod 4096) then Some 0 else peek view v s2 a))"
        using map_stack_ok [OF X a(2) eq_refl [OF set_upt], unfolded set_upt stack_pages Let_def mem_Collect_eq a(3) pk]
          same_cpu_trans [OF a(4)] by blast
      have run: "load_image X falloc segs v s = Some (r3, v3, s3)"
        using l(1) l1 a(1) a1 Inr ps(1) st(1) by (simp add: load_image_def)
      have V2: "case page_perm segs p of None \<Rightarrow> view (tables s2) (root_pa v) p = None | Some (w, x) \<Rightarrow> \<exists>f. view (tables s2) (root_pa v) p = Some (f, user_flags w x)" for p
        using a(5) a1 dm [of p] by (auto split: option.splits)
      have pk2: "peek view v s2 a = (if page_perm segs (a - a mod 4096) = None then None else Some (image_byte segs a))" for a
        using a(5) a1 l(6) [of a] l1 by (auto simp: page_perm_def)
      have "pages_ok view segs v s3 \<and> bytes_ok view segs v s3" if ok: "r3 = Inr ()"
        unfolding pages_ok_def bytes_ok_def
      proof (intro conjI allI)
        fix p
        have p: "view (tables s3) (root_pa v) p = view (tables s2) (root_pa v) p \<and> \<not> stack_page p \<or>
            stack_page p \<and> view (tables s2) (root_pa v) p = None \<and> (\<exists>f. view (tables s3) (root_pa v) p = Some (f, user_flags True False))"
          using st(5) ok by blast
        show "case view (tables s3) (root_pa v) p of None \<Rightarrow> page_perm segs p = None \<and> \<not> stack_page p
          | Some (f, fl) \<Rightarrow> user_page p \<and> (\<exists>w x. \<not> (w \<and> x) \<and> fl = user_flags w x \<and>
              (if stack_page p then w \<and> page_perm segs p = None else page_perm segs p = Some (w, x)))"
        proof (cases "page_perm segs p")
          case None
          show ?thesis
          proof (cases "stack_page p")
            case True
            then obtain f where "view (tables s3) (root_pa v) p = Some (f, user_flags True False)"
              using p by blast
            then show ?thesis
              using None True stack_user [OF True] by simp (rule exI [of _ True], rule exI [of _ False], simp)
          qed (use p None V2 [of p] in simp)
        next
          case (Some wx)
          obtain w x where wx': "wx = (w, x)" by (cases wx)
          obtain f where "view (tables s2) (root_pa v) p = Some (f, user_flags w x)"
            using V2 [of p] Some wx' by auto
          then show ?thesis
            using p Some wx [of p w x] wx' up [of p] by auto
        qed
      next
        fix a
        have "view (tables s2) (root_pa v) (a - a mod 4096) = None" if "stack_page (a - a mod 4096)"
          using st(5) ok that by auto
        then show "peek view v s3 a = (if page_perm segs (a - a mod 4096) \<noteq> None then Some (image_byte segs a)
           else if stack_page (a - a mod 4096) then Some 0 else None)"
          using st(5) ok pk2 [of a] peek_None [of view v s2 a] by auto
      qed
      then show ?thesis
        using run st(2-4) by (intro exI [of _ r3] exI [of _ v3] exI [of _ s3] exI [of _ T3]) auto
    qed
  qed
qed

lemma from_elf_ok:
  assumes X: "crate_ok X view twf" and held: "held (pool s) F" and kr: "kernel_root s \<noteq> 0"
    and cr3: "cr3 s \<in> F \<or> cr3 s \<notin> memory (pool s)" and len: "length bs < 2 ^ 64"
  shows "\<exists>r s'. from_elf X falloc ffree bs s = Some (r, s') \<and> same_cpu s s' \<and>
    (case r of
       Inl e \<Rightarrow> held (pool s') F
     | Inr p \<Rightarrow> elf_wf bs \<and> p_entry p = elf_entry (elf_of bs) \<and> (\<exists>T. vm_inv held view twf F T (p_space p) s') \<and>
         pages_ok view (file_segments bs) (p_space p) s' \<and> bytes_ok view (file_segments bs) (p_space p) s')"
proof (cases "elf_wf bs")
  case False
  then obtain e where "parse bs = Some (Inl e)"
    using parse_eq [OF len] by auto
  then show ?thesis
    using held by (simp add: from_elf_def)
next
  case True
  have parse: "parse bs = Some (Inr (elf_of bs))" "segments (elf_of bs) = Some (file_segments bs)"
    using parse_eq [OF len] segments_elf_of [OF True len] True by (auto simp: file_segments_def)
  have data: "\<forall>seg \<in> set (file_segments bs). length (seg_data seg) \<le> unat (seg_mem_size seg)"
    using segment_spec_bounds(1) [OF _ _ refl] True by (auto simp: file_segments_def elf_wf_def)
  obtain r0 s0 where n: "vm_new X falloc s = Some (r0, s0)" "same_cpu s s0" "case r0 of
       None \<Rightarrow> held (pool s0) F
     | Some v \<Rightarrow> root_pa v \<in> memory (pool s) - F \<and> vm_inv held view twf F {root_pa v} v s0 \<and> view (tables s0) (root_pa v) = (\<lambda>_. None)"
    using vm_new_ok [OF X held kr] by blast
  show ?thesis
  proof (cases r0)
    case None
    then show ?thesis
      using n parse by (simp add: from_elf_def)
  next
    case (Some v)
    then obtain r v' s1 T' where l: "load_image X falloc (file_segments bs) v s0 = Some (r, v', s1)" "vm_inv held view twf F T' v' s1" "root_pa v' = root_pa v"
      "same_cpu s0 s1" "r = Inr () \<longrightarrow> pages_ok view (file_segments bs) v s1 \<and> bytes_ok view (file_segments bs) v s1"
      using load_image_ok [OF X _ _ data] n(3) by fastforce
    have cpu: "same_cpu s s1"
      by (rule same_cpu_trans [OF n(2) l(4)])
    have "cr3 s1 \<noteq> root_pa v'"
      using cpu n(3) Some cr3 l(3) by (auto simp: same_cpu_def)
    then obtain s2 where d: "vm_drop ffree v' s1 = Some s2" "held (pool s2) F" "same_cpu s1 s2"
      using vm_drop_ok [OF l(2)] by blast
    show ?thesis
    proof (cases r)
      case (Inl e)
      then show ?thesis
        using n(1) Some parse l(1) d same_cpu_trans [OF cpu d(3)] by (simp add: from_elf_def)
    next
      case (Inr u)
      have "pages_ok view segs v' s1 = pages_ok view segs v s1" "bytes_ok view segs v' s1 = bytes_ok view segs v s1" for segs
        by (simp_all add: pages_ok_def bytes_ok_def peek_def l(3))
      then show ?thesis
        using n(1) Some parse l Inr cpu True by (auto simp: from_elf_def)
    qed
  qed
qed

end

end
