(* ===== verification/Flat_Tables.thy ===== *)
theory Flat_Tables
  imports Vmspace
begin

text \<open>
  A concrete instance of the page-table crate, for the runs that show the hypotheses about it can hold: tables that are a
  partial map from pages and draw no frames.
\<close>

type_synonym flat_tables = "(nat \<Rightarrow> nat \<Rightarrow> pte) \<times> (nat \<Rightarrow> nat \<Rightarrow> (nat \<times> x86_flag set) option)"

definition flat_view :: "flat_tables \<Rightarrow> nat \<Rightarrow> nat \<Rightarrow> (nat \<times> x86_flag set) option" where
  "flat_view m r = (if list_all (\<lambda>i. fst m r i = Unused) [0..<256] then (\<lambda>_. None) else snd m r)"

definition flat_x86 :: "(flat_tables, kframes) xvm" where
  "flat_x86 = \<lparr>x_virt = Some, x_phys = Some, x_start = (\<lambda>n a. if n dvd a then Some a else None), x_index = (\<lambda>l a. a div 4096 ^ l),
     x_entry = (\<lambda>m t i. fst m t i), x_set_entry = (\<lambda>t i e m. ((fst m)(t := (fst m t)(i := e)), snd m)),
     x_map_to = (\<lambda>al r p f fl m c. Some (if flat_view m r p = None
        then (Inr (), ((fst m)(r := (fst m r)(0 := Pte 0 {})), (snd m)(r := (flat_view m r)(p \<mapsto> (f, fl)))), c)
        else (Inl PageAlreadyMapped, m, c))),
     x_unmap = (\<lambda>r p m. case flat_view m r p of None \<Rightarrow> (Inl PageNotMapped, m) | Some (f, _) \<Rightarrow> (Inr f, (fst m, (snd m)(r := (snd m r)(p := None))))),
     x_translate = (\<lambda>r va m. map_option (\<lambda>(f, _). (f, va mod 4096)) (flat_view m r (va - va mod 4096)))\<rparr>"

lemma flat_mapped: "flat_view (a(r := (a r)(0 := Pte 0 {})), b(r := V)) r = V"
  unfolding flat_view_def list_all_iff set_upt by (auto intro!: bexI [of _ 0])

lemma flat_unmapped: "flat_view (a, b(r := (b r)(p := None))) r = (flat_view (a, b) r)(p := None)"
  by (auto simp: flat_view_def fun_eq_iff)

lemma flat_crate_ok: "crate_ok flat_x86 flat_view (\<lambda>_ _ _. True)"
proof -
  have empty: "flat_view m r = (\<lambda>_. None)" if "\<forall>i < 256. fst m r i = Unused" for m r
    using that by (simp add: flat_view_def list_all_iff)
  show ?thesis
    unfolding crate_ok_def addresses_ok_def entries_ok_def walk_ok_def map_ok_def
    by (intro conjI) (auto simp: flat_x86_def flat_mapped flat_unmapped empty split: option.split)
qed

end
