(* ===== verification/Loader.thy ===== *)
theory Loader
  imports Process Flat_Tables
begin

text \<open>
  The theorems about loading a program with the kernel's frame allocator, and a concrete run of the loader.
\<close>

section \<open>Properties\<close>

text \<open>The loader on the kernel's frame allocator.\<close>

definition kernel_from_elf where
  "kernel_from_elf X bs s = from_elf X (\<lambda>k. frames_alloc k 0) (\<lambda>k p. frames_free k p 0) bs s"


text \<open>C37: the bytes of a loaded process are those of the file. Every address of a mapped page holds the data of the last
  segment that has it and zero otherwise, the stack is zero, and each page has a frame of its own that was not in use
  before, so no memory of another owner is ever seen or written.\<close>

theorem loaded_image_exact:
  assumes "crate_ok X view twf" "frames_held (pool s) F" "kernel_root s \<noteq> 0" "cr3 s \<in> F \<or> cr3 s \<notin> frames_memory (pool s)" "length bs < 2 ^ 64"
    "kernel_from_elf X bs s = Some (Inr p, s')"
  shows "bytes_ok view (file_segments bs) (p_space p) s' \<and> frames_held (pool s') (F \<union> set (owned (p_space p))) \<and>
    (\<forall>q f fl. view (tables s') (root_pa (p_space p)) q = Some (f, fl) \<longrightarrow> f \<in> set (owned (p_space p)) - F \<and>
       (\<forall>q' fl'. view (tables s') (root_pa (p_space p)) q' = Some (f, fl') \<longrightarrow> q' = q))"
proof -
  obtain T where ok: "bytes_ok view (file_segments bs) (p_space p) s'" "vm_inv frames_held view twf F T (p_space p) s'"
    using kf.from_elf_ok [OF assms(1-5)] assms(6) by (auto simp: kernel_from_elf_def)
  then show ?thesis
    using vm_invD(2,3) [OF ok(2)] vm_invD(6,7) [OF ok(2)] by (fastforce simp: disjoint_iff)
qed

section \<open>A concrete run\<close>

definition ex_kmem :: "kframes \<Rightarrow> (flat_tables, kframes) kmem" where
  "ex_kmem k = \<lparr>tables = (\<lambda>_ _. Unused, \<lambda>_ _. None), cr3 = 0x1000, invalidated = [], pool = k, ram = (\<lambda>_. 0), kernel_root = 0x1000\<rparr>"

text \<open>Sixteen pages are enough for sixteen frames.\<close>

definition ample :: "kframes \<Rightarrow> nat \<Rightarrow> bool" where
  "ample k n \<longleftrightarrow> (\<exists>F. frames_held k F \<and> Rg (allocator k) = [(0x100000, 0x110000)] \<and> finite F \<and> card F + n \<le> 16)"

lemma ample_alloc:
  assumes "ample k (Suc n)"
  shows "\<exists>p k'. frames_alloc k 0 = Some (Some p, k') \<and> 4096 dvd p \<and> ample k' n"
proof -
  obtain F where F: "frames_held k F" "Rg (allocator k) = [(0x100000, 0x110000)]" "finite F" "card F + Suc n \<le> 16"
    using assms by (auto simp: ample_def)
  let ?A = "(\<lambda>p. (p, 0 :: nat)) ` F" and ?b = "allocator k"
  have run: "breach ?b ?A"
    using F(1) by (simp add: frames_held_def)
  obtain L where inv: "binv ?b L ?A"
    using breach_binv [OF run] by blast
  have al: "4096 dvd p" if "p \<in> F" for p
    using partD(1) [OF coreD(5), of ?b L ?A "{}" "{}" "(p, 0)"] inv that by (auto simp: binv_def block_in_def block_size_0)
  let ?P = "(\<lambda>i. 0x100000 + 4096 * i) ` {0..<16 :: nat}"
  have "card ?P = 16"
    by (subst card_image) (auto simp: inj_on_def)
  then have "\<not> ?P \<subseteq> F"
    using F(3,4) card_mono [of F ?P] by auto
  then obtain c0 where "c0 \<in> ?P" "c0 \<notin> F" by blast
  then obtain i where i: "i < 16" "0x100000 + 4096 * i \<notin> F"
    by auto
  define c where "c = 0x100000 + 4096 * i"
  have c: "4096 dvd c" "0x100000 \<le> c" "c + 4096 \<le> 0x110000" "c \<notin> F"
    using i by (auto simp: c_def)
  have "brange B \<inter> brange (c, 0) = {}" if B: "B \<in> ?A" for B
  proof -
    obtain p where p: "B = (p, 0)" "p \<in> F" using B by auto
    have "c \<noteq> p" using p(2) c(4) by auto
    then have "\<not> (p \<le> c + j \<and> c + j < p + 4096)" if "j < 4096" for j
      using frame_apart [OF c(1) al [OF p(2)], of j 4096] that by simp
    then have "x \<notin> brange B" if "x \<in> brange (c, 0)" for x
      using that le_Suc_ex [of c x] by (auto simp: p(1) brange_def block_size_0)
    then show ?thesis by blast
  qed
  then obtain j where "0 \<le> j" "j \<le> MAX_ORDER" "L j \<noteq> []"
    using room_has_block [OF inv, of 0 "0x100000" "0x110000" c] F(2) c by (auto simp: block_size_0)
  then obtain p b' where g: "buddy_alloc ?b 0 = Some (Some p, b')" "Rg b' = Rg ?b"
    using alloc_granted [OF inv, of 0 j] by auto
  obtain r k' where r: "frames_alloc k 0 = Some (r, k')" "case r of None \<Rightarrow> frames_held k' F | Some p \<Rightarrow> p \<in> frames_memory k - F \<and> 4096 dvd p \<and> frames_held k' (insert p F)"
    using kf.alloc_fresh [OF F(1)] by (auto split: option.splits)
  have "r = Some p" "k' = k\<lparr>allocator := b'\<rparr>"
    using r(1) g(1) by (auto simp: frames_alloc_def)
  then have "ample k' n"
    unfolding ample_def using r(2) g(2) F by (intro exI [of _ "insert p F"]) auto
  then show ?thesis
    using r \<open>r = Some p\<close> by auto
qed

lemma flat_map_user:
  assumes "user_page va" "4096 dvd pa" "flat_view (tables s) (root_pa v) va = None"
  shows "\<exists>s'. map_user flat_x86 falloc va pa w x v s = Some (Inr (), v, s') \<and> pool s' = pool s \<and> kernel_root s' = kernel_root s \<and>
    flat_view (tables s') (root_pa v) = (flat_view (tables s) (root_pa v))(va \<mapsto> (pa, user_flags w x))"
  using assms to_x86_user [of w x]
  by (auto simp: map_user_def user_page_def as_map_def as_map_page_def flat_x86_def Let_def flat_mapped)

lemma flat_new_page:
  assumes "falloc (pool s) = Some (Some p, a)" "4096 dvd p" "user_page va" "flat_view (tables s) (root_pa v) va = None"
  shows "\<exists>v' s'. map_new_page flat_x86 falloc va w x v s = Some (Inr p, v', s') \<and> root_pa v' = root_pa v \<and> pool s' = a \<and>
    flat_view (tables s') (root_pa v) = (flat_view (tables s) (root_pa v))(va \<mapsto> (p, user_flags w x))"
  using assms(1) flat_map_user [OF assms(3,2), of "s\<lparr>pool := a, ram := zero_frame p (ram s)\<rparr>" "v\<lparr>owned := owned v @ [p]\<rparr>" falloc w x] assms(4)
  by (auto simp: map_new_page_def)

lemma flat_set_permissions:
  assumes "user_page va" "4096 dvd f" "flat_view (tables s) (root_pa v) va = Some (f, fl)"
  shows "\<exists>s'. set_permissions flat_x86 falloc va w x v s = Some (Inr (), v, s') \<and> pool s' = pool s \<and>
    flat_view (tables s') (root_pa v) = (flat_view (tables s) (root_pa v))(va \<mapsto> (f, user_flags w x))"
proof -
  let ?s = "s\<lparr>tables := (fst (tables s), (snd (tables s))(root_pa v := (snd (tables s) (root_pa v))(va := None))),
    invalidated := invalidated s @ [Local va, Remote va]\<rparr>"
  have "as_unmap flat_x86 (root_pa v) va s = Some (Inr f, ?s)"
    using assms by (simp add: as_unmap_def flat_x86_def user_page_def)
  moreover have "flat_view (tables ?s) (root_pa v) = (flat_view (tables s) (root_pa v))(va := None)"
    using flat_unmapped [of "fst (tables s)" "snd (tables s)"] by simp
  ultimately show ?thesis
    using flat_map_user [OF assms(1,2), of ?s v falloc w x] by (auto simp: set_permissions_def)
qed

lemma flat_new:
  assumes "falloc (pool s) = Some (Some p, a)" "kernel_root s \<noteq> 0"
  shows "\<exists>v s'. vm_new flat_x86 falloc s = Some (Some v, s') \<and> pool s' = a \<and> flat_view (tables s') (root_pa v) = (\<lambda>_. None)"
proof -
  let ?m = "copy_kernel_half flat_x86 p (kernel_root s) (zero_table flat_x86 p (tables s))"
  have "x_entry flat_x86 ?m p i = Unused" if "i < 256" for i
    using that unfolding copy_kernel_half_def zero_table_def copy_entries [OF flat_crate_ok] zero_entries [OF flat_crate_ok] set_upt by simp
  then have "flat_view ?m p = (\<lambda>_. None)"
    using crate_okD(7) [OF flat_crate_ok] by blast
  then show ?thesis
    using assms by (simp add: vm_new_def)
qed

definition ex_segment :: segment where
  "ex_segment = \<lparr>seg_vaddr = 0x400000, seg_mem_size = 8, seg_data = [0x90, 0x90, 0x90, 0x90], seg_writable = False, seg_executable = True\<rparr>"

lemma ex_segments: "file_segments minimal_elf = [ex_segment]"
proof -
  have "field minimal_elf 56 2 = 1" "phdr_at minimal_elf 0 = 64" "field minimal_elf 64 4 = 1"
    by (simp_all add: minimal_elf_def field_def phdr_at_def)
  moreover have "segment_spec minimal_elf 64 = ex_segment"
    by (simp add: minimal_elf_def field_def segment_spec_def bit_0 ex_segment_def)
  ultimately show ?thesis
    by (simp add: file_segments_def)
qed

lemma ex_segment_pages: "segment_pages ex_segment = Inr (0x400000, 0x401000)" "step_pages (0x400000, 0x401000) = [0x400000]" "user_page 0x400000"
  by (simp_all add: segment_pages_def ex_segment_def align_down_def usize_checked_add_def u64_checked_next_multiple_of_def next_multiple_def
      USER_MAX_def USER_MIN_def step_pages_def user_page_def)

lemma ex_stack: "user_page (stack_va 0)" "user_page (stack_va 1)" "user_page (stack_va 2)" "user_page (stack_va 3)"
  "stack_va 0 \<noteq> 0x400000" "stack_va 1 \<noteq> 0x400000" "stack_va 2 \<noteq> 0x400000" "stack_va 3 \<noteq> 0x400000" "distinct [stack_va 0, stack_va 1, stack_va 2, stack_va 3]"
  by (simp_all add: user_page_def stack_va_def USER_STACK_TOP_def USER_MAX_def USER_MIN_def)

lemma ex_fields: "unat (seg_vaddr ex_segment) = 0x400000" "seg_data ex_segment = [0x90, 0x90, 0x90, 0x90]"
  by (simp_all add: ex_segment_def)

text \<open>Stack pages are mapped as long as there are frames and the pages are free.\<close>

lemma flat_stack:
  "ample (pool s) (length js + n) \<Longrightarrow> \<forall>i \<in> set js. user_page (stack_va i) \<and> flat_view (tables s) (root_pa v) (stack_va i) = None \<Longrightarrow>
    distinct (map stack_va js) \<Longrightarrow> \<exists>v' s'. map_stack flat_x86 (\<lambda>k. frames_alloc k 0) js v s = Some (Inr (), v', s')"
proof (induction js arbitrary: v s)
  case (Cons i js)
  obtain p a where p: "frames_alloc (pool s) 0 = Some (Some p, a)" "4096 dvd p" "ample a (length js + n)"
    using ample_alloc [of "pool s" "length js + n"] Cons.prems(1) by auto
  obtain v1 s1 where m: "map_new_page flat_x86 (\<lambda>k. frames_alloc k 0) (stack_va i) True False v s = Some (Inr p, v1, s1)" "root_pa v1 = root_pa v" "pool s1 = a"
    "flat_view (tables s1) (root_pa v) = (flat_view (tables s) (root_pa v))(stack_va i \<mapsto> (p, user_flags True False))"
    using flat_new_page [of "\<lambda>k. frames_alloc k 0" s p a "stack_va i" v True False] p(1,2) Cons.prems(2) by auto
  have "\<forall>j \<in> set js. user_page (stack_va j) \<and> flat_view (tables s1) (root_pa v1) (stack_va j) = None"
    using Cons.prems(2,3) m(2,4) by (auto simp: image_iff eq_commute)
  then obtain v' s' where "map_stack flat_x86 (\<lambda>k. frames_alloc k 0) js v1 s1 = Some (Inr (), v', s')"
    using Cons.IH [of s1 v1] p(3) m(3) Cons.prems(3) by auto
  then show ?case
    using m(1) by (simp add: stack_va_def)
qed simp

lemma ex_load:
  assumes "ample (pool s) 6" "kernel_root s \<noteq> 0" and bs: "elf_wf bs" "length bs < 2 ^ 64" "file_segments bs = [ex_segment]"
  shows "\<exists>p s'. kernel_from_elf flat_x86 bs s = Some (Inr p, s') \<and> p_entry p = elf_entry (elf_of bs)"
proof -
  let ?al = "\<lambda>k. frames_alloc k 0"
  have parse: "parse bs = Some (Inr (elf_of bs))" "segments (elf_of bs) = Some [ex_segment]"
    using parse_eq [OF bs(2)] bs(1) segments_elf_of [OF bs(1,2), folded file_segments_def, unfolded bs(3)] by auto
  have "ample (pool s) (Suc 5)" using assms(1) by simp
  then obtain p0 a0 where p0: "frames_alloc (pool s) 0 = Some (Some p0, a0)" "ample a0 (Suc 4)"
    using ample_alloc by fastforce
  obtain v s0 where n: "vm_new flat_x86 ?al s = Some (Some v, s0)" "pool s0 = a0" "flat_view (tables s0) (root_pa v) = (\<lambda>_. None)"
    using flat_new [of ?al, OF p0(1) assms(2)] by blast
  obtain p1 a1 where p1: "frames_alloc a0 0 = Some (Some p1, a1)" "4096 dvd p1" "ample a1 4"
    using ample_alloc [OF p0(2)] by auto
  obtain v1 s1 where m: "map_new_page flat_x86 ?al 0x400000 True True v s0 = Some (Inr p1, v1, s1)" "root_pa v1 = root_pa v" "pool s1 = a1"
    "flat_view (tables s1) (root_pa v) = [0x400000 \<mapsto> (p1, user_flags True True)]"
    using flat_new_page [of ?al s0 p1 a1 "0x400000" v True True] p1 n ex_segment_pages(3) by auto
  define s2 where "s2 = s1\<lparr>ram := blit p1 (seg_data ex_segment) (ram s1)\<rparr>"
  have "as_translate flat_x86 (root_pa v) 0x400000 s0 = Some None" "as_translate flat_x86 (root_pa v1) 0x400000 s1 = Some (Some p1)"
    using n(3) m(2,4) by (simp_all add: as_translate_def flat_x86_def)
  then have l: "load_segments flat_x86 ?al [ex_segment] v s0 = Some (Inr (), v1, s2)"
    using m(1) by (simp add: ex_segment_pages is_mapped_def vm_translate_def copy_data.simps add64_def slice_of_def s2_def ex_fields)
  have ps: "collect_perms [ex_segment] [] = Inr [(0x400000, False, True)]"
    by (simp add: ex_segment_pages) (simp add: ex_segment_def)
  obtain s3 where st: "set_permissions flat_x86 ?al 0x400000 False True v1 s2 = Some (Inr (), v1, s3)" "pool s3 = a1"
    "flat_view (tables s3) (root_pa v1) = [0x400000 \<mapsto> (p1, user_flags False True)]"
    using flat_set_permissions [of "0x400000" p1 s2 v1 _ ?al False True] ex_segment_pages(3) p1(2) m by (auto simp: s2_def)
  have is4: "[0..<USER_STACK_PAGES] = [0, 1, 2, 3]"
    by (simp add: USER_STACK_PAGES_def upt_rec)
  have am: "ample (pool s3) (length [0, 1, 2, 3 :: nat] + 0)"
    using p1(3) st(2) by (simp add: eval_nat_numeral)
  obtain v4 s4 where "map_stack flat_x86 ?al [0..<USER_STACK_PAGES] v1 s3 = Some (Inr (), v4, s4)"
    using flat_stack [OF am, of v1] st(3) ex_stack unfolding is4 by auto
  then have "load_image flat_x86 ?al [ex_segment] v s0 = Some (Inr (), v4, s4)"
    using l ps st(1) by (simp add: load_image_def ex_segment_pages)
  then show ?thesis
    using parse n(1) by (simp add: kernel_from_elf_def from_elf_def)
qed

lemma ex_frames: "\<exists>k. frames_held k {} \<and> 0x1000 \<notin> frames_memory k \<and> ample k 6"
proof -
  obtain b where b: "breach b {}" "Rg b = [(0x100000, 0x110000)]"
    using ex_region by blast
  let ?k = "\<lparr>allocator = b, initialised = True, excluded_low_bytes = 0\<rparr>"
  have "frames_held ?k {} \<and> 0x1000 \<notin> frames_memory ?k"
    using b by (auto simp: frames_held_def frames_memory_def managed_def)
  then have "frames_held ?k {} \<and> 0x1000 \<notin> frames_memory ?k \<and> ample ?k 6"
    using b(2) by (auto simp: ample_def)
  then show ?thesis by blast
qed


theorem loaded_image_exact_witness:
  "\<exists>s p s'. frames_held (pool s) {} \<and> kernel_from_elf flat_x86 minimal_elf s = Some (Inr p, s') \<and>
     bytes_ok flat_view [ex_segment] (p_space p) s'"
proof -
  obtain k where k: "frames_held k {}" "0x1000 \<notin> frames_memory k" "ample k 6"
    using ex_frames by blast
  obtain p s' where "kernel_from_elf flat_x86 minimal_elf (ex_kmem k) = Some (Inr p, s')"
    using ex_load [of "ex_kmem k" minimal_elf] k(3) minimal_elf_wf ex_segments by (auto simp: ex_kmem_def)
  then show ?thesis
    using loaded_image_exact [OF flat_crate_ok, of "ex_kmem k" "{}" minimal_elf p s'] minimal_elf_wf(1) k(1,2) ex_segments
    by (intro exI [of _ "ex_kmem k"] exI [of _ p] exI [of _ s']) (auto simp: ex_kmem_def)
qed

section \<open>What the loader does not check\<close>

text \<open>The entry point is taken from the header as it is. An address between the canonical halves is accepted, and
  \<open>enter_user\<close> then executes \<open>iretq\<close> to it, which faults in ring 0.\<close>

definition wild_elf :: bytes where
  "wild_elf = minimal_elf[31 := 0x80]"

lemma wild_elf_wf: "length wild_elf = 124" "elf_wf wild_elf" "file_segments wild_elf = [ex_segment]" "unat (elf_entry (elf_of wild_elf)) = 0x8000000000400000"
proof -
  show "length wild_elf = 124" "elf_wf wild_elf"
    by (simp_all add: wild_elf_def minimal_elf_def elf_wf_def field_def phdr_at_def load_ok_def load_fits_def)
  have "field wild_elf 56 2 = 1" "phdr_at wild_elf 0 = 64" "field wild_elf 64 4 = 1"
    by (simp_all add: wild_elf_def minimal_elf_def field_def phdr_at_def)
  moreover have "segment_spec wild_elf 64 = ex_segment"
    by (simp add: wild_elf_def minimal_elf_def field_def segment_spec_def bit_0 ex_segment_def)
  ultimately show "file_segments wild_elf = [ex_segment]"
    by (simp add: file_segments_def)
  show "unat (elf_entry (elf_of wild_elf)) = 0x8000000000400000"
    by (simp add: wild_elf_def minimal_elf_def elf_of_def field_def)
qed

lemma entry_not_validated:
  "\<exists>s p s'. kernel_from_elf flat_x86 wild_elf s = Some (Inr p, s') \<and> 2 ^ 47 \<le> unat (p_entry p) \<and> unat (p_entry p) < 2 ^ 64 - 2 ^ 47"
proof -
  obtain k where "ample k 6"
    using ex_frames by blast
  then obtain p s' where "kernel_from_elf flat_x86 wild_elf (ex_kmem k) = Some (Inr p, s')" "p_entry p = elf_entry (elf_of wild_elf)"
    using ex_load [of "ex_kmem k" wild_elf] wild_elf_wf by (auto simp: ex_kmem_def)
  then show ?thesis
    using wild_elf_wf(4) by (intro exI [of _ "ex_kmem k"] exI [of _ p] exI [of _ s']) simp
qed

text \<open>The last page below the canonical hole may hold code. A \<open>syscall\<close> in its last two bytes saves \<open>USER_MAX\<close> as the return
  address, and \<open>sysretq\<close> to that address faults in ring 0 on the user's stack.\<close>

lemma top_page_executable:
  "segment_pages \<lparr>seg_vaddr = 0x7ffffffff000, seg_mem_size = 0x1000, seg_data = [], seg_writable = False, seg_executable = True\<rparr> =
     Inr (USER_MAX - 4096, USER_MAX) \<and> USER_MAX = 2 ^ 47"
  by (simp add: segment_pages_def align_down_def usize_checked_add_def u64_checked_next_multiple_of_def next_multiple_def USER_MAX_def USER_MIN_def)

end
