(* ===== verification/Syscall.thy ===== *)
theory Syscall
  imports Flat_Tables Abi
begin

text \<open>
  System-call dispatch, \<open>kernel/src/syscall.rs\<close>. The state extends that of \<open>Vmspace\<close> with the console and the count of
  killed processes. \<open>hw\<close> is the processor's own translation of a page under the loaded tables: a kernel read of a
  page it does not map is a fault in ring 0, which panics. What a call does to the scheduler is its action.
\<close>

section \<open>Model\<close>


datatype user_fault_kind = InvalidOpcode | GeneralProtection | PageFault

definition fault_as_str :: "user_fault_kind \<Rightarrow> string" where
  "fault_as_str what =
     (case what of
        InvalidOpcode \<Rightarrow> ''invalid opcode''
      | GeneralProtection \<Rightarrow> ''general protection fault''
      | PageFault \<Rightarrow> ''page fault'')"

datatype console_event = Exited u64 | Byte u8 | Killed string u64

record ('m, 'a) ksys = "('m, 'a) kmem" +
  console :: "console_event list"
  process_kills :: nat

text \<open>How a handler ends: a value in the return register, \<open>sched::exit_current\<close>, or \<open>sched::yield_now\<close> and then a value.\<close>

datatype sys_action = Return int | Exit_current | Yield_then int

definition sys_root :: "('m, 'a) ksys \<Rightarrow> ('m, 'a) ksys run" where
  "sys_root s = do { check (kernel_root s \<noteq> 0); Some (s\<lparr>cr3 := kernel_root s\<rparr>) }"

definition user_fault :: "u64 \<Rightarrow> user_fault_kind \<Rightarrow> ('m, 'a) ksys \<Rightarrow> (sys_action \<times> ('m, 'a) ksys) run" where
  "user_fault rip what s = do {
     let s = s\<lparr>process_kills := (process_kills s + 1) mod 2 ^ 64\<rparr>;
     let s = s\<lparr>console := console s @ [Killed (fault_as_str what) rip]\<rparr>;
     s \<leftarrow> sys_root s;
     Some (Exit_current, s) }"









section \<open>The copy\<close>







section \<open>Properties\<close>





end
