(* ===== verification/Tlb.thy ===== *)
theory Tlb
  imports Qunix_Prelude
begin

text \<open>
  Cross-processor TLB shootdown, \<open>crates/qunix-hal-x86_64/src/tlb.rs\<close>, as an interleaving of the atomic operations of
  every processor. A processor runs \<open>shootdown\<close> (\<open>sd_pc\<close>) and, in the interrupt handler or in a lock wait,
  \<open>service_pending\<close> (\<open>svc\<close>). The processors' translation caches are ghost state: the requests a cache may still hold a
  translation for.
\<close>

section \<open>Model\<close>

definition SHOOTDOWN_VECTOR :: u8 where "SHOOTDOWN_VECTOR = 33"
definition TARGET_ALL :: u64 where "TARGET_ALL = - 1"

text \<open>What does not change once the processors are up: \<open>percpu::online_mask\<close>, which processors have a block and can name
  themselves, and whether the local APIC sends.\<close>

record conf =
  online :: u64
  installed :: "nat \<Rightarrow> bool"
  registered :: "nat \<Rightarrow> bool"
  lapic :: bool

text \<open>The program counter of \<open>service_pending\<close> and of \<open>shootdown\<close>; the latter carries the request, its target and the mask.\<close>

datatype svc = Load_pending | Load_target | Invalidate u64 | Count | Acknowledge

datatype sd_pc =
    Idle
  | Enter nat u64
  | Acquire nat u64 u64
  | Acquire_service nat u64 u64 svc
  | Set_target nat u64 u64
  | Set_pending nat u64 u64
  | Send nat u64
  | Wait nat u64
  | Wait_service nat u64 svc
  | Release nat u64

record tlb =
  pending :: u64
  target :: u64
  in_progress :: bool
  serviced :: "nat \<Rightarrow> u64"
  ipis :: "nat \<Rightarrow> bool"
  main :: "nat \<Rightarrow> sd_pc"
  handler :: "nat \<Rightarrow> svc option"
  requests :: nat
  caches :: "nat \<Rightarrow> (nat \<times> u64) set"
  returned :: "(nat \<times> nat \<times> u64) set"

definition tlb_boot :: tlb where
  "tlb_boot = \<lparr>pending = 0, target = TARGET_ALL, in_progress = False, serviced = (\<lambda>_. 0), ipis = (\<lambda>_. False), main = (\<lambda>_. Idle),
     handler = (\<lambda>_. None), requests = 0, caches = (\<lambda>_. {}), returned = {}\<rparr>"

definition cpu_bit :: "nat \<Rightarrow> u64" where
  "cpu_bit c = push_bit c 1"

definition remote_mask :: "u64 \<Rightarrow> nat \<Rightarrow> u64" where
  "remote_mask online_cpus self_id = (if self_id \<ge> MAX_CPUS then 0 else online_cpus AND NOT (cpu_bit self_id))"

definition invalidate :: "u64 \<Rightarrow> (nat \<times> u64) set \<Rightarrow> (nat \<times> u64) set" where
  "invalidate t cache = (if t = TARGET_ALL then {} else {r \<in> cache. snd r \<noteq> t})"

text \<open>One operation of \<open>service_pending\<close> on processor \<open>c\<close>; \<open>None\<close> is its return.\<close>

fun service_pending :: "conf \<Rightarrow> nat \<Rightarrow> svc \<Rightarrow> tlb \<Rightarrow> svc option \<times> tlb" where
  "service_pending k c Load_pending s =
     (if \<not> registered k c then (None, s)
      else if c \<ge> MAX_CPUS then (None, s)
      else if pending s AND cpu_bit c = 0 then (None, s)
      else (Some Load_target, s))"
| "service_pending k c Load_target s = (Some (Invalidate (target s)), s)"
| "service_pending k c (Invalidate t) s = (Some Count, s\<lparr>caches := (caches s)(c := invalidate t (caches s c))\<rparr>)"
| "service_pending k c Count s = (Some Acknowledge, s\<lparr>serviced := (serviced s)(c := serviced s c + 1)\<rparr>)"
| "service_pending k c Acknowledge s = (None, s\<lparr>pending := pending s AND NOT (cpu_bit c)\<rparr>)"

text \<open>One operation of \<open>shootdown\<close> on processor \<open>c\<close>; \<open>spurious\<close> is a failure of the weak exchange.\<close>

fun shootdown :: "conf \<Rightarrow> bool \<Rightarrow> nat \<Rightarrow> sd_pc \<Rightarrow> tlb \<Rightarrow> (sd_pc \<times> tlb) run" where
  "shootdown k spurious c Idle s = Some (Idle, s)"
| "shootdown k spurious c (Enter i t) s =
     (if \<not> installed k c then Some (Idle, s\<lparr>returned := insert (i, c, t) (returned s)\<rparr>)
      else
        let remote = remote_mask (online k) c in
        if remote = 0 then Some (Idle, s\<lparr>returned := insert (i, c, t) (returned s)\<rparr>)
        else Some (Acquire i t remote, s))"
| "shootdown k spurious c (Acquire i t r) s =
     (if in_progress s \<or> spurious then Some (Acquire_service i t r Load_pending, s)
      else Some (Set_target i t r, s\<lparr>in_progress := True\<rparr>))"
| "shootdown k spurious c (Acquire_service i t r p) s =
     Some (case service_pending k c p s of (None, s) \<Rightarrow> (Acquire i t r, s) | (Some p, s) \<Rightarrow> (Acquire_service i t r p, s))"
| "shootdown k spurious c (Set_target i t r) s = Some (Set_pending i t r, s\<lparr>target := t\<rparr>)"
| "shootdown k spurious c (Set_pending i t r) s = Some (Send i t, s\<lparr>pending := r\<rparr>)"
| "shootdown k spurious c (Send i t) s =
     (if lapic k then Some (Wait i t, s\<lparr>ipis := (\<lambda>d. if d = c then ipis s d else True)\<rparr>) else None)"
| "shootdown k spurious c (Wait i t) s =
     (if pending s \<noteq> 0 then Some (Wait_service i t Load_pending, s) else Some (Release i t, s))"
| "shootdown k spurious c (Wait_service i t p) s =
     Some (case service_pending k c p s of (None, s) \<Rightarrow> (Wait i t, s) | (Some p, s) \<Rightarrow> (Wait_service i t p, s))"
| "shootdown k spurious c (Release i t) s =
     Some (Idle, s\<lparr>in_progress := False, returned := insert (i, c, t) (returned s)\<rparr>)"

text \<open>Whether a processor stands inside the \<open>service_pending\<close> that \<open>shootdown\<close> calls.\<close>

fun in_service :: "sd_pc \<Rightarrow> bool" where
  "in_service (Acquire_service i t r p) = True"
| "in_service (Wait_service i t p) = True"
| "in_service _ = False"

text \<open>The steps of the machine. A call begins after the tables were changed and the page was invalidated locally, so from
  there every other cache may hold the old translation. The interprocessor interrupt runs the handler, which
  suspends what it interrupts; a wait for a lock polls \<open>service_pending\<close> with interrupts masked. With \<open>nest\<close> the
  interrupt may arrive inside the \<open>service_pending\<close> of a \<open>shootdown\<close>.\<close>

inductive tlb_step :: "conf \<Rightarrow> bool \<Rightarrow> tlb \<Rightarrow> tlb \<Rightarrow> bool" for k nest where
  Call: "c < MAX_CPUS \<Longrightarrow> main s c = Idle \<Longrightarrow> handler s c = None \<Longrightarrow>
     tlb_step k nest s (s\<lparr>main := (main s)(c := Enter (requests s) t), requests := requests s + 1,
       caches := (\<lambda>d. if d = c then caches s d else insert (requests s, t) (caches s d))\<rparr>)"
| Main: "c < MAX_CPUS \<Longrightarrow> handler s c = None \<Longrightarrow> shootdown k spurious c (main s c) s = Some (pc, s') \<Longrightarrow>
     tlb_step k nest s (s'\<lparr>main := (main s')(c := pc)\<rparr>)"
| Interrupt: "c < MAX_CPUS \<Longrightarrow> ipis s c \<Longrightarrow> handler s c = None \<Longrightarrow> nest \<or> \<not> in_service (main s c) \<Longrightarrow>
     tlb_step k nest s (s\<lparr>ipis := (ipis s)(c := False), handler := (handler s)(c := Some Load_pending)\<rparr>)"
| Poll: "c < MAX_CPUS \<Longrightarrow> main s c = Idle \<Longrightarrow> handler s c = None \<Longrightarrow>
     tlb_step k nest s (s\<lparr>handler := (handler s)(c := Some Load_pending)\<rparr>)"
| Handle: "c < MAX_CPUS \<Longrightarrow> handler s c = Some p \<Longrightarrow> service_pending k c p s = (r, s') \<Longrightarrow>
     tlb_step k nest s (s'\<lparr>handler := (handler s')(c := r)\<rparr>)"

inductive tlb_reach :: "conf \<Rightarrow> bool \<Rightarrow> tlb \<Rightarrow> bool" for k nest where
  Boot: "tlb_reach k nest tlb_boot"
| Step: "tlb_reach k nest s \<Longrightarrow> tlb_step k nest s s' \<Longrightarrow> tlb_reach k nest s'"

definition conf_ok :: "conf \<Rightarrow> bool" where
  "conf_ok k \<longleftrightarrow> lapic k \<and> (\<forall>c < MAX_CPUS. bit (online k) c \<longrightarrow> installed k c \<and> registered k c) \<and>
     (\<forall>c. \<not> installed k c \<longrightarrow> online k = 0)"

section \<open>Masks\<close>

lemma bit_cpu_bit: "bit (cpu_bit c) d \<longleftrightarrow> c = d \<and> d < 64"
  unfolding cpu_bit_def by (subst bit_push_bit_iff) (auto simp: bit_1_iff)

lemma mask_bit [simp]:
  assumes "c < MAX_CPUS"
  shows "w AND cpu_bit c = 0 \<longleftrightarrow> \<not> bit w c"
proof
  assume "w AND cpu_bit c = 0"
  then have "\<not> bit (w AND cpu_bit c) c" by simp
  then show "\<not> bit w c" using assms by (simp add: bit_and_iff bit_cpu_bit MAX_CPUS_def)
next
  assume "\<not> bit w c"
  then show "w AND cpu_bit c = 0"
    by (intro bit_word_eqI) (auto simp: bit_and_iff bit_cpu_bit)
qed

lemma bit_clear [simp]: "bit (w AND NOT (cpu_bit c)) d \<longleftrightarrow> bit w d \<and> d \<noteq> c"
  by (auto simp: bit_and_iff bit_not_iff bit_cpu_bit dest: bit_imp_le_length)

lemma bit_remote [simp]: "c < MAX_CPUS \<Longrightarrow> bit (remote_mask w c) d \<longleftrightarrow> bit w d \<and> d \<noteq> c"
  by (simp add: remote_mask_def)

section \<open>The protocol\<close>

text \<open>The request a processor has published, and the requests it is working on.\<close>

fun holds :: "sd_pc \<Rightarrow> (nat \<times> u64) option" where
  "holds (Set_target i t r) = Some (i, t)"
| "holds (Set_pending i t r) = Some (i, t)"
| "holds (Send i t) = Some (i, t)"
| "holds (Wait i t) = Some (i, t)"
| "holds (Wait_service i t p) = Some (i, t)"
| "holds (Release i t) = Some (i, t)"
| "holds _ = None"

fun published :: "sd_pc \<Rightarrow> (nat \<times> u64) option" where
  "published (Send i t) = Some (i, t)"
| "published (Wait i t) = Some (i, t)"
| "published (Wait_service i t p) = Some (i, t)"
| "published _ = None"

fun request :: "sd_pc \<Rightarrow> nat option" where
  "request Idle = None"
| "request (Enter i t) = Some i"
| "request (Acquire i t r) = Some i"
| "request (Acquire_service i t r p) = Some i"
| "request (Set_target i t r) = Some i"
| "request (Set_pending i t r) = Some i"
| "request (Send i t) = Some i"
| "request (Wait i t) = Some i"
| "request (Wait_service i t p) = Some i"
| "request (Release i t) = Some i"

fun mask_of :: "sd_pc \<Rightarrow> u64 option" where
  "mask_of (Acquire i t r) = Some r"
| "mask_of (Acquire_service i t r p) = Some r"
| "mask_of (Set_target i t r) = Some r"
| "mask_of (Set_pending i t r) = Some r"
| "mask_of _ = None"

fun svc_of :: "sd_pc \<Rightarrow> svc option" where
  "svc_of (Acquire_service i t r p) = Some p"
| "svc_of (Wait_service i t p) = Some p"
| "svc_of _ = None"

text \<open>Requests are numbered in order, and each is the work of one processor.\<close>

definition ids_ok :: "tlb \<Rightarrow> bool" where
  "ids_ok s \<longleftrightarrow>
     (\<forall>c i. request (main s c) = Some i \<longrightarrow> i < requests s) \<and>
     (\<forall>c d i. request (main s c) = Some i \<longrightarrow> request (main s d) = Some i \<longrightarrow> c = d) \<and>
     (\<forall>c. \<forall>r \<in> caches s c. fst r < requests s) \<and>
     (\<forall>r \<in> returned s. fst r < requests s) \<and>
     (\<forall>c \<ge> MAX_CPUS. main s c = Idle \<and> handler s c = None)"

text \<open>What a processor in the middle of \<open>service_pending\<close> knows when \<open>h\<close> is the initiator: its bit is set, the target it read is the
  published one, and once it has invalidated, its cache no longer has the published request.\<close>

fun svc_ok :: "nat \<Rightarrow> nat \<Rightarrow> svc \<Rightarrow> tlb \<Rightarrow> bool" where
  "svc_ok h c Load_pending s \<longleftrightarrow> True"
| "svc_ok h c Load_target s \<longleftrightarrow> bit (pending s) c"
| "svc_ok h c (Invalidate t) s \<longleftrightarrow> bit (pending s) c \<and> t = target s"
| "svc_ok h c Count s \<longleftrightarrow> bit (pending s) c \<and> (\<forall>r. published (main s h) = Some r \<longrightarrow> r \<notin> caches s c)"
| "svc_ok h c Acknowledge s \<longleftrightarrow> bit (pending s) c \<and> (\<forall>r. published (main s h) = Some r \<longrightarrow> r \<notin> caches s c)"

text \<open>At most one processor \<open>h\<close> is past the exchange on \<open>IN_PROGRESS\<close>, and a processor that has not yet invalidated for its request
  still owes the acknowledgement.\<close>

definition control_ok :: "conf \<Rightarrow> nat \<Rightarrow> tlb \<Rightarrow> bool" where
  "control_ok k h s \<longleftrightarrow>
     (\<forall>c. c \<noteq> h \<longrightarrow> holds (main s c) = None) \<and> (holds (main s h) \<noteq> None \<longrightarrow> in_progress s) \<and>
     (\<forall>c r. mask_of (main s c) = Some r \<longrightarrow> r = remote_mask (online k) c) \<and>
     (\<forall>c. in_service (main s c) \<longrightarrow> handler s c = None)"

definition active :: "tlb \<Rightarrow> nat \<Rightarrow> svc \<Rightarrow> bool" where
  "active s c p \<longleftrightarrow> svc_of (main s c) = Some p \<or> handler s c = Some p"

definition owed :: "conf \<Rightarrow> nat \<Rightarrow> tlb \<Rightarrow> nat \<times> u64 \<Rightarrow> nat set" where
  "owed k h s r = {d. d \<noteq> h \<and> bit (online k) d \<and> r \<in> caches s d}"

definition debts_ok :: "conf \<Rightarrow> nat \<Rightarrow> tlb \<Rightarrow> bool" where
  "debts_ok k h s \<longleftrightarrow>
     (case published (main s h) of
        None \<Rightarrow> pending s = 0
      | Some (i, t) \<Rightarrow> target s = t \<and> (\<forall>d \<in> owed k h s (i, t). bit (pending s) d)) \<and>
     (\<forall>i t r. main s h = Set_pending i t r \<longrightarrow> target s = t) \<and>
     (\<forall>i t. main s h = Release i t \<longrightarrow> owed k h s (i, t) = {}) \<and>
     (\<forall>c p. active s c p \<longrightarrow> svc_ok h c p s)"

definition done_ok :: "conf \<Rightarrow> tlb \<Rightarrow> bool" where
  "done_ok k s \<longleftrightarrow> (\<forall>(i, c, t) \<in> returned s. owed k c s (i, t) = {})"

lemma service_fields:
  assumes "service_pending k c p s = (r, s')"
  shows "target s' = target s" "in_progress s' = in_progress s" "ipis s' = ipis s" "main s' = main s" "handler s' = handler s"
    "requests s' = requests s" "returned s' = returned s" "\<And>d. caches s' d \<subseteq> caches s d" "\<And>d. d \<noteq> c \<Longrightarrow> caches s' d = caches s d"
    "pending s' = pending s \<or> p = Acknowledge \<and> pending s' = pending s AND NOT (cpu_bit c)"
  using assms by (cases p; auto simp: invalidate_def split: if_splits)+

lemma shootdown_fields:
  assumes "shootdown k spurious c pc s = Some (pc', s')"
  shows "main s' = main s" "handler s' = handler s" "requests s' = requests s" "\<And>d. caches s' d \<subseteq> caches s d"
    "\<And>i. request pc' = Some i \<Longrightarrow> request pc = Some i" "\<And>r. r \<in> returned s' \<Longrightarrow> r \<in> returned s \<or> request pc = Some (fst r)"
proof -
  have "main s' = main s \<and> handler s' = handler s \<and> requests s' = requests s \<and> (\<forall>d. caches s' d \<subseteq> caches s d) \<and>
    (\<forall>i. request pc' = Some i \<longrightarrow> request pc = Some i) \<and> (\<forall>r. r \<in> returned s' \<longrightarrow> r \<in> returned s \<or> request pc = Some (fst r))"
  proof (cases "svc_of pc")
    case None
    then show ?thesis
      using assms by (cases pc) (auto simp: Let_def split: if_splits)
  next
    case (Some p)
    obtain r where r: "service_pending k c p s = (r, s')" "request pc' = request pc"
      using Some assms by (cases pc) (auto split: prod.splits option.splits)
    then show ?thesis using service_fields [OF r(1)] by auto
  qed
  then show "main s' = main s" "handler s' = handler s" "requests s' = requests s" "\<And>d. caches s' d \<subseteq> caches s d"
    "\<And>i. request pc' = Some i \<Longrightarrow> request pc = Some i" "\<And>r. r \<in> returned s' \<Longrightarrow> r \<in> returned s \<or> request pc = Some (fst r)"
    by blast+
qed

lemma ids_step:
  assumes "tlb_step k nest s s'" "ids_ok s"
  shows "ids_ok s'"
  using assms(1)
proof cases
  case (Call c t)
  then show ?thesis using assms(2) unfolding ids_ok_def by (auto simp: less_Suc_eq split: if_splits)
next
  case (Main c spurious pc s1)
  note f = shootdown_fields [OF Main(4)]
  have "\<forall>d. \<forall>r \<in> caches s1 d. fst r < requests s1" "\<forall>r \<in> returned s1. fst r < requests s1"
    using assms(2) f(3,4,6) unfolding ids_ok_def by (metis subsetD)+
  then show ?thesis
    using assms(2) Main(1,2) f(1,2,3,5) unfolding ids_ok_def by auto
next
  case (Interrupt c)
  then show ?thesis using assms(2) unfolding ids_ok_def by auto
next
  case (Poll c)
  then show ?thesis using assms(2) unfolding ids_ok_def by auto
next
  case (Handle c p r s1)
  note f = service_fields [OF Handle(4)]
  have "\<forall>d. \<forall>r \<in> caches s1 d. fst r < requests s1"
    using assms(2) f(6,8) unfolding ids_ok_def by (metis subsetD)
  then show ?thesis
    using assms(2) Handle(1,2) f(4-7) unfolding ids_ok_def by auto
qed

lemma published_holds: "published pc = Some r \<Longrightarrow> holds pc = Some r"
  by (cases pc) auto

lemma published_request: "published pc = Some r \<Longrightarrow> request pc = Some (fst r)"
  by (cases pc) auto

lemma control_service:
  assumes "control_ok k h s" "service_pending k c p s = (r, s1)" "main s' = (main s)(c := pc)" "handler s' = (handler s)(c := q)"
    "in_progress s' = in_progress s1" "holds pc = holds (main s c)" "mask_of pc = mask_of (main s c)" "in_service pc \<longrightarrow> q = None"
  shows "control_ok k h s'"
  using assms(1,3-) service_fields [OF assms(2)] unfolding control_ok_def by auto

lemma debts_svc: "debts_ok k h s \<Longrightarrow> active s c p \<Longrightarrow> svc_ok h c p s"
  by (simp add: debts_ok_def)

lemma debts_published: "debts_ok k h s \<Longrightarrow> published (main s h) = Some r \<Longrightarrow> target s = snd r \<and> (\<forall>d \<in> owed k h s r. bit (pending s) d)"
  by (auto simp: debts_ok_def split: prod.splits)

lemma svc_bit: "svc_ok h c p s \<Longrightarrow> p = Load_pending \<or> bit (pending s) c"
  by (cases p) auto

text \<open>A step that changes neither the mask, the target nor the published request.\<close>

lemma debts_frame:
  assumes "debts_ok k h s" "published (main s' h) = published (main s h)" "pending s' = pending s" "target s' = target s"
    and new: "\<And>d r. published (main s h) = Some r \<or> (\<exists>i t. main s h = Release i t \<and> r = (i, t)) \<Longrightarrow> r \<in> caches s' d \<Longrightarrow> r \<in> caches s d"
    and pc: "\<And>i t r. main s' h = Set_pending i t r \<Longrightarrow> main s h = Set_pending i t r" "\<And>i t. main s' h = Release i t \<Longrightarrow> main s h = Release i t"
    and act: "\<And>d p. active s' d p \<Longrightarrow> active s d p \<or> p = Load_pending"
  shows "debts_ok k h s'"
proof -
  have svc: "svc_ok h d p s'" if "active s' d p" for d p
  proof (cases "p = Load_pending")
    case False
    then have "svc_ok h d p s" using act [OF that] debts_svc [OF assms(1)] by blast
    then show ?thesis using assms(2-4) new by (cases p) auto
  qed simp
  have "owed k h s' r \<subseteq> owed k h s r" if "published (main s h) = Some r \<or> (\<exists>i t. main s h = Release i t \<and> r = (i, t))" for r
    using new [OF that] by (auto simp: owed_def)
  then show ?thesis
    using assms(1-4) pc svc unfolding debts_ok_def by (auto split: option.splits prod.splits; blast)
qed

text \<open>A step in which a processor passes the exchange, and every other step.\<close>

definition acquires :: "tlb \<Rightarrow> tlb \<Rightarrow> nat \<Rightarrow> bool" where
  "acquires s s' c \<longleftrightarrow> \<not> in_progress s \<and> (\<exists>i t r. main s c = Acquire i t r \<and> s' = s\<lparr>in_progress := True, main := (main s)(c := Set_target i t r)\<rparr>)"

lemma acquires_proto:
  assumes "acquires s s' c" "control_ok k h s" "debts_ok k h s"
  shows "control_ok k c s'" "debts_ok k c s'"
proof -
  obtain i t r where s': "\<not> in_progress s" "main s c = Acquire i t r" "s' = s\<lparr>in_progress := True, main := (main s)(c := Set_target i t r)\<rparr>"
    using assms(1) by (auto simp: acquires_def)
  have free: "holds (main s d) = None" for d
    using assms(2) s'(1) unfolding control_ok_def by (cases "d = h") (auto simp del: not_None_eq)
  then show "control_ok k c s'"
    using assms(2) s' unfolding control_ok_def by auto
  have "published (main s d) = None" for d
    using free [of d] published_holds [of "main s d"] by (cases "published (main s d)") auto
  then have "pending s = 0"
    using assms(3) by (simp add: debts_ok_def)
  moreover have "svc_ok c d p s'" if "active s' d p" for d p
  proof -
    have "active s d p" using that s' by (auto simp: active_def split: if_splits)
    then have "p = Load_pending" using svc_bit [OF debts_svc [OF assms(3)], of d p] \<open>pending s = 0\<close> by simp
    then show ?thesis by simp
  qed
  ultimately show "debts_ok k c s'"
    using s' unfolding debts_ok_def by simp
qed

lemma control_step:
  assumes "tlb_step k False s s'" "control_ok k h s"
  shows "control_ok k h s' \<or> (\<exists>c. acquires s s' c)"
  using assms(1)
proof cases
  case (Call c t)
  then show ?thesis
    using assms(2) unfolding control_ok_def by auto
next
  case (Main c spurious pc s1)
  show ?thesis
  proof (cases "svc_of (main s c)")
    case None
    show ?thesis
    proof (cases "\<exists>i t r. main s c = Acquire i t r \<and> \<not> in_progress s \<and> \<not> spurious")
      case True
      then show ?thesis
        using Main unfolding acquires_def by (intro disjI2 exI [of _ c]) auto
    next
      case False
      then show ?thesis
        using Main assms(2) None unfolding control_ok_def by (cases "main s c") (auto simp: Let_def split: if_splits)
    qed
  next
    case (Some p)
    obtain r where r: "service_pending k c p s = (r, s1)" "holds pc = holds (main s c)" "mask_of pc = mask_of (main s c)"
      using Some Main(4) by (cases "main s c") (auto split: prod.splits option.splits)
    have "control_ok k h s'"
      by (rule control_service [OF assms(2) r(1), of s' pc None]) (use Main(1,3) r service_fields [OF r(1)] in \<open>auto simp: fun_upd_idem\<close>)
    then show ?thesis ..
  qed
next
  case (Interrupt c)
  then show ?thesis using assms(2) unfolding control_ok_def by auto
next
  case (Poll c)
  then show ?thesis using assms(2) unfolding control_ok_def by auto
next
  case (Handle c p r s1)
  have "\<not> in_service (main s c)" using assms(2) Handle(3) unfolding control_ok_def by auto
  then have "control_ok k h s'"
    using control_service [OF assms(2) Handle(4), of s' "main s c" r] service_fields [OF Handle(4)] by (simp add: Handle(1))
  then show ?thesis by blast
qed

lemma debts_service:
  assumes "debts_ok k h s" "service_pending k c p s = (r, s1)" "c < MAX_CPUS" "svc_ok h c p s"
    and s': "main s' = (main s)(c := pc)" "handler s' = (handler s)(c := q)" "pending s' = pending s1" "target s' = target s1" "caches s' = caches s1"
    and pc: "published pc = published (main s c)" "\<And>i t r. pc = Set_pending i t r \<Longrightarrow> main s c = Set_pending i t r" "\<And>i t. pc = Release i t \<Longrightarrow> main s c = Release i t"
    and rest: "\<And>p. svc_of pc = Some p \<Longrightarrow> r = Some p" "\<And>p. q = Some p \<Longrightarrow> r = Some p"
  shows "debts_ok k h s'"
proof -
  note f = service_fields [OF assms(2)]
  have pub: "published (main s' d) = published (main s d)" for d using pc(1) by (simp add: s')
  have owed: "owed k h s' x \<subseteq> owed k h s x" for x
    using f(8) by (auto simp: owed_def s')
  have pend: "bit (pending s') d" if "bit (pending s) d" "d \<noteq> c" for d
    using f(10) that by (auto simp: s')
  have ack: "d \<noteq> c" if "p = Acknowledge" "published (main s h) = Some x" "d \<in> owed k h s' x" for d x
    using that assms(2,4) f(9) by (auto simp: owed_def s')
  have "case published (main s' h) of None \<Rightarrow> pending s' = 0 | Some (i, t) \<Rightarrow> target s' = t \<and> (\<forall>d \<in> owed k h s' (i, t). bit (pending s') d)"
  proof (cases "published (main s h)")
    case None
    then have "pending s = 0" using assms(1) by (simp add: debts_ok_def)
    then show ?thesis using None f(10) by (auto simp: pub s'(3))
  next
    case (Some x)
    have "target s = snd x" "\<forall>d \<in> owed k h s x. bit (pending s) d"
      using debts_published [OF assms(1) Some] by auto
    moreover have "bit (pending s') d" if "d \<in> owed k h s' x" for d
    proof (cases "p = Acknowledge")
      case True
      then show ?thesis using ack [OF True Some that] pend that owed calculation(2) by blast
    next
      case False
      then have "pending s' = pending s" using f(10) by (simp add: s'(3))
      then show ?thesis using subsetD [OF owed that] calculation(2) by simp
    qed
    ultimately show ?thesis using Some f(1) by (auto simp: pub s'(4) split: prod.splits)
  qed
  moreover have "svc_ok h d p' s'" if "active s' d p'" for d p'
  proof (cases "d = c")
    case True
    then have "r = Some p'" using that rest by (auto simp: active_def s')
    then have r: "service_pending k c p s = (Some p', s1)" using assms(2) by simp
    have inv: "x \<notin> invalidate (target s) (caches s c)" if "published (main s h) = Some x" for x
      using debts_published [OF assms(1) that] by (auto simp: invalidate_def)
    show ?thesis
    proof (cases p)
      case Load_pending
      then have "p' = Load_target" "bit (pending s) c" "s1 = s" using r assms(3) by (auto split: if_splits)
      then show ?thesis by (simp add: True s'(3))
    next
      case Load_target
      then have "p' = Invalidate (target s)" "bit (pending s) c" "s1 = s" using r assms(4) by auto
      then show ?thesis by (simp add: True s'(3,4))
    next
      case (Invalidate t)
      then have "p' = Count" "bit (pending s1) c" "caches s1 c = invalidate (target s) (caches s c)" using r assms(4) by auto
      then show ?thesis using inv by (simp add: True s'(3,5) pub)
    next
      case Count
      then have "p' = Acknowledge" "bit (pending s1) c" "caches s1 c = caches s c" using r by (auto simp: assms(4) [unfolded Count svc_ok.simps])
      then show ?thesis using assms(4) Count by (simp add: True s'(3,5) pub)
    next
      case Acknowledge
      then show ?thesis using r by simp
    qed
  next
    case False
    then have "svc_ok h d p' s" using that debts_svc [OF assms(1)] by (simp add: active_def s')
    then show ?thesis
      using False pend f(9) [of d] pub [of h] by (cases p') (auto simp: s' f(1))
  qed
  moreover have "target s' = t" if "main s' h = Set_pending i t m" for i t m
    using assms(1) that pc(2) unfolding debts_ok_def by (cases "h = c") (auto simp: s' f(1))
  moreover have "owed k h s' (i, t) = {}" if "main s' h = Release i t" for i t
    using assms(1) that pc(3) owed [of "(i, t)"] unfolding debts_ok_def by (cases "h = c") (auto simp: s'(1))
  ultimately show ?thesis
    unfolding debts_ok_def by blast
qed

lemma quiet_svc:
  assumes "debts_ok k h s" "pending s = 0" "active s' d p" "active s' d p \<Longrightarrow> active s d p"
  shows "svc_ok h' d p s'"
proof -
  have "p = Load_pending"
    using svc_bit [OF debts_svc [OF assms(1) assms(4) [OF assms(3)]]] assms(2) by simp
  then show ?thesis by simp
qed

lemma unpublished: "debts_ok k h s \<Longrightarrow> published (main s h) = None \<Longrightarrow> pending s = 0"
  by (simp add: debts_ok_def)

lemma debts_main:
  assumes "shootdown k spurious c (main s c) s = Some (pc, s1)" "svc_of (main s c) = None" "c < MAX_CPUS" "control_ok k h s" "debts_ok k h s"
    and s': "s' = s1\<lparr>main := (main s1)(c := pc)\<rparr>"
  shows "debts_ok k h s' \<or> acquires s s' c"
proof -
  have h: "c = h" if "holds (main s c) \<noteq> None"
    using assms(4) that unfolding control_ok_def by metis
  have frame: "debts_ok k h s'"
    if "main s1 = main s" "handler s1 = handler s" "pending s1 = pending s" "target s1 = target s" "caches s1 = caches s"
      "published pc = published (main s c)" "\<And>i t r. pc \<noteq> Set_pending i t r" "\<And>i t. pc \<noteq> Release i t" "svc_of pc = None \<or> svc_of pc = Some Load_pending"
    by (rule debts_frame [OF assms(5)]) (use that s' in \<open>auto simp: active_def split: if_splits\<close>)
  have act: "active s d p" if "main s1 = main s" "handler s1 = handler s" "svc_of pc = None" "active s' d p" for d p
    using that s' by (auto simp: active_def split: if_splits)
  show ?thesis
  proof (cases "main s c")
    case Idle
    then show ?thesis using assms(1) by - (rule disjI1, rule frame, auto)
  next
    case (Enter i t)
    then show ?thesis using assms(1) by - (rule disjI1, rule frame, auto simp: Let_def split: if_splits)
  next
    case (Acquire i t r)
    show ?thesis
    proof (cases "in_progress s \<or> spurious")
      case True
      then show ?thesis using assms(1) Acquire by - (rule disjI1, rule frame, auto)
    next
      case False
      then show ?thesis using assms(1) Acquire s' by (auto simp: acquires_def)
    qed
  next
    case (Set_target i t r)
    then have eq: "c = h" "pc = Set_pending i t r" "s1 = s\<lparr>target := t\<rparr>" using h assms(1) by auto
    have "pending s = 0" using unpublished [OF assms(5)] Set_target eq(1) by simp
    then show ?thesis
      using quiet_svc [OF assms(5) _ _ act] eq s' unfolding debts_ok_def by auto
  next
    case (Set_pending i t r)
    then have eq: "c = h" "pc = Send i t" "s1 = s\<lparr>pending := r\<rparr>" using h assms(1) by auto
    have "pending s = 0" using unpublished [OF assms(5)] Set_pending eq(1) by simp
    moreover have "r = remote_mask (online k) c" "target s = t"
      using assms(4,5) Set_pending eq(1) unfolding control_ok_def debts_ok_def by auto
    ultimately show ?thesis
      using quiet_svc [OF assms(5) _ _ act] eq s' assms(3) unfolding debts_ok_def by (auto simp: owed_def)
  next
    case (Send i t)
    then show ?thesis using assms(1) by - (rule disjI1, rule frame, auto split: if_splits)
  next
    case (Wait i t)
    show ?thesis
    proof (cases "pending s = 0")
      case True
      then have eq: "c = h" "pc = Release i t" "s1 = s" using h assms(1) Wait by auto
      have "owed k h s (i, t) = {}"
        using debts_published [OF assms(5), of "(i, t)"] Wait eq(1) True by auto
      then show ?thesis
        using quiet_svc [OF assms(5) True _ act] eq s' True unfolding debts_ok_def by (auto simp: owed_def)
    next
      case False
      then show ?thesis using assms(1) Wait by - (rule disjI1, rule frame, auto)
    qed
  next
    case (Release i t)
    then have eq: "c = h" "pc = Idle" "main s1 = main s" "handler s1 = handler s" "pending s1 = pending s" using h assms(1) by auto
    have "pending s = 0" using unpublished [OF assms(5)] Release eq(1) by simp
    then show ?thesis
      using quiet_svc [OF assms(5) _ _ act] eq s' unfolding debts_ok_def by auto
  qed (use assms(2) in auto)
qed

lemma debts_step:
  assumes "tlb_step k False s s'" "control_ok k h s" "debts_ok k h s" "ids_ok s"
  shows "debts_ok k h s' \<or> (\<exists>c. acquires s s' c)"
  using assms(1)
proof cases
  case (Call c t)
  have new: "r \<noteq> (requests s, t)" if "published (main s h) = Some r \<or> (\<exists>i t. main s h = Release i t \<and> r = (i, t))" for r
  proof -
    have "request (main s h) = Some (fst r)"
      using that published_request [of "main s h" r] by auto
    then show ?thesis
      using assms(4) unfolding ids_ok_def by (metis fst_conv less_irrefl)
  qed
  have "debts_ok k h s'"
    by (rule debts_frame [OF assms(3)]) (use Call new in \<open>auto simp: active_def split: if_splits\<close>)
  then show ?thesis ..
next
  case (Main c spurious pc s1)
  show ?thesis
  proof (cases "svc_of (main s c)")
    case None
    then show ?thesis using debts_main [OF Main(4) None Main(2) assms(2,3) Main(1)] by blast
  next
    case (Some p)
    obtain r where r: "service_pending k c p s = (r, s1)" "published pc = published (main s c)" "\<And>i t q. pc \<noteq> Set_pending i t q" "\<And>i t. pc \<noteq> Release i t"
      "\<And>p. svc_of pc = Some p \<Longrightarrow> r = Some p"
      using Some Main(4) by (cases "main s c") (auto split: prod.splits option.splits)
    have ok: "svc_ok h c p s" using Some debts_svc [OF assms(3)] by (simp add: active_def)
    have "debts_ok k h s'"
      by (rule debts_service [OF assms(3) r(1) Main(2) ok, of s' pc None]) (use Main(1,3) service_fields [OF r(1)] r(2-5) in \<open>auto simp: fun_upd_idem\<close>)
    then show ?thesis ..
  qed
next
  case (Interrupt c)
  have "debts_ok k h s'"
    by (rule debts_frame [OF assms(3)]) (use Interrupt in \<open>auto simp: active_def split: if_splits\<close>)
  then show ?thesis ..
next
  case (Poll c)
  have "debts_ok k h s'"
    by (rule debts_frame [OF assms(3)]) (use Poll in \<open>auto simp: active_def split: if_splits\<close>)
  then show ?thesis ..
next
  case (Handle c p r s1)
  have m: "\<not> in_service (main s c)" using assms(2) Handle(3) unfolding control_ok_def by auto
  have ok: "svc_ok h c p s" using Handle(3) debts_svc [OF assms(3)] by (simp add: active_def)
  have "svc_of (main s c) = None" using m by (cases "main s c") auto
  then have "debts_ok k h s'"
    by (intro debts_service [OF assms(3) Handle(4,2) ok, of s' "main s c" r]) (use Handle(1) service_fields [OF Handle(4)] in auto)
  then show ?thesis ..
qed

lemma owed_mono: "(\<And>d. r \<in> caches s' d \<Longrightarrow> r \<in> caches s d) \<Longrightarrow> owed k c s r = {} \<Longrightarrow> owed k c s' r = {}"
  by (auto simp: owed_def)

lemma done_step:
  assumes "tlb_step k False s s'" "conf_ok k" "control_ok k h s" "debts_ok k h s" "ids_ok s" "done_ok k s"
  shows "done_ok k s'"
  using assms(1)
proof cases
  case (Call c t)
  have "owed k d s' (i, u) = {}" if "(i, d, u) \<in> returned s" for i d u
  proof (rule owed_mono)
    show "owed k d s (i, u) = {}" using that assms(6) by (auto simp: done_ok_def)
    have "i < requests s" using that assms(5) unfolding ids_ok_def by fastforce
    then show "(i, u) \<in> caches s e" if "(i, u) \<in> caches s' e" for e
      using that by (auto simp: Call(1) split: if_splits)
  qed
  then show ?thesis by (auto simp: done_ok_def Call(1))
next
  case (Main c spurious pc s1)
  note f = shootdown_fields [OF Main(4)]
  have old: "owed k d s' (i, u) = {}" if "owed k d s (i, u) = {}" for i d u
    by (rule owed_mono [OF _ that]) (use f(4) in \<open>auto simp: Main(1)\<close>)
  have enter: "owed k c s (i, t) = {}" if "main s c = Enter i t" "(i, c, t) \<in> returned s1 - returned s" for i t
  proof -
    have "remote_mask (online k) c = 0"
      using that Main(4) assms(2) by (auto simp: conf_ok_def Let_def remote_mask_def split: if_splits)
    then show ?thesis
      using bit_remote [OF Main(2), of "online k"] by (auto simp: owed_def)
  qed
  have release: "owed k c s (i, t) = {}" if "main s c = Release i t" for i t
  proof -
    have "c = h" using assms(3) that unfolding control_ok_def by (metis holds.simps(6) option.distinct(1))
    then show ?thesis using assms(4) that by (simp add: debts_ok_def)
  qed
  have added: "\<exists>i t. r = (i, c, t) \<and> (main s c = Enter i t \<or> main s c = Release i t)" if "r \<in> returned s1" "r \<notin> returned s" for r
  proof (cases "svc_of (main s c)")
    case None
    then show ?thesis using that Main(4) by (cases "main s c") (auto simp: Let_def split: if_splits)
  next
    case (Some p)
    then obtain q where "service_pending k c p s = (q, s1)"
      using Main(4) by (cases "main s c") (auto split: prod.splits option.splits)
    then show ?thesis using service_fields(7) that by blast
  qed
  have "owed k d s (i, u) = {}" if "(i, d, u) \<in> returned s1" for i d u
  proof (cases "(i, d, u) \<in> returned s")
    case True
    then show ?thesis using assms(6) by (auto simp: done_ok_def)
  next
    case False
    then show ?thesis using added [OF that False] enter release that by blast
  qed
  then show ?thesis
    using old by (auto simp: done_ok_def Main(1))
next
  case (Interrupt c)
  then show ?thesis using assms(6) by (auto simp: done_ok_def owed_def)
next
  case (Poll c)
  then show ?thesis using assms(6) by (auto simp: done_ok_def owed_def)
next
  case (Handle c p r s1)
  note f = service_fields [OF Handle(4)]
  have "owed k d s' (i, u) = {}" if "owed k d s (i, u) = {}" for i d u
    by (rule owed_mono [OF _ that]) (use f(8) in \<open>auto simp: Handle(1)\<close>)
  then show ?thesis using assms(6) f(7) by (auto simp: done_ok_def Handle(1))
qed

definition tlb_inv :: "conf \<Rightarrow> tlb \<Rightarrow> bool" where
  "tlb_inv k s \<longleftrightarrow> ids_ok s \<and> done_ok k s \<and> (\<exists>h. control_ok k h s \<and> debts_ok k h s)"

lemma tlb_invariant:
  assumes "tlb_reach k False s" "conf_ok k"
  shows "tlb_inv k s"
  using assms(1)
proof induction
  case Boot
  then show ?case
    by (auto simp: tlb_inv_def ids_ok_def done_ok_def control_ok_def debts_ok_def active_def tlb_boot_def)
next
  case (Step s s')
  obtain h where h: "ids_ok s" "done_ok k s" "control_ok k h s" "debts_ok k h s"
    using Step.IH by (auto simp: tlb_inv_def)
  have "\<exists>h. control_ok k h s' \<and> debts_ok k h s'"
    using control_step [OF Step.hyps(2) h(3)] debts_step [OF Step.hyps(2) h(3,4,1)] acquires_proto [OF _ h(3,4)] by blast
  then show ?case
    using ids_step [OF Step.hyps(2) h(1)] done_step [OF Step.hyps(2) assms(2) h(3,4,1,2)] by (simp add: tlb_inv_def)
qed

text \<open>C40: when a shootdown returns, no other processor that is online still has a translation for it, in every
  interleaving of any number of shootdowns, lock waits and interrupts in which no interrupt lands inside the
  \<open>service_pending\<close> of a \<open>shootdown\<close> (\<open>nested_service_breaks\<close> shows that one there defeats it); and no shootdown panics.\<close>

theorem shootdown_complete:
  assumes "tlb_reach k False s" "conf_ok k"
  shows "(\<forall>i c t d. (i, c, t) \<in> returned s \<and> d \<noteq> c \<and> bit (online k) d \<longrightarrow> (i, t) \<notin> caches s d) \<and>
    (\<forall>spurious c. shootdown k spurious c (main s c) s \<noteq> None)"
proof -
  have "done_ok k s" using tlb_invariant [OF assms] by (simp add: tlb_inv_def)
  then have "\<forall>i c t d. (i, c, t) \<in> returned s \<and> d \<noteq> c \<and> bit (online k) d \<longrightarrow> (i, t) \<notin> caches s d"
    unfolding done_ok_def owed_def by fastforce
  moreover have "shootdown k spurious c (main s c) s \<noteq> None" for spurious c
    using assms(2) by (cases "main s c") (auto simp: conf_ok_def Let_def)
  ultimately show ?thesis by blast
qed

section \<open>Concrete runs\<close>

text \<open>A schedule, and the state it leads to.\<close>

datatype tlb_op = Call_op nat u64 | Main_op nat | Irq_op nat | Handler_op nat

fun exec_op :: "conf \<Rightarrow> bool \<Rightarrow> tlb_op \<Rightarrow> tlb \<Rightarrow> tlb option" where
  "exec_op k nest (Call_op c t) s =
     (if c < MAX_CPUS \<and> main s c = Idle \<and> handler s c = None then
        Some (s\<lparr>main := (main s)(c := Enter (requests s) t), requests := requests s + 1,
          caches := (\<lambda>d. if d = c then caches s d else insert (requests s, t) (caches s d))\<rparr>)
      else None)"
| "exec_op k nest (Main_op c) s =
     (if c < MAX_CPUS \<and> handler s c = None then
        map_option (\<lambda>(pc, s). s\<lparr>main := (main s)(c := pc)\<rparr>) (shootdown k False c (main s c) s)
      else None)"
| "exec_op k nest (Irq_op c) s =
     (if c < MAX_CPUS \<and> ipis s c \<and> handler s c = None \<and> (nest \<or> \<not> in_service (main s c)) then
        Some (s\<lparr>ipis := (ipis s)(c := False), handler := (handler s)(c := Some Load_pending)\<rparr>)
      else None)"
| "exec_op k nest (Handler_op c) s =
     (case handler s c of
        Some p \<Rightarrow> if c < MAX_CPUS then (case service_pending k c p s of (r, s) \<Rightarrow> Some (s\<lparr>handler := (handler s)(c := r)\<rparr>)) else None
      | None \<Rightarrow> None)"

fun exec_ops :: "conf \<Rightarrow> bool \<Rightarrow> tlb_op list \<Rightarrow> tlb \<Rightarrow> tlb option" where
  "exec_ops k nest [] s = Some s"
| "exec_ops k nest (x # xs) s = (case exec_op k nest x s of None \<Rightarrow> None | Some s \<Rightarrow> exec_ops k nest xs s)"

lemma exec_op_step: "exec_op k nest x s = Some s' \<Longrightarrow> tlb_step k nest s s'"
  by (cases x) (auto split: if_splits option.splits prod.splits intro: tlb_step.Main tlb_step.Interrupt tlb_step.Handle
      tlb_step.Call [unfolded Suc_eq_plus1 [symmetric]])

lemma exec_ops_reach: "exec_ops k nest xs s = Some s' \<Longrightarrow> tlb_reach k nest s \<Longrightarrow> tlb_reach k nest s'"
  by (induction xs arbitrary: s) (auto split: option.splits dest: exec_op_step intro: tlb_reach.Step)

definition two_cpus :: conf where
  "two_cpus = \<lparr>online = 3, installed = (\<lambda>_. True), registered = (\<lambda>_. True), lapic = True\<rparr>"

lemma two_cpus_ok: "conf_ok two_cpus"
  by (simp add: conf_ok_def two_cpus_def)

lemmas run_defs = two_cpus_def tlb_boot_def remote_mask_def cpu_bit_def MAX_CPUS_def invalidate_def TARGET_ALL_def

theorem shootdown_complete_witness:
  "\<exists>s. tlb_reach two_cpus False s \<and> conf_ok two_cpus \<and> (0, 0, 0x1000) \<in> returned s \<and> (0, 0x1000) \<notin> caches s 1"
proof -
  define ops where "ops = Call_op 0 0x1000 # replicate 5 (Main_op 0) @ [Irq_op 1] @ replicate 5 (Handler_op 1) @ replicate 2 (Main_op 0)"
  have "\<exists>s. exec_ops two_cpus False ops tlb_boot = Some s \<and> (0, 0, 0x1000) \<in> returned s"
    by (simp add: ops_def run_defs numeral_eq_Suc Let_def)
  then obtain s where s: "exec_ops two_cpus False ops tlb_boot = Some s" "(0, 0, 0x1000) \<in> returned s" by blast
  have r: "tlb_reach two_cpus False s" using exec_ops_reach [OF s(1)] tlb_reach.Boot by blast
  moreover have "bit (online two_cpus) 1" by (simp add: two_cpus_def)
  then have "(0, 0x1000) \<notin> caches s 1"
    using shootdown_complete [OF r two_cpus_ok] s(2) by (metis zero_neq_one)
  ultimately show ?thesis using s(2) two_cpus_ok by blast
qed

text \<open>Nothing masks interrupts around the \<open>service_pending\<close> calls of \<open>shootdown\<close>. When the interrupt arrives inside one of them, the
  handler acknowledges, the initiator returns and publishes its next request, and the interrupted call then
  acknowledges that request without having invalidated for it: the second shootdown returns while a processor still has
  the translation.\<close>

definition nested_run :: "tlb_op list" where
  "nested_run =
     Call_op 0 0x1000 # replicate 5 (Main_op 0) @ Call_op 1 0x3000 # replicate 6 (Main_op 1) @ Irq_op 1 # replicate 5 (Handler_op 1) @
     replicate 2 (Main_op 0) @ Call_op 0 0x2000 # replicate 5 (Main_op 0) @ [Main_op 1] @ replicate 2 (Main_op 0)"

lemma nested_service_breaks:
  "\<exists>s. tlb_reach two_cpus True s \<and> (2, 0, 0x2000) \<in> returned s \<and> bit (online two_cpus) 1 \<and> (2, 0x2000) \<in> caches s 1"
proof -
  have "\<exists>s. exec_ops two_cpus True nested_run tlb_boot = Some s \<and> (2, 0, 0x2000) \<in> returned s \<and> (2, 0x2000) \<in> caches s 1"
    by (simp add: nested_run_def run_defs numeral_eq_Suc Let_def)
  then obtain s where s: "exec_ops two_cpus True nested_run tlb_boot = Some s" "(2, 0, 0x2000) \<in> returned s" "(2, 0x2000) \<in> caches s 1" by blast
  then show ?thesis
    using exec_ops_reach [OF s(1)] tlb_reach.Boot by (auto simp: two_cpus_def)
qed

end
