(* ===== verification/Spec2Isabelle.thy ===== *)
theory Spec2Isabelle
  imports Kernel_Bcache_Safety Kernel_Sched_Safety Virtio_Queue Slab Vfs_Path Loader Syscall Tlb
begin

text \<open>
  A verification library for qunix, a monolithic x86-64 kernel in Rust. The program is a kernel (\<open>src/kernel\<close>)
  over library crates (\<open>src/crates\<close>) that hold its algorithms as plain data structures, a package manager
  (\<open>src/qpkg\<close>) and a build tool (\<open>src/xtask\<close>). The kernel wraps the data structures in locks; threads run
  on several processors, and devices write into memory the kernel reads.

  \<^bold>\<open>Theories and the code they model\<close>

  \<^item> \<open>Qunix_Prelude\<close>: machine integers, checked arithmetic, slices with bounds checks, little-endian encodings
    and index searches; the conventions (\<open>option\<close> for \<open>Option\<close>, a sum for \<open>Result\<close>, the type \<open>run\<close> for code that may panic).
  \<^item> \<open>Elf\<close>: the ELF64 parser \<open>crates/qunix-elf/src/lib.rs\<close>, function by function on byte lists.
  \<^item> \<open>Sched_Queue\<close>: the run queue and the park state of \<open>crates/qunix-sched\<close> (\<open>lib.rs\<close>, \<open>park.rs\<close>).
  \<^item> \<open>Bcache_Table\<close>: the slot table of \<open>crates/qunix-bcache\<close>.
  \<^item> \<open>Kernel_Bcache\<close>: the buffer cache \<open>kernel/src/bcache.rs\<close> over that table and a disk, as an interleaving of reads, writes,
    syncs and device requests (\<open>bm_step\<close>); \<open>Kernel_Bcache_Inv\<close> has the invariant, \<open>Kernel_Bcache_Runs\<close> example runs and
    \<open>Kernel_Bcache_Safety\<close> the theorems. \<open>Block_Driver\<close> has the errors of \<open>kernel/src/block.rs\<close> and \<open>virtio.rs\<close>.
  \<^item> \<open>Kernel_Sched\<close>: \<open>kernel/src/sched.rs\<close> and \<open>thread.rs\<close> as an interleaving of critical sections on every
    processor (\<open>kstep\<close>); \<open>Kernel_Sched_Inv\<close> has the invariant and one preservation lemma per step,
    \<open>Kernel_Sched_Safety\<close> the theorems about every reachable state.
  \<^item> \<open>Virtio_Queue\<close>: the split virtqueue, ring layout and block requests of \<open>crates/qunix-virtio\<close>; a driver's
    runs against a device that writes anything are \<open>vq_reach\<close>.
  \<^item> \<open>Buddy\<close>: the physical frame allocator \<open>crates/qunix-mm/src/buddy.rs\<close> over an explicit store; \<open>Buddy_Inv\<close> has
    its invariant and the list operations, \<open>Buddy_Safety\<close> its runs \<open>breach\<close> and the theorems.
  \<^item> \<open>Slab\<close>: the kernel heap \<open>crates/qunix-mm/src/slab.rs\<close> over an explicit store, its runs \<open>sreach\<close>.
    \<open>Bit_Count\<close> has the bit counts and roundings of the standard library both allocators use.
  \<^item> \<open>Frames\<close>: \<open>kernel/src/frames.rs\<close>, the intake of the firmware's memory map and the kernel's frames.
  \<^item> \<open>Paging\<close>: \<open>crates/qunix-hal-x86_64/src/paging.rs\<close> with the \<open>x86_64\<close> crate as the parameter \<open>x86\<close>; \<open>Flat_Tables\<close>
    has an instance of that parameter, on which the witnesses run.
  \<^item> \<open>Vmspace\<close>, \<open>Process\<close>, \<open>Syscall\<close>: user address spaces, the program loader and system-call dispatch
    (\<open>kernel/src/vmspace.rs\<close>, \<open>process.rs\<close>, \<open>syscall.rs\<close>); \<open>Loader\<close> has the theorems about a load on the kernel's frames.
  \<^item> \<open>Pci\<close>, \<open>Tlb\<close>: PCI configuration space and TLB shootdown (\<open>crates/qunix-hal-x86_64/src/pci.rs\<close>, \<open>tlb.rs\<close>); shootdown is an
    interleaving of the atomic operations of every processor (\<open>tlb_step\<close>).
  \<^item> \<open>Abi\<close>, \<open>Vfs_Path\<close>: the numbers shared with user space (\<open>crates/qunix-abi\<close>) and paths (\<open>crates/qunix-vfs/src/path.rs\<close>).

  \<^bold>\<open>Interfaces\<close>. What one part relies on in another is a locale interpreted on the model of the part
  that provides it: \<open>service_order\<close> (a priority queue, provided by the run queue), \<open>keyed_table\<close> (a map from
  blocks to slots, provided by the cache table), \<open>chain_allocator\<close> (descriptor chains, provided by the virtqueue), \<open>frame_source\<close>
  (exclusive frames, provided by \<open>frames.rs\<close> on the buddy allocator and used by address spaces and the loader).

  \<^bold>\<open>What is shown\<close>. Scheduler: no two processors stand on one stack, no runnable thread is stranded, a
  dispatch never panics. Cache table: it is a partial map from blocks to slots and never discards dirty,
  pinned or in-flight blocks. Buffer cache: it never panics, readers see the last acknowledged write, and a successful
  \<open>sync\<close> has put every block's latest bytes on the disk. Virtqueue: chains in use never share a descriptor, completions are reported
  once whatever the device writes, ring indices survive wrap-around. Frame allocator: blocks handed out never
  overlap and are never written, nothing leaks, a request is refused only when no aligned free range
  exists, double frees panic. Heap: blocks are aligned, disjoint and recycled. ELF parser: no input makes it panic and every segment it yields is in bounds.
  Loader: no file makes it panic or leak a frame, every page has the permissions of its segments and none is writable and
  executable, and memory holds exactly the file's bytes. System calls: no arguments make the kernel panic.
  PCI: the walk of a device's capability list ends, whatever the device holds, and misses nothing. TLB shootdown: when it
  returns, no other processor still has the translation, unless an interrupt lands inside the service call.

  \<^bold>\<open>Bounds and fuel\<close>. Thread identifiers stay below \<open>2 ^ 63\<close>, as the code's handoff flag assumes. Loops of
  the code are structural recursions or functions with a measure; the one fuel parameter is the queue size in the
  walk of a descriptor chain, which the virtqueue theorems show to be enough. Addresses and counters
  are naturals with the 64-bit bound checked where the code can overflow.

  \<^bold>\<open>Assumptions\<close>. A critical section under a kernel lock is one step. The disk does not carry out a write the
  driver has given up (\<open>late_write_lost\<close> shows what happens if it does), but may fail or garble any other. Owners of frames do not store a
  block's free tag (64 bits mixed from a seed, the address and the order) at that block's own base.
  The \<open>x86_64\<close> crate does what it documents (\<open>crate_ok\<close>): mapping, unmapping and translating change and read the one
  page asked for, with tables in the frames they were given. Page tables, the bytes of user memory and the links of the frame
  allocator are separate parts of the state, as frames in use are exclusive.

  \<^bold>\<open>Not modelled\<close>. Hardware access (descriptor tables, interrupt controllers, ports, page-table hardware),
  device drivers beyond the rings, the async executor, boot sequencing, the network and archive handling of the
  package manager, and the build tool.
\<close>

end
